(* ===== verification/Fcvm_Prelude.thy ===== *)
theory Fcvm_Prelude
  imports Main "HOL-Library.Word"
begin

unbundle bit_operations_syntax

text \<open>
  What the component theories share: the Rust arithmetic the sources use (\<open>usize\<close> and \<open>u64\<close> are
  both 64 bits wide on the targets fcvm builds for, and are read as natural numbers below
  \<open>2 ^ 64\<close> with every overflow check written out), the bit-counting methods of \<open>u64\<close>, the
  fixed-width integer encodings, and the generic lemmas about them.  Three collections steer the
  component proofs: \<open>rust_arith\<close> unfolds the arithmetic, \<open>codec_simps\<close> the byte encodings, and
  \<open>bitmap_simps\<close> the bit tests.
\<close>

named_theorems rust_arith
named_theorems codec_simps
named_theorems bitmap_simps

type_synonym u8 = "8 word"
type_synonym u16 = "16 word"
type_synonym u32 = "32 word"
type_synonym u64 = "64 word"
type_synonym bytes = "u8 list"

section \<open>Unsigned 64-bit arithmetic on natural numbers\<close>

definition u64_max :: nat where
  "u64_max = 2 ^ 64 - 1"

definition checked_add :: "nat \<Rightarrow> nat \<Rightarrow> nat option" where
  "checked_add a b = (if a + b \<le> u64_max then Some (a + b) else None)"

definition checked_mul :: "nat \<Rightarrow> nat \<Rightarrow> nat option" where
  "checked_mul a b = (if a * b \<le> u64_max then Some (a * b) else None)"

definition checked_sub :: "nat \<Rightarrow> nat \<Rightarrow> nat option" where
  "checked_sub a b = (if b \<le> a then Some (a - b) else None)"

definition saturating_add :: "nat \<Rightarrow> nat \<Rightarrow> nat" where
  "saturating_add a b = min (a + b) u64_max"

definition saturating_mul :: "nat \<Rightarrow> nat \<Rightarrow> nat" where
  "saturating_mul a b = min (a * b) u64_max"

text \<open>Rust's \<open>div_ceil\<close>: the quotient rounded up, with no intermediate overflow.\<close>

definition div_ceil :: "nat \<Rightarrow> nat \<Rightarrow> nat" where
  "div_ceil a b = a div b + (if a mod b = 0 then 0 else 1)"

definition next_multiple_of :: "nat \<Rightarrow> nat \<Rightarrow> nat" where
  "next_multiple_of a b = div_ceil a b * b"

definition checked_next_multiple_of :: "nat \<Rightarrow> nat \<Rightarrow> nat option" where
  "checked_next_multiple_of a b =
     (if b = 0 then None
      else if next_multiple_of a b \<le> u64_max then Some (next_multiple_of a b) else None)"

lemmas [rust_arith] = checked_add_def checked_mul_def checked_sub_def saturating_add_def
  saturating_mul_def checked_next_multiple_of_def next_multiple_of_def

lemma checked_add_Some [simp]: "checked_add a b = Some c \<longleftrightarrow> c = a + b \<and> a + b \<le> u64_max"
  by (auto simp: checked_add_def)

lemma checked_add_None [simp]: "checked_add a b = None \<longleftrightarrow> u64_max < a + b"
  by (auto simp: checked_add_def)

lemma checked_sub_Some [simp]: "checked_sub a b = Some c \<longleftrightarrow> b \<le> a \<and> c = a - b"
  by (auto simp: checked_sub_def)

lemma checked_sub_None [simp]: "checked_sub a b = None \<longleftrightarrow> a < b"
  by (auto simp: checked_sub_def)

lemma div_ceil_zero [simp]: "div_ceil 0 b = 0"
  by (simp add: div_ceil_def)

text \<open>The characterisation every use of \<open>div_ceil\<close> rests on.\<close>

lemma div_ceil_le_iff:
  assumes "0 < b"
  shows "div_ceil a b \<le> k \<longleftrightarrow> a \<le> k * b"
proof (cases "a mod b = 0")
  case True
  then obtain q where "a = q * b" by (metis dvd_def mod_eq_0_iff_dvd mult.commute)
  then show ?thesis using assms by (simp add: div_ceil_def)
next
  case False
  have "a div b < k \<longleftrightarrow> a < k * b"
    using assms by (simp add: div_less_iff_less_mult)
  moreover have "a \<noteq> k * b" using False by auto
  ultimately show ?thesis using False by (auto simp: div_ceil_def)
qed

lemma less_div_ceil_iff: "0 < b \<Longrightarrow> k < div_ceil a b \<longleftrightarrow> k * b < a"
  using div_ceil_le_iff [of b a k] by linarith

lemma le_mult_div_ceil: "0 < b \<Longrightarrow> a \<le> div_ceil a b * b"
  using div_ceil_le_iff [of b a "div_ceil a b"] by simp

lemma div_ceil_mult_less: "0 < b \<Longrightarrow> 0 < a \<Longrightarrow> (div_ceil a b - 1) * b < a"
  using less_div_ceil_iff [of b "div_ceil a b - 1" a] le_mult_div_ceil [of b a]
  by (cases "div_ceil a b") auto

lemma div_ceil_mult [simp]: "0 < b \<Longrightarrow> div_ceil (k * b) b = k"
  by (simp add: div_ceil_def)

lemma div_ceil_mono: "0 < b \<Longrightarrow> a \<le> c \<Longrightarrow> div_ceil a b \<le> div_ceil c b"
  using le_mult_div_ceil [of b c] by (simp add: div_ceil_le_iff)

lemma le_next_multiple_of: "0 < b \<Longrightarrow> a \<le> next_multiple_of a b"
  by (simp add: next_multiple_of_def le_mult_div_ceil)

lemma next_multiple_of_less: "0 < b \<Longrightarrow> next_multiple_of a b < a + b"
proof (cases "a = 0")
  case False
  assume b: "0 < b"
  have "0 < div_ceil a b" using b False less_div_ceil_iff [of b 0 a] by simp
  then have "next_multiple_of a b = (div_ceil a b - 1) * b + b"
    by (cases "div_ceil a b") (auto simp: next_multiple_of_def)
  then show ?thesis using div_ceil_mult_less [of b a] b False by simp
qed (simp add: next_multiple_of_def)

lemma dvd_next_multiple_of [simp]: "b dvd next_multiple_of a b"
  by (simp add: next_multiple_of_def)

section \<open>Counting bits of a word\<close>

text \<open>\<open>u64::count_ones\<close> and \<open>u64::trailing_zeros\<close> (64 for the zero word).\<close>

definition count_ones :: "u64 \<Rightarrow> nat" where
  "count_ones w = length (filter (bit w) [0..<64])"

definition trailing_zeros :: "u64 \<Rightarrow> nat" where
  "trailing_zeros w = length (takeWhile (\<lambda>i. \<not> bit w i) [0..<64])"

lemma count_filter_upt: "length (filter P [0..<n]) = card {i. i < n \<and> P i}"
proof -
  have "length (filter P [0..<n]) = card (set (filter P [0..<n]))"
    by (rule distinct_card [symmetric]) simp
  also have "set (filter P [0..<n]) = {i. i < n \<and> P i}" by auto
  finally show ?thesis .
qed

lemma bit_u64_less: "bit (w :: u64) i \<Longrightarrow> i < 64"
  using bit_imp_le_length [of w i] by simp

lemma finite_bits [simp]: "finite {i. bit (w :: u64) i}"
  by (rule finite_subset [of _ "{..<64}"]) (use bit_u64_less in blast, simp)

lemma count_ones_card: "count_ones w = card {i. bit w i}"
proof -
  have "{i. i < 64 \<and> bit w i} = {i. bit w i}" using bit_u64_less by blast
  then show ?thesis by (simp only: count_ones_def count_filter_upt)
qed

lemma count_ones_0 [simp]: "count_ones 0 = 0"
  by (simp add: count_ones_card)

text \<open>The words of a bitmap: a set bit only adds to the count what was clear before.\<close>

lemma count_ones_or: "count_ones (w OR m) = count_ones w + count_ones (m AND NOT w)"
proof -
  have "{i. bit (w OR m) i} = {i. bit w i} \<union> {i. bit (m AND NOT w) i}"
    by (auto simp: bit_simps dest: bit_u64_less)
  moreover have "{i. bit w i} \<inter> {i. bit (m AND NOT w) i} = {}"
    by (auto simp: bit_simps)
  ultimately show ?thesis
    by (simp add: count_ones_card card_Un_disjoint)
qed

text \<open>Stated for any bound, so that no proof unrolls the list of the 64 positions.\<close>

lemma takeWhile_upt_le: "length (takeWhile P [0..<n]) \<le> n"
  using length_takeWhile_le [of P "[0..<n]"] by simp

lemma takeWhile_upt_below:
  assumes "i < length (takeWhile P [0..<n])"
  shows "P i"
proof -
  have "takeWhile P [0..<n] ! i = i"
    using assms takeWhile_upt_le [of P n] by (simp add: takeWhile_nth)
  moreover have "P (takeWhile P [0..<n] ! i)"
    using nth_mem [OF assms] set_takeWhileD by fast
  ultimately show ?thesis by simp
qed

lemma takeWhile_upt_at:
  "length (takeWhile P [0..<n]) < n \<Longrightarrow> \<not> P (length (takeWhile P [0..<n]))"
  using nth_length_takeWhile [of P "[0..<n]"] by simp

lemma trailing_zeros_le: "trailing_zeros w \<le> 64"
  unfolding trailing_zeros_def by (rule takeWhile_upt_le)

lemma trailing_zeros_below: "i < trailing_zeros w \<Longrightarrow> \<not> bit w i"
  unfolding trailing_zeros_def by (rule takeWhile_upt_below)

lemma trailing_zeros_bit: "trailing_zeros w < 64 \<Longrightarrow> bit w (trailing_zeros w)"
  unfolding trailing_zeros_def using takeWhile_upt_at [of "\<lambda>i. \<not> bit w i" 64] by blast

lemma trailing_zeros_less_iff: "trailing_zeros w < 64 \<longleftrightarrow> w \<noteq> 0"
proof
  assume nz: "w \<noteq> 0"
  show "trailing_zeros w < 64"
  proof (rule ccontr)
    assume "\<not> trailing_zeros w < 64"
    then have "\<And>i. i < 64 \<Longrightarrow> \<not> bit w i" using trailing_zeros_below by simp
    then have "w = 0" by (auto intro: bit_word_eqI)
    with nz show False by simp
  qed
next
  assume "trailing_zeros w < 64"
  then have "bit w (trailing_zeros w)" by (rule trailing_zeros_bit)
  then show "w \<noteq> 0" by (metis bit_0_eq bot_apply bot_bool_def)
qed

section \<open>Slices\<close>

text \<open>\<open>xs[a..b]\<close>, which panics unless the bounds are ordered and inside the vector.\<close>

definition slice :: "'a list \<Rightarrow> nat \<Rightarrow> nat \<Rightarrow> 'a list option" where
  "slice xs a b = (if a \<le> b \<and> b \<le> length xs then Some (take (b - a) (drop a xs)) else None)"

lemma slice_Some [simp]:
  "slice xs a b = Some ys \<longleftrightarrow> a \<le> b \<and> b \<le> length xs \<and> ys = take (b - a) (drop a xs)"
  by (auto simp: slice_def)

lemma list_all_slice:
  "b \<le> length xs \<Longrightarrow> list_all P (take (b - a) (drop a xs)) \<longleftrightarrow> (\<forall>i. a \<le> i \<and> i < b \<longrightarrow> P (xs ! i))"
proof -
  assume b: "b \<le> length xs"
  have "list_all P (take (b - a) (drop a xs)) \<longleftrightarrow> (\<forall>j < b - a. P (xs ! (a + j)))"
    using b by (auto simp: list_all_length)
  also have "\<dots> \<longleftrightarrow> (\<forall>i. a \<le> i \<and> i < b \<longrightarrow> P (xs ! i))"
    by (metis add_diff_inverse_nat diff_less_mono le_add1 less_diff_conv2 linorder_not_less nat_le_iff_add
        add.commute less_diff_conv)
  finally show ?thesis .
qed

section \<open>Folding a fallible step\<close>

text \<open>Rust's \<open>try_fold\<close>, and the loops that stop at the first failing step.\<close>

fun try_fold :: "('s \<Rightarrow> 'a \<Rightarrow> 's option) \<Rightarrow> 's \<Rightarrow> 'a list \<Rightarrow> 's option" where
  "try_fold f s [] = Some s"
| "try_fold f s (x # xs) = Option.bind (f s x) (\<lambda>s'. try_fold f s' xs)"

lemma try_fold_append: "try_fold f s (xs @ ys) = Option.bind (try_fold f s xs) (\<lambda>s'. try_fold f s' ys)"
  by (induction xs arbitrary: s) (auto split: bind_splits)

section \<open>Invariants of step relations\<close>

text \<open>
  The contract of a state machine with an invariant: every step keeps it. Its clients are the step relations of the
  components, whose invariants then hold after any number of steps.
\<close>

locale kept_by_steps =
  fixes step :: "'s \<Rightarrow> 's \<Rightarrow> bool" and inv :: "'s \<Rightarrow> bool"
  assumes kept: "step s s' \<Longrightarrow> inv s \<Longrightarrow> inv s'"
begin

lemma steps_keep: "step\<^sup>*\<^sup>* s s' \<Longrightarrow> inv s \<Longrightarrow> inv s'"
  by (induction rule: rtranclp_induct) (auto intro: kept)

end

end
