(* ===== verification/Granule_Bitmap.thy ===== *)
theory Granule_Bitmap
  imports Fcvm_Prelude
begin

unbundle bit_operations_syntax

text \<open>
  Bitmaps of 4 KiB granules stored as vectors of 64-bit words, the representation that
  \<open>HoleMap\<close> (\<open>src/uffd/holes.rs\<close>) and \<open>PageSet\<close> (\<open>src/uffd/working_set.rs\<close>) share.  The
  abstraction of a word vector is the set of granules whose bit is set; this theory relates word
  updates, population counts and word-at-a-time scans to that set, once for both clients.
\<close>

section \<open>The largest piece one call populates\<close>

definition CHUNK_BYTES :: nat where
  "CHUNK_BYTES = 2 * 1024 * 1024"

section \<open>Words, bits and the set they denote\<close>

text \<open>Reading past the end gives zero, as \<open>bits.get(i).copied().unwrap_or(0)\<close> does.\<close>

definition bm_word :: "u64 list \<Rightarrow> nat \<Rightarrow> u64" where
  "bm_word ws i = (if i < length ws then ws ! i else 0)"

definition bm_test :: "u64 list \<Rightarrow> nat \<Rightarrow> bool" where
  "bm_test ws g = bit (bm_word ws (g div 64)) (g mod 64)"

definition bm_set :: "u64 list \<Rightarrow> nat set" where
  "bm_set ws = {g. bm_test ws g}"

definition bm_count :: "u64 list \<Rightarrow> nat" where
  "bm_count ws = sum_list (map count_ones ws)"

lemma within_word:
  assumes "(g :: nat) mod 64 + k < 64"
  shows "(g + k) div 64 = g div 64" and "(g + k) mod 64 = g mod 64 + k"
proof -
  obtain q r where g: "g = q * 64 + r" "r < 64" by (metis div_mult_mod_eq mod_less_divisor zero_less_numeral)
  have "r + k < 64" using assms g by simp
  then show "(g + k) div 64 = g div 64" "(g + k) mod 64 = g mod 64 + k"
    using g by (simp_all add: add.assoc)
qed

lemma bm_test_Nil [simp]: "\<not> bm_test [] g"
  by (simp add: bm_test_def bm_word_def)

lemma bm_test_replicate_0 [simp]: "\<not> bm_test (replicate n 0) g"
  by (simp add: bm_test_def bm_word_def)

lemma bm_set_simps [simp]: "bm_set [] = {}" "bm_set (replicate n 0) = {}"
  by (simp_all add: bm_set_def)

lemma bm_test_less: "bm_test ws g \<Longrightarrow> g < 64 * length ws"
  by (auto simp: bm_test_def bm_word_def split: if_splits)

lemma bm_test_in_word:
  "i < length ws \<Longrightarrow> r < 64 \<Longrightarrow> bm_test ws (64 * i + r) \<longleftrightarrow> bit (ws ! i) r"
  by (simp add: bm_test_def bm_word_def)

lemma bm_test_update [bitmap_simps]:
  "i < length ws \<Longrightarrow>
     bm_test (ws[i := w]) g \<longleftrightarrow> (if g div 64 = i then bit w (g mod 64) else bm_test ws g)"
  by (simp add: bm_test_def bm_word_def)

lemma bm_test_Cons:
  "bm_test (w # ws) g \<longleftrightarrow> (if g < 64 then bit w g else bm_test ws (g - 64))"
proof (cases "g < 64")
  case False
  then have "g div 64 = Suc ((g - 64) div 64)" and "g mod 64 = (g - 64) mod 64"
    by (simp_all add: le_div_geq le_mod_geq)
  with False show ?thesis by (simp add: bm_test_def bm_word_def)
qed (simp add: bm_test_def bm_word_def)

lemma bm_set_Cons: "bm_set (w # ws) = {i. bit w i} \<union> (\<lambda>g. g + 64) ` bm_set ws"
proof (intro set_eqI iffI)
  fix g
  assume "g \<in> bm_set (w # ws)"
  then show "g \<in> {i. bit w i} \<union> (\<lambda>g. g + 64) ` bm_set ws"
    by (cases "g < 64") (auto simp: bm_set_def bm_test_Cons intro!: image_eqI [of _ _ "g - 64"])
next
  fix g
  assume "g \<in> {i. bit w i} \<union> (\<lambda>g. g + 64) ` bm_set ws"
  then show "g \<in> bm_set (w # ws)"
    using bit_u64_less [of w g] by (auto simp: bm_set_def bm_test_Cons)
qed

lemma finite_bm_set [simp]: "finite (bm_set ws)"
  by (rule finite_subset [of _ "{..<64 * length ws}"]) (auto simp: bm_set_def dest: bm_test_less)

text \<open>The population counts of the words add up to the size of the set.\<close>

lemma bm_count_card: "bm_count ws = card (bm_set ws)"
proof (induction ws)
  case (Cons w ws)
  have "{i. bit w i} \<inter> (\<lambda>g. g + 64) ` bm_set ws = {}"
    using bit_u64_less [of w] by auto
  then have "card (bm_set (w # ws)) = card {i. bit w i} + card ((\<lambda>g. g + 64) ` bm_set ws)"
    by (simp add: bm_set_Cons card_Un_disjoint)
  also have "\<dots> = count_ones w + bm_count ws"
    by (simp add: Cons.IH count_ones_card card_image)
  finally show ?case by (simp add: bm_count_def)
qed (simp add: bm_count_def)

lemma bm_count_update_or:
  "i < length ws \<Longrightarrow> bm_count (ws[i := ws ! i OR m]) = bm_count ws + count_ones (m AND NOT (ws ! i))"
  by (induction ws arbitrary: i)
    (auto simp: bm_count_def count_ones_or less_Suc_eq_0_disj split: nat.split)

section \<open>Scanning a word from a bit on\<close>

text \<open>
  The scans of the sources shift a word down to the current position and count trailing zeros: a
  nonzero shifted word names the first set bit at or after the position, a zero one says the rest
  of the word is clear.
\<close>

lemma scan_hit:
  assumes "drop_bit r w \<noteq> (0 :: u64)"
  shows "bit w (r + trailing_zeros (drop_bit r w))"
    and "r + trailing_zeros (drop_bit r w) < 64"
    and "\<And>i. r \<le> i \<Longrightarrow> i < r + trailing_zeros (drop_bit r w) \<Longrightarrow> \<not> bit w i"
proof -
  let ?t = "trailing_zeros (drop_bit r w)"
  have "bit (drop_bit r w) ?t"
    using assms by (simp add: trailing_zeros_bit trailing_zeros_less_iff)
  then show b: "bit w (r + ?t)" by (simp add: bit_drop_bit_eq)
  then show "r + ?t < 64" by (rule bit_u64_less)
  show "\<not> bit w i" if "r \<le> i" "i < r + ?t" for i
    using trailing_zeros_below [of "i - r" "drop_bit r w"] that by (simp add: bit_drop_bit_eq)
qed

lemma scan_miss:
  assumes "drop_bit r w = (0 :: u64)" and "r \<le> i"
  shows "\<not> bit w i"
proof -
  have "\<not> bit (drop_bit r w) (i - r)" by (simp add: assms(1))
  with assms(2) show ?thesis by (simp add: bit_drop_bit_eq)
qed

text \<open>The same in terms of granules: the word at \<open>g div 64\<close>, read from granule \<open>g\<close> on.\<close>

lemma same_word:
  assumes "(g :: nat) \<le> x" and "x < (g div 64 + 1) * 64"
  shows "x div 64 = g div 64" and "x mod 64 = g mod 64 + (x - g)"
proof -
  have "g div 64 \<le> x div 64" using assms(1) by (rule div_le_mono)
  moreover have "x div 64 < g div 64 + 1" using assms(2) by (simp add: div_less_iff_less_mult)
  ultimately show eq: "x div 64 = g div 64" by simp
  show "x mod 64 = g mod 64 + (x - g)"
    using assms(1) eq div_mult_mod_eq [of x 64] div_mult_mod_eq [of g 64] by linarith
qed

lemma scan_word_miss:
  assumes "drop_bit (g mod 64) w = (0 :: u64)" and "g \<le> x" and "x < (g div 64 + 1) * 64"
  shows "\<not> bit w (x mod 64)"
  using scan_miss [OF assms(1), of "x mod 64"] same_word [OF assms(2,3)] by simp

lemma scan_word_hit:
  assumes "drop_bit (g mod 64) w \<noteq> (0 :: u64)" and "h = g + trailing_zeros (drop_bit (g mod 64) w)"
  shows "g \<le> h" and "h < (g div 64 + 1) * 64" and "bit w (h mod 64)"
    and "\<And>x. g \<le> x \<Longrightarrow> x < h \<Longrightarrow> \<not> bit w (x mod 64)"
proof -
  note hit = scan_hit [OF assms(1)]
  show le: "g \<le> h" by (simp add: assms(2))
  define t where "t = g mod 64 + trailing_zeros (drop_bit (g mod 64) w)"
  have "h = g div 64 * 64 + t" unfolding assms(2) t_def by simp
  moreover have "t < 64" using hit(2) by (simp only: t_def)
  ultimately show below: "h < (g div 64 + 1) * 64" by simp
  show "bit w (h mod 64)" using hit(1) same_word(2) [OF le below] assms(2) by simp
  show "\<not> bit w (x mod 64)" if "g \<le> x" "x < h" for x
  proof -
    have "x mod 64 = g mod 64 + (x - g)" using that below by (intro same_word(2)) linarith+
    moreover have "x - g < trailing_zeros (drop_bit (g mod 64) w)" using that assms(2) by linarith
    ultimately show ?thesis using hit(3) [of "x mod 64"] by simp
  qed
qed

section \<open>The interface of a range-marking bitmap\<close>

text \<open>
  What both bitmaps promise about marking a range: it succeeds, keeps the invariant and the size,
  and adds exactly the granules the range stands for.  The client lemma is about any sequence of
  markings, in any order.
\<close>

locale range_marks =
  fixes mark :: "'s \<Rightarrow> nat \<Rightarrow> nat \<Rightarrow> 's option"
    and inv :: "'s \<Rightarrow> bool"
    and marks :: "'s \<Rightarrow> nat set"
    and extent :: "'s \<Rightarrow> nat"
    and granules_of :: "nat \<Rightarrow> nat \<Rightarrow> nat \<Rightarrow> nat set"
  assumes mark_ok: "inv s \<Longrightarrow>
      \<exists>s'. mark s offset len = Some s' \<and> inv s' \<and> extent s' = extent s \<and>
           marks s' = marks s \<union> granules_of (extent s) offset len"
begin

lemma mark_all:
  "inv s \<Longrightarrow>
    \<exists>s'. try_fold (\<lambda>s (offset, len). mark s offset len) s rs = Some s' \<and> inv s' \<and>
         extent s' = extent s \<and>
         marks s' = marks s \<union> (\<Union>(offset, len) \<in> set rs. granules_of (extent s) offset len)"
proof (induction rs arbitrary: s)
  case (Cons r rs)
  obtain offset len where r: "r = (offset, len)" by fastforce
  obtain s1 where s1: "mark s offset len = Some s1" "inv s1" "extent s1 = extent s"
    "marks s1 = marks s \<union> granules_of (extent s) offset len"
    using mark_ok [OF Cons.prems] by blast
  then show ?case using Cons.IH [OF s1(2)] by (auto simp: r)
qed simp

text \<open>The order of the ranges does not matter for the marks.\<close>

lemma mark_all_commute:
  assumes "inv s" and "set rs = set rs'"
  shows "map_option marks (try_fold (\<lambda>s (offset, len). mark s offset len) s rs) =
         map_option marks (try_fold (\<lambda>s (offset, len). mark s offset len) s rs')"
  using mark_all [OF assms(1), of rs] mark_all [OF assms(1), of rs'] assms(2) by auto

end

end
