(* ===== verification/Uffd_Holes.thy ===== *)
theory Uffd_Holes
  imports Granule_Bitmap "HOL-Library.Monad_Syntax"
begin

unbundle bit_operations_syntax

text \<open>
  The holes of a snapshot memory image (\<open>src/uffd/holes.rs\<close>): the bitmap \<open>HoleMap\<close> with its
  insertion, query and run operations, the walk over a file's data runs that builds one, and
  \<open>MemfdHoles\<close>, which asks \<open>mincore\<close> which candidate holes are still holes.

  An index outside a vector panics in Rust; here it is the value \<open>None\<close>, and the theorems show
  that it never happens under the invariant.  The kernel is a parameter: \<open>lseek\<close> with
  \<open>SEEK_DATA\<close> and \<open>SEEK_HOLE\<close> is a pair of functions from offsets to results, \<open>mincore\<close> a
  function from a range to the residency bytes, the host page size a number.
\<close>

section \<open>The bitmap\<close>

definition GRANULE_BYTES :: nat where
  "GRANULE_BYTES = 4096"

record hole_map =
  hm_granules :: nat
  hm_bits :: "u64 list"
  hm_marked :: nat

definition hole_map_new :: "nat \<Rightarrow> hole_map" where
  "hole_map_new mem_len = \<lparr>hm_granules = div_ceil mem_len GRANULE_BYTES, hm_bits = [], hm_marked = 0\<rparr>"

definition hole_map_bytes :: "hole_map \<Rightarrow> nat" where
  "hole_map_bytes m = saturating_mul (hm_marked m) GRANULE_BYTES"

text \<open>The word holding a granule, the bits of it up to a bound, and how many they are.\<close>

definition word_mask :: "nat \<Rightarrow> nat \<Rightarrow> nat \<times> u64 \<times> nat" where
  "word_mask granule past_last =
     (let from = granule mod 64;
          upto = min (past_last - granule + from) 64;
          msk = push_bit from (drop_bit (64 - (upto - from)) (- 1 :: u64))
      in (granule div 64, msk, upto - from))"

lemma word_mask_step:
  "granule < past_last \<Longrightarrow> (word, msk, step) = word_mask granule past_last \<Longrightarrow>
     past_last - (granule + step) < past_last - granule"
  by (auto simp: word_mask_def Let_def)

lemma word_mask_spec:
  assumes "granule < past_last" and "word_mask granule past_last = (word, msk, step)"
  shows "word = granule div 64" and "0 < step" and "granule + step \<le> past_last"
    and "granule + step = past_last \<or> granule + step = 64 * Suc word"
    and "granule + step \<le> 64 * Suc word"
    and "\<And>i. i < 64 \<Longrightarrow> bit msk i \<longleftrightarrow> granule \<le> 64 * word + i \<and> 64 * word + i < granule + step"
proof -
  define fr where "fr = granule mod 64"
  define up where "up = min (past_last - granule + fr) 64"
  have "(granule div 64, push_bit fr (drop_bit (64 - (up - fr)) (- 1 :: u64)), up - fr)
      = (word, msk, step)"
    using assms(2) unfolding word_mask_def Let_def fr_def up_def .
  then have w: "word = granule div 64" and st: "step = up - fr"
    and msk: "msk = push_bit fr (drop_bit (64 - (up - fr)) (- 1 :: u64))"
    by blast+
  have g: "granule = 64 * word + fr" by (simp add: w fr_def)
  have fr: "fr < 64" by (simp add: fr_def)
  have up: "fr < up" "up \<le> 64" "up - fr \<le> past_last - granule"
    "up = 64 \<or> up - fr = past_last - granule"
    using assms(1) fr by (auto simp: up_def)
  show "word = granule div 64" by (rule w)
  show "0 < step" using up st by simp
  show "granule + step \<le> past_last" using up st assms(1) by simp
  show "granule + step = past_last \<or> granule + step = 64 * Suc word"
    using up st assms(1) g by auto
  show "granule + step \<le> 64 * Suc word" using up st g by simp
  show "bit msk i \<longleftrightarrow> granule \<le> 64 * word + i \<and> 64 * word + i < granule + step" if "i < 64" for i
    using that up st g fr by (auto simp: msk bit_simps)
qed

text \<open>Marking: whole words at a time, counting the bits that were clear before.\<close>

function insert_words :: "nat \<Rightarrow> u64 list \<Rightarrow> nat \<Rightarrow> nat \<Rightarrow> (u64 list \<times> nat) option" where
  "insert_words past_last bits marked granule =
     (if granule < past_last then
        (case word_mask granule past_last of (word, msk, step) \<Rightarrow>
           if word < length bits
           then insert_words past_last (bits[word := bits ! word OR msk])
                  (marked + count_ones (msk AND NOT (bits ! word))) (granule + step)
           else None)
      else Some (bits, marked))"
  by pat_completeness auto
termination
  by (relation "measure (\<lambda>(past_last, bits, marked, granule). past_last - granule)")
    (auto intro: word_mask_step)

declare insert_words.simps [simp del]

definition hole_map_insert :: "hole_map \<Rightarrow> nat \<Rightarrow> nat \<Rightarrow> hole_map option" where
  "hole_map_insert m offset len =
     (case checked_add offset len of
        None \<Rightarrow> Some m
      | Some end \<Rightarrow>
          (let first = div_ceil offset GRANULE_BYTES;
               past_last = min (end div GRANULE_BYTES) (hm_granules m)
           in if past_last \<le> first then Some m
              else
                let bits = (if hm_bits m = [] then replicate (div_ceil (hm_granules m) 64) 0
                            else hm_bits m)
                in do {
                  (bits', marked') \<leftarrow> insert_words past_last bits (hm_marked m) first;
                  Some (m\<lparr>hm_bits := bits', hm_marked := marked'\<rparr>)
                }))"

text \<open>The query: every granule of a range marked.\<close>

function covers_words :: "nat \<Rightarrow> u64 list \<Rightarrow> nat \<Rightarrow> bool option" where
  "covers_words past_last bits granule =
     (if granule < past_last then
        (case word_mask granule past_last of (word, msk, step) \<Rightarrow>
           if word < length bits
           then if bits ! word AND msk \<noteq> msk then Some False
                else covers_words past_last bits (granule + step)
           else None)
      else Some True)"
  by pat_completeness auto
termination
  by (relation "measure (\<lambda>(past_last, bits, granule). past_last - granule)")
    (auto intro: word_mask_step)

declare covers_words.simps [simp del]

definition hole_map_covers :: "hole_map \<Rightarrow> nat \<Rightarrow> nat \<Rightarrow> bool option" where
  "hole_map_covers m offset len =
     (if hm_marked m = 0 \<or> len = 0 then Some False
      else case checked_add offset len of
        None \<Rightarrow> Some False
      | Some end \<Rightarrow>
          (let first = offset div GRANULE_BYTES; past_last = div_ceil end GRANULE_BYTES
           in if past_last > hm_granules m then Some False
              else covers_words past_last (hm_bits m) first))"

section \<open>The runs of equal answers\<close>

text \<open>
  \<open>granule_run\<close> reads a word at a time.  Its loop condition \<open>run < max\<close> is over \<open>usize\<close> values,
  so it also says \<open>run < u64_max\<close>; writing that out makes the recursion total on all numbers.
\<close>

lemma saturating_add_progress:
  assumes "run < u64_max" and "\<not> min t (64 - granule mod 64) < 64 - granule mod 64"
  shows "u64_max - saturating_add run (min t (64 - granule mod 64)) < u64_max - run"
proof -
  have "0 < 64 - granule mod 64" by simp
  with assms have "0 < min t (64 - granule mod 64)" by linarith
  with assms(1) show ?thesis by (auto simp: saturating_add_def min_def)
qed

function granule_run_loop :: "u64 list \<Rightarrow> u64 \<Rightarrow> nat \<Rightarrow> nat \<Rightarrow> nat \<Rightarrow> nat" where
  "granule_run_loop bits flip limit run granule =
     (if run < limit \<and> run < u64_max then
        (let from = granule mod 64;
             differ = drop_bit from (bm_word bits (granule div 64) XOR flip);
             span = 64 - from;
             same = min (trailing_zeros differ) span;
             run' = saturating_add run same
         in if same < span then run'
            else granule_run_loop bits flip limit run' (saturating_add granule span))
      else run)"
  by pat_completeness auto
termination
proof (relation "measure (\<lambda>(bits, flip, limit, run, granule). u64_max - run)", goal_cases)
  case (2 bits flip limit run granule fr differ span same r)
  then show ?case
    unfolding in_measure prod.case
    using saturating_add_progress [of run "trailing_zeros differ" granule] by blast
qed (rule wf_measure)

declare granule_run_loop.simps [simp del]

definition hole_map_granule_run :: "hole_map \<Rightarrow> nat \<Rightarrow> nat \<Rightarrow> bool \<times> nat" where
  "hole_map_granule_run m first limit =
     (let inside = (drop_bit (first mod 64) (bm_word (hm_bits m) (first div 64)) AND 1 \<noteq> 0);
          flip = (if inside then - 1 else 0)
      in (inside, min (granule_run_loop (hm_bits m) flip limit 0 first) limit))"

text \<open>The page loop of \<open>run_at\<close>, for pages larger than a granule.\<close>

function run_pages :: "hole_map \<Rightarrow> nat \<Rightarrow> nat \<Rightarrow> nat \<Rightarrow> bool \<Rightarrow> nat \<Rightarrow> nat option" where
  "run_pages m offset page_size pages inside run =
     (if run < pages then
        (case (do { b \<leftarrow> checked_mul run page_size; checked_add offset b }) of
           None \<Rightarrow> Some run
         | Some page \<Rightarrow> do {
             c \<leftarrow> hole_map_covers m page page_size;
             if c = inside then run_pages m offset page_size pages inside (run + 1) else Some run
           })
      else Some run)"
  by pat_completeness auto
termination
  by (relation "measure (\<lambda>(m, offset, page_size, pages, inside, run). pages - run)") auto

declare run_pages.simps [simp del]

definition hole_map_run_at :: "hole_map \<Rightarrow> nat \<Rightarrow> nat \<Rightarrow> nat \<Rightarrow> (bool \<times> nat) option" where
  "hole_map_run_at m offset max_len page_size =
     (if hm_marked m = 0 then Some (False, max_len)
      else if page_size = 0 then None
      else
        let max_len = min max_len CHUNK_BYTES;
            pages = div_ceil max_len page_size
        in do {
          (inside, run) \<leftarrow>
            (if page_size = GRANULE_BYTES
             then Some (hole_map_granule_run m (offset div GRANULE_BYTES) pages)
             else do {
               inside \<leftarrow> hole_map_covers m offset page_size;
               run \<leftarrow> run_pages m offset page_size pages inside 1;
               Some (inside, run)
             });
          Some (inside, min (saturating_mul run page_size) max_len)
        })"

section \<open>Building the map from a file\<close>

datatype errno = ENXIO | EOTHER nat

datatype run_error =
    SeekData nat errno
  | SeekHole nat errno
  | BadRun nat nat nat
  | OffsetTooLarge nat

text \<open>
  \<open>lseek\<close> takes an \<open>i64\<close>, so an offset above \<open>i64::MAX\<close> is refused first.  The checks make every
  accepted run end after its offset, which is why the walk ends.
\<close>

definition i64_max :: nat where
  "i64_max = 2 ^ 63 - 1"

function data_runs ::
  "(nat \<Rightarrow> errno + nat) \<Rightarrow> (nat \<Rightarrow> errno + nat) \<Rightarrow> nat \<Rightarrow> nat \<Rightarrow> run_error + (nat \<times> nat) list" where
  "data_runs seek_data seek_hole len offset =
     (if offset < len then
        if offset > i64_max then Inl (OffsetTooLarge offset)
        else
          (case seek_data offset of
             Inl ENXIO \<Rightarrow> Inr []
           | Inl e \<Rightarrow> Inl (SeekData offset e)
           | Inr data_start \<Rightarrow>
               if data_start > i64_max then Inl (OffsetTooLarge data_start)
               else
                 (case seek_hole data_start of
                    Inl e \<Rightarrow> Inl (SeekHole data_start e)
                  | Inr data_end \<Rightarrow>
                      if data_start \<ge> offset \<and> data_end > data_start \<and> data_end \<le> len
                      then (case data_runs seek_data seek_hole len data_end of
                              Inl e \<Rightarrow> Inl e
                            | Inr rest \<Rightarrow> Inr ((data_start, data_end) # rest))
                      else Inl (BadRun data_start data_end len)))
      else Inr [])"
  by pat_completeness auto
termination
  by (relation "measure (\<lambda>(seek_data, seek_hole, len, offset). len - offset)") auto

declare data_runs.simps [simp del]

text \<open>\<open>for_each_data_run\<close> calls back for each run in order; the callback of \<open>from_file\<close> marks the
  hole before the run and moves on.  A subtraction that underflowed would panic.\<close>

fun mark_holes :: "hole_map \<Rightarrow> nat \<Rightarrow> (nat \<times> nat) list \<Rightarrow> (hole_map \<times> nat) option" where
  "mark_holes m hole_start [] = Some (m, hole_start)"
| "mark_holes m hole_start ((s, e) # rest) = do {
     hole \<leftarrow> checked_sub s hole_start;
     m' \<leftarrow> hole_map_insert m hole_start hole;
     mark_holes m' e rest
   }"

definition hole_map_from_file ::
  "(nat \<Rightarrow> errno + nat) \<Rightarrow> (nat \<Rightarrow> errno + nat) \<Rightarrow> nat \<Rightarrow> run_error + hole_map option" where
  "hole_map_from_file seek_data seek_hole len =
     (case data_runs seek_data seek_hole len 0 of
        Inl e \<Rightarrow> Inl e
      | Inr runs \<Rightarrow> Inr (do {
          (m, hole_start) \<leftarrow> mark_holes (hole_map_new len) 0 runs;
          hole \<leftarrow> checked_sub len hole_start;
          hole_map_insert m hole_start hole
        }))"

section \<open>The set of marked granules, and the invariant\<close>

definition hm_set :: "hole_map \<Rightarrow> nat set" where
  "hm_set m = bm_set (hm_bits m)"

definition hm_inv :: "hole_map \<Rightarrow> bool" where
  "hm_inv m \<longleftrightarrow>
     (hm_bits m = [] \<or> length (hm_bits m) = div_ceil (hm_granules m) 64) \<and>
     hm_set m \<subseteq> {..<hm_granules m} \<and>
     hm_marked m = card (hm_set m)"

lemma hm_inv_new: "hm_inv (hole_map_new len)" and hm_set_new: "hm_set (hole_map_new len) = {}"
  and hm_granules_new: "hm_granules (hole_map_new len) = div_ceil len GRANULE_BYTES"
  by (simp_all add: hm_inv_def hm_set_def hole_map_new_def)

lemma finite_hm_set [simp]: "finite (hm_set m)"
  by (simp add: hm_set_def)

lemma hm_marked_0_iff: "hm_inv m \<Longrightarrow> hm_marked m = 0 \<longleftrightarrow> hm_set m = {}"
  by (auto simp: hm_inv_def)

text \<open>A granule and the granules of its word, as the loops split a range.\<close>

lemma word_split:
  assumes "granule < past_last" and "word_mask granule past_last = (word, msk, step)"
  shows "(granule \<le> x \<and> x < past_last) \<longleftrightarrow>
    (x div 64 = word \<and> bit msk (x mod 64)) \<or> (granule + step \<le> x \<and> x < past_last)"
proof -
  note ms = word_mask_spec [OF assms]
  have x: "x = 64 * (x div 64) + x mod 64" by simp
  show ?thesis
  proof (cases "x div 64 = word")
    case True
    then show ?thesis using ms(6) [of "x mod 64"] ms(3) x by auto
  next
    case False
    have "\<not> (granule \<le> x \<and> x < granule + step)"
    proof
      assume r: "granule \<le> x \<and> x < granule + step"
      then have "granule div 64 \<le> x div 64" by (simp add: div_le_mono)
      moreover have "x < 64 * Suc word" using r ms(5) by linarith
      ultimately show False using False ms(1) by auto
    qed
    then show ?thesis using False ms(2) by auto
  qed
qed

lemma insert_words_spec:
  assumes "past_last \<le> 64 * length bits"
  shows "\<exists>bits' marked'. insert_words past_last bits marked granule = Some (bits', marked') \<and>
    length bits' = length bits \<and>
    (\<forall>x. bm_test bits' x \<longleftrightarrow> bm_test bits x \<or> (granule \<le> x \<and> x < past_last)) \<and>
    marked' + bm_count bits = marked + bm_count bits'"
  using assms
proof (induction past_last bits marked granule rule: insert_words.induct)
  case (1 past_last bits marked granule)
  show ?case
  proof (cases "granule < past_last")
    case True
    obtain word msk step where wm: "word_mask granule past_last = (word, msk, step)"
      by (metis prod_cases3)
    note ms = word_mask_spec [OF True wm]
    have wl: "word < length bits" using "1.prems" True ms(1) by auto
    let ?b = "bits[word := bits ! word OR msk]"
    let ?m = "marked + count_ones (msk AND NOT (bits ! word))"
    obtain bits' marked' where IH:
      "insert_words past_last ?b ?m (granule + step) = Some (bits', marked')"
      "length bits' = length ?b"
      "\<And>x. bm_test bits' x \<longleftrightarrow> bm_test ?b x \<or> (granule + step \<le> x \<and> x < past_last)"
      "marked' + bm_count ?b = ?m + bm_count bits'"
      using "1.IH" [OF True wm [symmetric] refl wl] "1.prems" by auto
    have eq: "insert_words past_last bits marked granule = Some (bits', marked')"
      using True wl IH(1) by (simp add: insert_words.simps [of past_last bits marked granule] wm)
    have tst: "bm_test bits' x \<longleftrightarrow> bm_test bits x \<or> (granule \<le> x \<and> x < past_last)" for x
      using wl by (simp add: IH(3) word_split [OF True wm, of x] bm_test_update bit_or_iff)
        (auto simp: bm_test_def bm_word_def)
    have cnt: "marked' + bm_count bits = marked + bm_count bits'"
      using IH(4) bm_count_update_or [OF wl, of msk] by simp
    show ?thesis using eq IH(2) tst cnt by auto
  qed (auto simp: insert_words.simps [of past_last bits marked granule])
qed

lemma granule_inside_iff:
  "div_ceil offset GRANULE_BYTES \<le> g \<and> g < e div GRANULE_BYTES \<longleftrightarrow>
     offset \<le> g * 4096 \<and> (g + 1) * 4096 \<le> e"
  by (auto simp: GRANULE_BYTES_def div_ceil_le_iff less_eq_div_iff_mult_less_eq Suc_le_eq [symmetric])

text \<open>The granules of an image that lie wholly inside a range; none when its end overflows.\<close>

definition granules_inside :: "nat \<Rightarrow> nat \<Rightarrow> nat \<Rightarrow> nat set" where
  "granules_inside granules offset len =
     {g. g < granules \<and> offset + len \<le> u64_max \<and> offset \<le> g * 4096 \<and> (g + 1) * 4096 \<le> offset + len}"

lemma hole_map_insert_spec:
  assumes "hm_inv m"
  shows "\<exists>m'. hole_map_insert m offset len = Some m' \<and> hm_inv m' \<and>
    hm_granules m' = hm_granules m \<and>
    hm_set m' = hm_set m \<union> granules_inside (hm_granules m) offset len"
proof (cases "offset + len \<le> u64_max")
  case False
  then show ?thesis using assms by (auto simp: hole_map_insert_def checked_add_def granules_inside_def)
next
  case True
  let ?first = "div_ceil offset GRANULE_BYTES"
  let ?past = "min ((offset + len) div GRANULE_BYTES) (hm_granules m)"
  have range: "(?first \<le> g \<and> g < ?past) \<longleftrightarrow>
      g < hm_granules m \<and> offset \<le> g * 4096 \<and> (g + 1) * 4096 \<le> offset + len" for g
    using granule_inside_iff [of offset g "offset + len"] by auto
  show ?thesis
  proof (cases "?past \<le> ?first")
    case empty: True
    then have "{g. ?first \<le> g \<and> g < ?past} = {}" by auto
    then have none: "{g. g < hm_granules m \<and> offset \<le> g * 4096 \<and> (g + 1) * 4096 \<le> offset + len} = {}"
      by (simp only: range)
    have "hole_map_insert m offset len = Some m"
      using True empty by (simp add: hole_map_insert_def checked_add_def Let_def)
    then show ?thesis using assms True none by (auto simp: granules_inside_def)
  next
    case False
    let ?bits = "if hm_bits m = [] then replicate (div_ceil (hm_granules m) 64) 0 else hm_bits m"
    have len: "length ?bits = div_ceil (hm_granules m) 64"
      using assms by (auto simp: hm_inv_def)
    have past: "?past \<le> 64 * length ?bits"
      using len le_mult_div_ceil [of 64 "hm_granules m"] by simp
    have same: "bm_set ?bits = hm_set m" by (auto simp: hm_set_def)
    obtain bits' marked' where iw:
      "insert_words ?past ?bits (hm_marked m) ?first = Some (bits', marked')"
      "length bits' = length ?bits"
      "\<And>x. bm_test bits' x \<longleftrightarrow> bm_test ?bits x \<or> (?first \<le> x \<and> x < ?past)"
      "marked' + bm_count ?bits = hm_marked m + bm_count bits'"
      using insert_words_spec [OF past, of "hm_marked m" ?first] by metis
    let ?m = "m\<lparr>hm_bits := bits', hm_marked := marked'\<rparr>"
    have ins: "hole_map_insert m offset len = Some ?m"
      using True False iw(1) by (simp add: hole_map_insert_def checked_add_def Let_def)
    have set': "hm_set ?m = hm_set m \<union>
        {g. g < hm_granules m \<and> offset \<le> g * 4096 \<and> (g + 1) * 4096 \<le> offset + len}"
    proof -
      have "bm_set bits' = bm_set ?bits \<union> {g. ?first \<le> g \<and> g < ?past}"
        by (rule set_eqI) (simp only: bm_set_def mem_Collect_eq Un_iff iw(3))
      then show ?thesis unfolding range same by (simp add: hm_set_def)
    qed
    have "marked' = card (hm_set ?m)"
      using iw(4) assms by (simp add: bm_count_card same hm_inv_def) (simp add: hm_set_def)
    then have "hm_inv ?m"
      using assms set' iw(2) len by (auto simp: hm_inv_def)
    then show ?thesis using ins set' True by (simp add: conj_assoc granules_inside_def)
  qed
qed

interpretation hm: range_marks hole_map_insert hm_inv hm_set hm_granules granules_inside
  by unfold_locales (rule hole_map_insert_spec)

section \<open>The query\<close>

lemma covers_words_spec:
  assumes "past_last \<le> 64 * length bits"
  shows "covers_words past_last bits granule =
    Some (\<forall>x. granule \<le> x \<and> x < past_last \<longrightarrow> bm_test bits x)"
  using assms
proof (induction past_last bits granule rule: covers_words.induct)
  case (1 past_last bits granule)
  show ?case
  proof (cases "granule < past_last")
    case True
    obtain word msk step where wm: "word_mask granule past_last = (word, msk, step)"
      by (metis prod_cases3)
    note ms = word_mask_spec [OF True wm]
    have wl: "word < length bits" using "1.prems" True ms(1) by auto
    have all: "bits ! word AND msk = msk \<longleftrightarrow>
        (\<forall>x. x div 64 = word \<and> bit msk (x mod 64) \<longrightarrow> bm_test bits x)"
    proof
      assume "bits ! word AND msk = msk"
      then show "\<forall>x. x div 64 = word \<and> bit msk (x mod 64) \<longrightarrow> bm_test bits x"
        using wl by (metis bit_and_iff bm_test_def bm_word_def)
    next
      assume a: "\<forall>x. x div 64 = word \<and> bit msk (x mod 64) \<longrightarrow> bm_test bits x"
      show "bits ! word AND msk = msk"
      proof (rule bit_word_eqI)
        fix i :: nat
        assume "i < LENGTH(64)"
        then have i: "i < 64" by simp
        have "bit msk i \<Longrightarrow> bm_test bits (64 * word + i)" using a i by simp
        then show "bit (bits ! word AND msk) i = bit msk i"
          using bm_test_in_word [OF wl i] by (auto simp: bit_and_iff)
      qed
    qed
    show ?thesis
    proof (cases "bits ! word AND msk = msk")
      case same: True
      have "covers_words past_last bits granule = covers_words past_last bits (granule + step)"
        using True wl same by (simp add: covers_words.simps [of past_last bits granule] wm)
      then show ?thesis
        using "1.IH" [OF True wm [symmetric] refl wl] "1.prems" same all
          word_split [OF True wm] by auto
    next
      case False
      have "covers_words past_last bits granule = Some False"
        using True wl False by (simp add: covers_words.simps [of past_last bits granule] wm)
      then show ?thesis using False all word_split [OF True wm] by auto
    qed
  qed (auto simp: covers_words.simps [of past_last bits granule])
qed

lemma granule_touch_iff:
  "offset div GRANULE_BYTES \<le> g \<and> g < div_ceil e GRANULE_BYTES \<longleftrightarrow>
     g * 4096 < e \<and> offset < (g + 1) * 4096"
  by (auto simp: GRANULE_BYTES_def less_div_ceil_iff div_less_iff_less_mult less_Suc_eq_le [symmetric])

text \<open>The answer about one clone page: every granule the page touches is marked.\<close>

definition page_marked :: "hole_map \<Rightarrow> nat \<Rightarrow> nat \<Rightarrow> bool" where
  "page_marked m page_size page \<longleftrightarrow>
     (\<forall>g. g * 4096 < page + page_size \<and> page < (g + 1) * 4096 \<longrightarrow> g \<in> hm_set m)"

lemma page_marked_granule: "page_marked m 4096 (4096 * g) \<longleftrightarrow> g \<in> hm_set m"
proof -
  have "h * 4096 < 4096 * g + 4096 \<and> 4096 * g < (h + 1) * 4096 \<longleftrightarrow> h = g" for h by auto
  then show ?thesis unfolding page_marked_def by metis
qed

lemma hole_map_covers_spec:
  assumes "hm_inv m"
  shows "hole_map_covers m offset len =
    Some (0 < len \<and> offset + len \<le> u64_max \<and> page_marked m len offset)"
proof (cases "0 < len \<and> offset + len \<le> u64_max")
  case False
  then show ?thesis by (auto simp: hole_map_covers_def checked_add_def)
next
  case True
  let ?first = "offset div GRANULE_BYTES" and ?past = "div_ceil (offset + len) GRANULE_BYTES"
  have first: "?first < ?past"
    using True by (simp add: GRANULE_BYTES_def less_div_ceil_iff)
      (metis True div_times_less_eq_dividend le_add1 less_add_same_cancel1 less_le_trans not_le)
  have q: "page_marked m len offset \<longleftrightarrow>
      (\<forall>g. ?first \<le> g \<and> g < ?past \<longrightarrow> bm_test (hm_bits m) g)"
    by (simp only: page_marked_def granule_touch_iff hm_set_def bm_set_def mem_Collect_eq)
  have sub: "bm_test (hm_bits m) g \<Longrightarrow> g < hm_granules m" for g
    using assms by (auto simp: hm_inv_def hm_set_def bm_set_def)
  consider (none) "hm_marked m = 0" | (beyond) "hm_marked m \<noteq> 0" "hm_granules m < ?past"
    | (scan) "hm_marked m \<noteq> 0" "?past \<le> hm_granules m" by linarith
  then show ?thesis
  proof cases
    case none
    then have "hm_set m = {}" using assms by (simp add: hm_marked_0_iff)
    then have "\<not> bm_test (hm_bits m) ?first" by (auto simp: hm_set_def bm_set_def)
    then show ?thesis using none first q by (auto simp: hole_map_covers_def)
  next
    case beyond
    then have "\<not> bm_test (hm_bits m) (?past - 1)" using sub [of "?past - 1"] by linarith
    then have "\<not> (\<forall>g. ?first \<le> g \<and> g < ?past \<longrightarrow> bm_test (hm_bits m) g)"
      using first by (auto intro!: exI [of _ "?past - 1"])
    then show ?thesis using beyond True q by (auto simp: hole_map_covers_def checked_add_def Let_def)
  next
    case scan
    then have "hm_bits m \<noteq> []" using assms by (auto simp: hm_inv_def hm_set_def)
    then have "?past \<le> 64 * length (hm_bits m)"
      using scan assms le_mult_div_ceil [of 64 "hm_granules m"] by (auto simp: hm_inv_def)
    then show ?thesis
      using scan True q covers_words_spec [of ?past "hm_bits m" ?first]
      by (auto simp: hole_map_covers_def checked_add_def Let_def)
  qed
qed

text \<open>
  The bitmap answers for the ranges it was given: after marking any list of ranges in
  an empty map, with no word indexed out of range on the way, \<open>covers\<close> is true of a range
  precisely when the range is non-empty, does not overflow, and every granule it touches lies
  inside the image and wholly inside one of the marked ranges.
\<close>

theorem hole_map_covers_inserted:
  "\<exists>m. try_fold (\<lambda>m (offset, len). hole_map_insert m offset len) (hole_map_new mem_len) rs = Some m \<and>
    hole_map_bytes m = saturating_mul (card (hm_set m)) GRANULE_BYTES \<and>
    (\<forall>offset len. hole_map_covers m offset len =
      Some (0 < len \<and> offset + len \<le> u64_max \<and>
        (\<forall>g. g * 4096 < offset + len \<and> offset < (g + 1) * 4096 \<longrightarrow>
          g < div_ceil mem_len GRANULE_BYTES \<and>
          (\<exists>(s, l) \<in> set rs. s + l \<le> u64_max \<and> s \<le> g * 4096 \<and> (g + 1) * 4096 \<le> s + l))))"
proof -
  obtain m where m: "try_fold (\<lambda>m (offset, len). hole_map_insert m offset len) (hole_map_new mem_len) rs = Some m"
    "hm_inv m" "hm_set m = (\<Union>(s, l) \<in> set rs. granules_inside (div_ceil mem_len GRANULE_BYTES) s l)"
    using hm.mark_all [OF hm_inv_new, of mem_len rs] by (auto simp: hm_set_new hm_granules_new)
  have "g \<in> hm_set m \<longleftrightarrow> g < div_ceil mem_len GRANULE_BYTES \<and>
      (\<exists>(s, l) \<in> set rs. s + l \<le> u64_max \<and> s \<le> g * 4096 \<and> (g + 1) * 4096 \<le> s + l)" for g
    unfolding m(3) granules_inside_def by blast
  then show ?thesis
    using m(1,2) hole_map_covers_spec [OF m(2)]
    by (auto simp: page_marked_def hole_map_bytes_def hm_inv_def)
qed

section \<open>The runs\<close>

text \<open>The reference: how many of the first \<open>limit\<close> positions get the answer of position 0.\<close>

definition equal_run :: "(nat \<Rightarrow> bool) \<Rightarrow> nat \<Rightarrow> nat" where
  "equal_run P limit = length (takeWhile (\<lambda>k. P k = P 0) [0..<limit])"

lemma equal_run_le: "equal_run P limit \<le> limit"
  unfolding equal_run_def by (rule takeWhile_upt_le)

lemma equal_run_same: "k < equal_run P limit \<Longrightarrow> P k = P 0"
  unfolding equal_run_def by (rule takeWhile_upt_below)

lemma equal_run_stop: "equal_run P limit < limit \<Longrightarrow> P (equal_run P limit) \<noteq> P 0"
  unfolding equal_run_def using takeWhile_upt_at [of "\<lambda>k. P k = P 0" limit] by blast

lemma equal_runI:
  assumes "n \<le> limit" and "\<And>k. k < n \<Longrightarrow> P k = P 0" and "n = limit \<or> P n \<noteq> P 0"
  shows "equal_run P limit = n"
proof (rule linorder_cases [of "equal_run P limit" n])
  assume "equal_run P limit < n"
  then show ?thesis using assms(1) assms(2) [of "equal_run P limit"] equal_run_stop [of P limit] by linarith
next
  assume "n < equal_run P limit"
  then show ?thesis using assms(3) equal_run_le [of P limit] equal_run_same [of n P limit] by linarith
qed

lemma equal_run_pos: "0 < limit \<Longrightarrow> 0 < equal_run P limit"
  using equal_run_stop [of P limit] by (cases "equal_run P limit") auto

lemma equal_run_cong: "(\<And>k. k < limit \<Longrightarrow> P k = Q k) \<Longrightarrow> equal_run P limit = equal_run Q limit"
  by (cases "limit = 0")
    (auto simp: equal_run_def intro!: arg_cong [where f = length] takeWhile_cong)

text \<open>One word of \<open>granule_run\<close>: the trailing zeros of the shifted difference.\<close>

lemma same_in_word:
  fixes granule :: nat
  assumes "flip = (if inside then - 1 else 0)"
    and "same = min (trailing_zeros (drop_bit (granule mod 64) (bm_word bits (granule div 64) XOR flip)))
                    (64 - granule mod 64)"
  shows "\<And>k. k < same \<Longrightarrow> bm_test bits (granule + k) = inside"
    and "same < 64 - granule mod 64 \<Longrightarrow> bm_test bits (granule + same) \<noteq> inside"
    and "same \<le> 64 - granule mod 64"
proof -
  let ?r = "granule mod 64" and ?w = "bm_word bits (granule div 64)"
  let ?d = "drop_bit ?r (?w XOR flip)"
  have test: "bm_test bits (granule + k) = (bit ?d k = (\<not> inside))" if "k < 64 - ?r" for k
  proof -
    have "?r + k < 64" using that by simp
    then show ?thesis
      by (simp add: bm_test_def within_word bit_drop_bit_eq bit_xor_iff assms(1))
  qed
  show "bm_test bits (granule + k) = inside" if "k < same" for k
    using test [of k] trailing_zeros_below [of k ?d] that assms(2) by auto
  show "bm_test bits (granule + same) \<noteq> inside" if "same < 64 - ?r"
  proof -
    have tz: "trailing_zeros ?d = same" "same < 64" using that assms(2) by linarith+
    then have "bit ?d same" using trailing_zeros_bit [of ?d] by simp
    with test [OF that] show ?thesis by blast
  qed
  show "same \<le> 64 - ?r" using assms(2) by simp
qed

lemma granule_run_loop_done: "limit \<le> run \<Longrightarrow> granule_run_loop bits flip limit run granule = run"
  by (subst granule_run_loop.simps) simp

lemma granule_run_loop_step:
  assumes "run < limit" and "limit + 128 \<le> u64_max" and "granule + 64 \<le> u64_max"
    and same: "same = min (trailing_zeros (drop_bit (granule mod 64) (bm_word bits (granule div 64) XOR flip)))
                    (64 - granule mod 64)"
  shows "granule_run_loop bits flip limit run granule =
    (if same < 64 - granule mod 64 then run + same
     else granule_run_loop bits flip limit (run + same) (granule + (64 - granule mod 64)))"
proof -
  have "same \<le> 64" using same by linarith
  then have "run + same \<le> u64_max" "granule + (64 - granule mod 64) \<le> u64_max"
    using assms(1-3) by linarith+
  then have "saturating_add run same = run + same"
    "saturating_add granule (64 - granule mod 64) = granule + (64 - granule mod 64)"
    unfolding saturating_add_def by simp_all
  moreover have "run < u64_max" using assms(1,2) by simp
  ultimately show ?thesis
    using assms(1) by (subst granule_run_loop.simps) (simp only: Let_def same [symmetric] if_True simp_thms)
qed

lemma granule_run_loop_spec:
  assumes "flip = (if inside then - 1 else 0)"
    and "limit + 128 \<le> u64_max" and "granule + (limit - run) + 64 \<le> u64_max"
    and "r = granule_run_loop bits flip limit run granule"
  shows "run \<le> r \<and> (\<forall>k < r - run. bm_test bits (granule + k) = inside) \<and>
    (r < limit \<longrightarrow> bm_test bits (granule + (r - run)) \<noteq> inside)"
  using assms(3,4)
proof (induction "limit - run" arbitrary: run granule rule: less_induct)
  case less
  let ?span = "64 - granule mod 64"
  define same where
    "same = min (trailing_zeros (drop_bit (granule mod 64) (bm_word bits (granule div 64) XOR flip))) ?span"
  note word = same_in_word [OF assms(1) same_def]
  show ?case
  proof (cases "run < limit")
    case False
    then show ?thesis using less.prems by (simp add: granule_run_loop_done)
  next
    case True
    have eq: "r = (if same < ?span then run + same
        else granule_run_loop bits flip limit (run + same) (granule + ?span))"
      using granule_run_loop_step [OF True assms(2) _ same_def] less.prems by simp
    show ?thesis
    proof (cases "same < ?span")
      case hit: True
      then show ?thesis using word eq by simp
    next
      case False
      then have sp: "same = ?span" "0 < same" using word(3) by auto
      have r: "r = granule_run_loop bits flip limit (run + same) (granule + same)"
        using eq False sp by simp
      show ?thesis
      proof (cases "run + same < limit")
        case more: True
        then have ih: "run + same \<le> r \<and>
            (\<forall>k < r - (run + same). bm_test bits (granule + same + k) = inside) \<and>
            (r < limit \<longrightarrow> bm_test bits (granule + same + (r - (run + same))) \<noteq> inside)"
          using less.prems(1) sp(2) by (intro less.hyps [OF _ _ r]) linarith+
        have "bm_test bits (granule + k) = inside" if "k < r - run" for k
        proof (cases "k < same")
          case False
          then have "k - same < r - (run + same)" using that by linarith
          then have "bm_test bits (granule + same + (k - same)) = inside" using ih by blast
          then show ?thesis using False by simp
        qed (rule word(1))
        moreover have "granule + same + (r - (run + same)) = granule + (r - run)"
          using ih by linarith
        ultimately show ?thesis using ih by (metis add_leD1)
      next
        case False
        then show ?thesis using r word(1) by (simp add: granule_run_loop_done)
      qed
    qed
  qed
qed

lemma granule_run_exact:
  assumes "limit + 128 \<le> u64_max" and "first + limit + 64 \<le> u64_max"
  shows "hole_map_granule_run m first limit =
    (first \<in> hm_set m, equal_run (\<lambda>k. first + k \<in> hm_set m) limit)"
proof -
  define inside where "inside = bm_test (hm_bits m) first"
  define r where "r = granule_run_loop (hm_bits m) (if inside then - 1 else 0) limit 0 first"
  have one: "w AND 1 \<noteq> 0 \<longleftrightarrow> bit w 0" for w :: u64
    by (simp add: and_one_eq bit_0 odd_iff_mod_2_eq_one)
  have in_eq: "(drop_bit (first mod 64) (bm_word (hm_bits m) (first div 64)) AND 1 \<noteq> 0) = inside"
    unfolding one inside_def bm_test_def by (simp add: bit_drop_bit_eq)
  have spec: "(\<forall>k < r. bm_test (hm_bits m) (first + k) = inside) \<and>
      (r < limit \<longrightarrow> bm_test (hm_bits m) (first + r) \<noteq> inside)"
    using granule_run_loop_spec [OF refl assms(1) _ r_def] assms(2) by simp
  have "equal_run (\<lambda>k. first + k \<in> hm_set m) limit = min r limit"
    unfolding hm_set_def bm_set_def mem_Collect_eq
    by (rule equal_runI) (use spec inside_def in \<open>auto simp: min_def split: if_splits\<close>)
  then show ?thesis
    unfolding hole_map_granule_run_def in_eq Let_def r_def
    by (simp add: inside_def hm_set_def bm_set_def)
qed

lemma covers_page:
  "hm_inv m \<Longrightarrow> 0 < page_size \<Longrightarrow> page + page_size \<le> u64_max \<Longrightarrow>
     hole_map_covers m page page_size = Some (page_marked m page_size page)"
  by (simp add: hole_map_covers_spec)

lemma run_pages_spec:
  assumes inv: "hm_inv m" and "0 < page_size" and bound: "offset + pages * page_size \<le> u64_max"
    and inside: "inside = page_marked m page_size offset" and "run \<le> pages"
    and "\<forall>k < run. page_marked m page_size (offset + k * page_size) = inside"
  shows "run_pages m offset page_size pages inside run =
    Some (equal_run (\<lambda>k. page_marked m page_size (offset + k * page_size)) pages)"
  using assms(5,6)
proof (induction "pages - run" arbitrary: run rule: less_induct)
  case less
  let ?P = "\<lambda>k. page_marked m page_size (offset + k * page_size)"
  show ?case
  proof (cases "run < pages")
    case True
    then have "(run + 1) * page_size \<le> pages * page_size" by (intro mult_le_mono1) simp
    then have b: "offset + run * page_size + page_size \<le> u64_max" using bound by simp
    then have rec: "run_pages m offset page_size pages inside run =
        (if ?P run = inside then run_pages m offset page_size pages inside (run + 1) else Some run)"
      using True covers_page [OF inv assms(2) b] by (simp add: run_pages.simps [of m] checked_mul_def checked_add_def)
    show ?thesis
    proof (cases "?P run = inside")
      case same: True
      have "run_pages m offset page_size pages inside (run + 1) = Some (equal_run ?P pages)"
        using less True same by (intro less.hyps) (auto simp: less_Suc_eq)
      then show ?thesis using rec same by simp
    next
      case False
      then have "equal_run ?P pages = run"
        using less.prems True inside by (intro equal_runI) auto
      then show ?thesis using rec False by simp
    qed
  next
    case False
    then have "equal_run ?P pages = run" using less.prems inside by (intro equal_runI) auto
    then show ?thesis using False by (simp add: run_pages.simps [of m])
  qed
qed

text \<open>Both paths of \<open>run_at\<close> compute the reference.\<close>

lemma hole_map_run_at_spec:
  assumes inv: "hm_inv m" and "hm_marked m \<noteq> 0" and ps: "0 < page_size" "page_size dvd offset"
    and "0 < max_len" and "offset + CHUNK_BYTES + page_size \<le> u64_max" and "page_size + 1024 \<le> u64_max"
  defines "limit \<equiv> min max_len CHUNK_BYTES"
  shows "hole_map_run_at m offset max_len page_size =
    Some (page_marked m page_size offset,
      min (equal_run (\<lambda>k. page_marked m page_size (offset + k * page_size)) (div_ceil limit page_size)
             * page_size) limit)"
proof -
  let ?P = "\<lambda>k. page_marked m page_size (offset + k * page_size)"
  let ?pages = "div_ceil limit page_size"
  have limit: "0 < limit" "limit \<le> CHUNK_BYTES" using assms(5) by (auto simp: limit_def CHUNK_BYTES_def)
  then have pages: "0 < ?pages" using less_div_ceil_iff [OF ps(1), of 0 limit] by simp
  have "?pages * page_size < limit + page_size"
    using next_multiple_of_less [OF ps(1), of limit] by (simp add: next_multiple_of_def)
  then have bound: "offset + ?pages * page_size \<le> u64_max" and small: "?pages * page_size \<le> u64_max"
    using assms(6) limit by linarith+
  have step: "(if page_size = GRANULE_BYTES
      then Some (hole_map_granule_run m (offset div GRANULE_BYTES) ?pages)
      else do { inside \<leftarrow> hole_map_covers m offset page_size;
                run \<leftarrow> run_pages m offset page_size ?pages inside 1; Some (inside, run) }) =
      Some (?P 0, equal_run ?P ?pages)"
  proof (cases "page_size = GRANULE_BYTES")
    case True
    obtain g where g: "offset = 4096 * g" using True ps(2) by (auto simp: GRANULE_BYTES_def)
    have off: "offset + k * page_size = 4096 * (g + k)" for k by (simp add: g True GRANULE_BYTES_def)
    have eq: "?P k \<longleftrightarrow> g + k \<in> hm_set m" for k
      unfolding off unfolding True GRANULE_BYTES_def by (rule page_marked_granule)
    have "?pages + 128 \<le> u64_max" "g + ?pages + 64 \<le> u64_max"
      using bound small True assms(6) g by (auto simp: GRANULE_BYTES_def u64_max_def CHUNK_BYTES_def)
    then show ?thesis
      using True granule_run_exact [of ?pages g m] unfolding eq by (simp add: g GRANULE_BYTES_def)
  next
    case False
    have "offset + page_size \<le> u64_max" using assms(6) by simp
    then show ?thesis
      using False covers_page [OF inv ps(1), of offset]
        run_pages_spec [OF inv ps(1) bound refl, of 1] pages by simp
  qed
  have "equal_run ?P ?pages * page_size \<le> u64_max"
    using small equal_run_le [of ?P ?pages] by (meson le_trans mult_le_mono1)
  then show ?thesis
    using assms(2) ps(1) step unfolding hole_map_run_at_def Let_def limit_def [symmetric]
    by (simp add: saturating_mul_def)
qed

text \<open>
  Claim C7.  On an image with marks, \<open>run_at\<close> answers for a page-aligned offset with the longest
  run inside the chunk: the answer is the one \<open>covers\<close> gives for the page, the length is positive,
  at most \<open>max_len\<close> and one chunk, and in whole pages unless it is cut by that bound; every page of
  the run gets the same answer, and the page after an uncut run gets the other one.  The word scan
  used for 4 KiB pages and the page loop used for larger ones both satisfy this.
\<close>

theorem hole_map_run_at_maximal:
  assumes "hm_inv m" and "hm_marked m \<noteq> 0" and "0 < page_size" and "page_size dvd offset"
    and "0 < max_len" and "offset + CHUNK_BYTES + page_size \<le> u64_max"
  shows "\<exists>inside n. hole_map_run_at m offset max_len page_size = Some (inside, n) \<and>
    0 < n \<and> n \<le> min max_len CHUNK_BYTES \<and>
    (n < min max_len CHUNK_BYTES \<longrightarrow> page_size dvd n \<and>
       hole_map_covers m (offset + n) page_size = Some (\<not> inside)) \<and>
    (\<forall>k. k * page_size < n \<longrightarrow> hole_map_covers m (offset + k * page_size) page_size = Some inside)"
proof -
  define limit where "limit = min max_len CHUNK_BYTES"
  let ?P = "\<lambda>k. page_marked m page_size (offset + k * page_size)"
  let ?r = "equal_run ?P (div_ceil limit page_size)"
  let ?n = "min (?r * page_size) limit"
  have limit: "0 < limit" "limit \<le> CHUNK_BYTES" using assms(5) by (auto simp: limit_def CHUNK_BYTES_def)
  have room: "page_size + 1024 \<le> u64_max" using assms(6) by (simp add: CHUNK_BYTES_def)
  have run: "hole_map_run_at m offset max_len page_size = Some (?P 0, ?n)"
    using hole_map_run_at_spec [OF assms room] by (simp add: limit_def)
  have pages: "0 < div_ceil limit page_size"
    using limit less_div_ceil_iff [OF assms(3), of 0 limit] by simp
  have covers: "hole_map_covers m (offset + x) page_size = Some (page_marked m page_size (offset + x))"
    if "x < limit" for x
    using covers_page [OF assms(1,3), of "offset + x"] assms(6) limit that by simp
  have same: "hole_map_covers m (offset + k * page_size) page_size = Some (?P 0)" if "k * page_size < ?n" for k
  proof -
    have "k < ?r" using that assms(3) by simp
    then show ?thesis using covers [of "k * page_size"] that equal_run_same [of k ?P] by simp
  qed
  have stop: "page_size dvd ?n \<and> hole_map_covers m (offset + ?n) page_size = Some (\<not> ?P 0)" if "?n < limit"
  proof -
    have n: "?n = ?r * page_size" "?r * page_size < limit" using that by linarith+
    then have "?r < div_ceil limit page_size" using less_div_ceil_iff [OF assms(3)] by blast
    then have "?P ?r \<noteq> ?P 0" by (rule equal_run_stop)
    then show ?thesis using covers [OF n(2)] n(1) by simp
  qed
  have "0 < ?n" using equal_run_pos [OF pages, of ?P] assms(3) limit by simp
  then show ?thesis using run same stop by (auto simp: limit_def [symmetric])
qed

theorem hole_map_run_at_maximal_witness:
  "\<exists>m inside n. hole_map_insert (hole_map_new 20000) 4096 9000 = Some m \<and>
     hole_map_run_at m 0 65536 4096 = Some (inside, n) \<and> 0 < n \<and> n \<le> 65536"
proof -
  obtain m where m: "hole_map_insert (hole_map_new 20000) 4096 9000 = Some m" "hm_inv m"
    "hm_set m = granules_inside 5 4096 9000"
    using hole_map_insert_spec [OF hm_inv_new, of 20000 4096 9000]
    by (auto simp: hm_set_new hm_granules_new div_ceil_def GRANULE_BYTES_def)
  then have "1 \<in> hm_set m" by (simp add: granules_inside_def u64_max_def)
  then have marked: "hm_marked m \<noteq> 0" using hm_marked_0_iff [OF m(2)] by blast
  have "\<exists>inside n. hole_map_run_at m 0 65536 4096 = Some (inside, n) \<and>
      0 < n \<and> n \<le> min 65536 CHUNK_BYTES"
    using hole_map_run_at_maximal [OF m(2) marked, of 4096 0 65536]
    by (fastforce simp: CHUNK_BYTES_def u64_max_def)
  with m(1) show ?thesis by (auto simp: CHUNK_BYTES_def)
qed

section \<open>The holes of a file\<close>

text \<open>The runs the walk accepts are in order, non-empty and inside the file.\<close>

fun runs_in_order :: "nat \<Rightarrow> nat \<Rightarrow> (nat \<times> nat) list \<Rightarrow> bool" where
  "runs_in_order len offset [] = True"
| "runs_in_order len offset ((s, e) # rest) \<longleftrightarrow>
     offset \<le> s \<and> s < e \<and> e \<le> len \<and> runs_in_order len e rest"

lemma data_runs_cases [consumes 1, case_names stop none run]:
  assumes "data_runs seek_data seek_hole len offset = Inr runs"
  obtains "len \<le> offset" "runs = []"
  | "offset < len" "seek_data offset = Inl ENXIO" "runs = []"
  | s e rest where "offset < len" "seek_data offset = Inr s" "seek_hole s = Inr e" "offset \<le> s" "s < e" "e \<le> len"
      "data_runs seek_data seek_hole len e = Inr rest" "runs = (s, e) # rest"
  using assms
  by (subst (asm) data_runs.simps) (auto split: if_splits sum.splits errno.splits)

lemma data_runs_in_order:
  "data_runs seek_data seek_hole len offset = Inr runs \<Longrightarrow> runs_in_order len offset runs"
proof (induction "len - offset" arbitrary: offset runs rule: less_induct)
  case less
  from less.prems show ?case by (cases rule: data_runs_cases) (auto intro: less.hyps)
qed

lemma granules_inside_gap:
  assumes "s \<le> len" and "len \<le> u64_max" and "hole_start \<le> s"
  shows "granules_inside (div_ceil len GRANULE_BYTES) hole_start (s - hole_start) =
    {g. hole_start \<le> g * 4096 \<and> (g + 1) * 4096 \<le> s}"
proof -
  have "g < div_ceil len GRANULE_BYTES" if "(g + 1) * 4096 \<le> s" for g
    using that assms less_div_ceil_iff [of GRANULE_BYTES g len] by (simp add: GRANULE_BYTES_def)
  then show ?thesis using assms unfolding granules_inside_def by auto
qed

lemma runs_in_order_above: "runs_in_order len offset runs \<Longrightarrow> (s, e) \<in> set runs \<Longrightarrow> offset \<le> s \<and> s < e"
  by (induction len offset runs rule: runs_in_order.induct) auto

lemma mark_holes_spec:
  assumes "hm_inv m" and "runs_in_order len hole_start runs" and "len \<le> u64_max"
    and "hole_start \<le> len" and "hm_granules m = div_ceil len GRANULE_BYTES"
  shows "\<exists>m'. (do { (m', h) \<leftarrow> mark_holes m hole_start runs; hole \<leftarrow> checked_sub len h;
                    hole_map_insert m' h hole }) = Some m' \<and>
    hm_inv m' \<and> hm_set m' = hm_set m \<union> {g. hole_start \<le> g * 4096 \<and> (g + 1) * 4096 \<le> len \<and>
      (\<forall>(s, e) \<in> set runs. e \<le> g * 4096 \<or> (g + 1) * 4096 \<le> s)}"
  using assms
proof (induction runs arbitrary: m hole_start)
  case Nil
  then show ?case
    using hole_map_insert_spec [of m hole_start "len - hole_start"]
    by (auto simp: checked_sub_def granules_inside_gap)
next
  case (Cons r runs)
  obtain s e where r: "r = (s, e)" by fastforce
  have o: "hole_start \<le> s" "s < e" "e \<le> len" "runs_in_order len e runs"
    using Cons.prems(2) by (auto simp: r)
  obtain m1 where m1: "hole_map_insert m hole_start (s - hole_start) = Some m1" "hm_inv m1"
    "hm_granules m1 = div_ceil len GRANULE_BYTES"
    "hm_set m1 = hm_set m \<union> {g. hole_start \<le> g * 4096 \<and> (g + 1) * 4096 \<le> s}"
    using hole_map_insert_spec [OF Cons.prems(1), of hole_start "s - hole_start"] Cons.prems o
    by (auto simp: granules_inside_gap)
  have split: "(hole_start \<le> g * 4096 \<and> (g + 1) * 4096 \<le> len \<and>
        (\<forall>(s, e) \<in> set (r # runs). e \<le> g * 4096 \<or> (g + 1) * 4096 \<le> s)) \<longleftrightarrow>
      (hole_start \<le> g * 4096 \<and> (g + 1) * 4096 \<le> s) \<or>
      (e \<le> g * 4096 \<and> (g + 1) * 4096 \<le> len \<and>
        (\<forall>(s, e) \<in> set runs. e \<le> g * 4096 \<or> (g + 1) * 4096 \<le> s))" for g
    using o runs_in_order_above [OF o(4)] by (fastforce simp: r)
  show ?case
    unfolding Collect_cong [OF split]
    using Cons.IH [OF m1(2) o(4) Cons.prems(3) o(3) m1(3)] m1 o by (simp add: r checked_sub_def Un_assoc Collect_disj_eq)
qed

lemma hole_map_from_file_spec:
  assumes "data_runs seek_data seek_hole len 0 = Inr runs" and "len \<le> u64_max"
  shows "\<exists>m. hole_map_from_file seek_data seek_hole len = Inr (Some m) \<and> hm_inv m \<and>
    hm_set m = {g. (g + 1) * 4096 \<le> len \<and> (\<forall>(s, e) \<in> set runs. e \<le> g * 4096 \<or> (g + 1) * 4096 \<le> s)}"
  using mark_holes_spec [OF hm_inv_new data_runs_in_order [OF assms(1)] assms(2) _ hm_granules_new] assms(1)
  by (simp add: hole_map_from_file_def hm_set_new)

text \<open>
  What \<open>lseek\<close> documents about a file whose data bytes are given by a predicate: \<open>SEEK_DATA\<close> steps
  over no data, and \<open>ENXIO\<close> says that none is left.  A file system may report a hole as data; one
  that does not is exact.
\<close>

definition seek_data_ok :: "(nat \<Rightarrow> bool) \<Rightarrow> nat \<Rightarrow> (nat \<Rightarrow> errno + nat) \<Rightarrow> bool" where
  "seek_data_ok is_data len seek_data \<longleftrightarrow>
     (\<forall>offset p x. seek_data offset = Inr p \<longrightarrow> offset \<le> x \<longrightarrow> x < p \<longrightarrow> \<not> is_data x) \<and>
     (\<forall>offset x. seek_data offset = Inl ENXIO \<longrightarrow> offset \<le> x \<longrightarrow> x < len \<longrightarrow> \<not> is_data x)"

definition seek_hole_exact :: "(nat \<Rightarrow> bool) \<Rightarrow> (nat \<Rightarrow> errno + nat) \<Rightarrow> bool" where
  "seek_hole_exact is_data seek_hole \<longleftrightarrow>
     (\<forall>p e x. seek_hole p = Inr e \<longrightarrow> p \<le> x \<longrightarrow> x < e \<longrightarrow> is_data x)"

lemma data_runs_sound:
  assumes "seek_data_ok is_data len seek_data"
  shows "data_runs seek_data seek_hole len offset = Inr runs \<Longrightarrow> is_data x \<Longrightarrow> offset \<le> x \<Longrightarrow> x < len \<Longrightarrow>
    \<exists>(s, e) \<in> set runs. s \<le> x \<and> x < e"
proof (induction "len - offset" arbitrary: offset runs rule: less_induct)
  case less
  from less.prems(1) show ?case
  proof (cases rule: data_runs_cases)
    case stop
    then show ?thesis using less.prems by simp
  next
    case none
    then show ?thesis using less.prems assms by (auto simp: seek_data_ok_def)
  next
    case (run s e rest)
    have "s \<le> x" using run(2) less.prems assms by (force simp: seek_data_ok_def not_le)
    then show ?thesis using run less.hyps [of e rest] less.prems by (cases "x < e") auto
  qed
qed

lemma data_runs_exact:
  assumes "seek_hole_exact is_data seek_hole"
  shows "data_runs seek_data seek_hole len offset = Inr runs \<Longrightarrow> (s, e) \<in> set runs \<Longrightarrow> s \<le> x \<Longrightarrow> x < e \<Longrightarrow>
    is_data x"
proof (induction "len - offset" arbitrary: offset runs rule: less_induct)
  case less
  from less.prems(1) show ?case
  proof (cases rule: data_runs_cases)
    case (run s' e' rest)
    then consider "s = s'" "e = e'" | "(s, e) \<in> set rest" using less.prems(2) by auto
    then show ?thesis
    proof cases
      case 1
      then show ?thesis using run(3) assms less.prems unfolding seek_hole_exact_def by blast
    next
      case 2
      then show ?thesis using run less.prems by (intro less.hyps [of e' rest]) auto
    qed
  qed (use less.prems in simp_all)
qed

text \<open>
  Claim C6.  A hole map built from a file is sound, and complete as far as the file system lets it:
  when the walk over the file's data runs succeeds, building never indexes or subtracts out of
  range; every granule of the map lies inside the file and holds no data byte; and if the file
  system reports data runs exactly, every whole granule of the file without data is in the map.
\<close>

theorem hole_map_from_file_sound:
  assumes lseek: "seek_data_ok is_data len seek_data"
    and ok: "hole_map_from_file seek_data seek_hole len = Inr r" and len: "len \<le> u64_max"
  shows "\<exists>m. r = Some m \<and> hm_inv m \<and>
    (\<forall>g \<in> hm_set m. (g + 1) * 4096 \<le> len \<and> (\<forall>x. g * 4096 \<le> x \<and> x < (g + 1) * 4096 \<longrightarrow> \<not> is_data x)) \<and>
    (seek_hole_exact is_data seek_hole \<longrightarrow>
       (\<forall>g. (g + 1) * 4096 \<le> len \<and> (\<forall>x. g * 4096 \<le> x \<and> x < (g + 1) * 4096 \<longrightarrow> \<not> is_data x) \<longrightarrow> g \<in> hm_set m))"
proof -
  obtain runs where runs: "data_runs seek_data seek_hole len 0 = Inr runs"
    using ok by (auto simp: hole_map_from_file_def split: sum.splits)
  obtain m where m: "r = Some m" "hm_inv m" "hm_set m =
      {g. (g + 1) * 4096 \<le> len \<and> (\<forall>(s, e) \<in> set runs. e \<le> g * 4096 \<or> (g + 1) * 4096 \<le> s)}"
    using hole_map_from_file_spec [OF runs len] ok by auto
  have mem: "g \<in> hm_set m \<longleftrightarrow> (g + 1) * 4096 \<le> len \<and>
      (\<forall>s e. (s, e) \<in> set runs \<longrightarrow> e \<le> g * 4096 \<or> (g + 1) * 4096 \<le> s)" for g
    unfolding m(3) by blast
  have sound: "\<not> is_data x" if "g \<in> hm_set m" and x: "g * 4096 \<le> x" "x < (g + 1) * 4096" for g x
  proof
    have g: "(g + 1) * 4096 \<le> len" "\<And>s e. (s, e) \<in> set runs \<Longrightarrow> e \<le> g * 4096 \<or> (g + 1) * 4096 \<le> s"
      using that(1) unfolding mem by blast+
    assume "is_data x"
    then obtain s e where "(s, e) \<in> set runs" "s \<le> x" "x < e"
      using data_runs_sound [OF lseek runs, of x] x g(1) by auto
    then show False using g(2) [of s e] x by linarith
  qed
  have complete: "g \<in> hm_set m"
    if exact: "seek_hole_exact is_data seek_hole" and inside: "(g + 1) * 4096 \<le> len"
      and hole: "\<forall>x. g * 4096 \<le> x \<and> x < (g + 1) * 4096 \<longrightarrow> \<not> is_data x" for g
  proof -
    have "e \<le> g * 4096 \<or> (g + 1) * 4096 \<le> s" if se: "(s, e) \<in> set runs" for s e
    proof (rule ccontr)
      assume "\<not> ?thesis"
      then have x: "max s (g * 4096) < e" "max s (g * 4096) < (g + 1) * 4096"
        using runs_in_order_above [OF data_runs_in_order [OF runs] se] by auto
      then have "is_data (max s (g * 4096))"
        by (intro data_runs_exact [OF exact runs se]) simp_all
      then show False using hole x(2) by (meson max.cobounded2)
    qed
    then show ?thesis using inside unfolding mem by blast
  qed
  have "(g + 1) * 4096 \<le> len" if "g \<in> hm_set m" for g using that mem by blast
  show ?thesis using m sound complete by blast
qed

theorem hole_map_from_file_sound_witness:
  "\<exists>m. hole_map_from_file (\<lambda>x. if x < 8192 then Inr (max x 4096) else Inl ENXIO) (\<lambda>_. Inr 8192) 16384
       = Inr (Some m) \<and> 1 \<notin> hm_set m \<and> hm_inv m"
proof -
  let ?sd = "\<lambda>x. if x < 8192 then Inr (max x 4096) else Inl ENXIO :: errno + nat"
  let ?sh = "\<lambda>_. Inr 8192 :: errno + nat"
  let ?data = "\<lambda>x. 4096 \<le> x \<and> x < (8192 :: nat)"
  have seek: "seek_data_ok ?data 16384 ?sd" by (auto simp: seek_data_ok_def)
  obtain r where r: "hole_map_from_file ?sd ?sh 16384 = Inr r"
    by (simp add: hole_map_from_file_def data_runs.simps [of _ _ _ 0]
        data_runs.simps [of _ _ _ 8192] i64_max_def)
  have "16384 \<le> u64_max" by (simp add: u64_max_def)
  from hole_map_from_file_sound [OF seek r this] obtain m where m: "r = Some m" "hm_inv m"
    "\<forall>g \<in> hm_set m. \<forall>x. g * 4096 \<le> x \<and> x < (g + 1) * 4096 \<longrightarrow> \<not> ?data x" by blast
  have "1 \<notin> hm_set m"
  proof
    assume "1 \<in> hm_set m"
    from m(3) [rule_format, OF this, of 4096] show False by simp
  qed
  with r m show ?thesis by blast
qed

section \<open>The holes of a backing memfd\<close>

text \<open>
  \<open>mincore\<close> is a parameter: for a start and a length it gives the entries it writes and whether it
  succeeded.  A view is known by its length.  The window keeps the entries past the ones a call
  writes, as the array of the source does.
\<close>

record resident_window =
  rw_start :: nat
  rw_len :: nat
  rw_entries :: "u8 list"

definition resident_window_default :: resident_window where
  "resident_window_default = \<lparr>rw_start = 0, rw_len = 0, rw_entries = replicate (CHUNK_BYTES div 4096) 0\<rparr>"

record memfd_holes =
  mh_candidates :: hole_map
  mh_view :: "nat option"

definition memfd_holes_new :: "hole_map \<Rightarrow> nat option \<Rightarrow> memfd_holes" where
  "memfd_holes_new candidates mapped =
     \<lparr>mh_candidates = candidates, mh_view = (if hm_marked candidates = 0 then None else mapped)\<rparr>"

datatype memfd_run = Pages nat | Filled nat | Holes nat | Unknown nat

definition page_resident :: "u8 list \<Rightarrow> nat \<Rightarrow> nat \<Rightarrow> nat \<Rightarrow> bool option" where
  "page_resident entries per_page count page =
     map_option (list_all (\<lambda>entry. entry AND 1 \<noteq> 0))
       (slice entries (page * per_page) (min ((page + 1) * per_page) count))"

function resident_count :: "(nat \<Rightarrow> bool option) \<Rightarrow> nat \<Rightarrow> bool \<Rightarrow> nat \<Rightarrow> nat option" where
  "resident_count resident pages first run =
     (if run < pages then do {
        r \<leftarrow> resident run;
        if r = first then resident_count resident pages first (run + 1) else Some run
      } else Some run)"
  by pat_completeness auto
termination
  by (relation "measure (\<lambda>(resident, pages, first, run). pages - run)") auto

declare resident_count.simps [simp del]

text \<open>One query, or the answer the window already holds: the window the call leaves, and whether
  it holds an answer about the offset.\<close>

definition refresh_window ::
  "(nat \<Rightarrow> nat \<Rightarrow> bool \<times> u8 list) \<Rightarrow> nat \<Rightarrow> resident_window \<Rightarrow> nat \<Rightarrow> nat \<Rightarrow> bool \<times> resident_window" where
  "refresh_window mincore host_page window offset len =
     (if offset < rw_start window \<or> offset - rw_start window \<ge> rw_len window then
        let window = window\<lparr>rw_len := 0\<rparr>
        in if div_ceil len host_page > length (rw_entries window) then (False, window)
           else (case mincore offset len of (ok, written) \<Rightarrow>
             let window = window\<lparr>rw_entries := written @ drop (length written) (rw_entries window)\<rparr>
             in if ok then (True, window\<lparr>rw_start := offset, rw_len := len\<rparr>) else (False, window))
      else (True, window))"

definition resident_run ::
  "(nat \<Rightarrow> nat \<Rightarrow> bool \<times> u8 list) \<Rightarrow> nat \<Rightarrow> nat \<Rightarrow> resident_window \<Rightarrow> nat \<Rightarrow> nat \<Rightarrow> nat \<Rightarrow>
     ((bool \<times> nat) option \<times> resident_window) option" where
  "resident_run mincore host_page view_len window offset len page_size =
     (let len = min len CHUNK_BYTES
      in if len = 0 \<or> page_size < host_page \<or> \<not> host_page dvd page_size \<or> \<not> page_size dvd offset
            \<or> offset + len > u64_max \<or> offset + len > view_len
         then Some (None, window)
         else (case refresh_window mincore host_page window offset len of
             (False, window) \<Rightarrow> Some (None, window)
           | (True, window) \<Rightarrow>
               (let len = min len (rw_start window + rw_len window - offset);
                    skip = (offset - rw_start window) div host_page;
                    count = div_ceil len host_page
                in do {
                  entries \<leftarrow> slice (rw_entries window) skip (skip + count);
                  let resident = page_resident entries (page_size div host_page) count;
                  first \<leftarrow> resident 0;
                  run \<leftarrow> resident_count resident (div_ceil len page_size) first 1;
                  Some (Some (first, min (run * page_size) len), window)
                })))"

definition memfd_run_at ::
  "(nat \<Rightarrow> nat \<Rightarrow> bool \<times> u8 list) \<Rightarrow> nat \<Rightarrow> memfd_holes \<Rightarrow> resident_window \<Rightarrow> nat \<Rightarrow> nat \<Rightarrow> nat \<Rightarrow>
     (memfd_run \<times> resident_window) option" where
  "memfd_run_at mincore host_page h window offset max_len page_size = do {
     (candidate, len) \<leftarrow> hole_map_run_at (mh_candidates h) offset max_len page_size;
     if \<not> candidate then Some (Pages len, window)
     else (case mh_view h of
         None \<Rightarrow> Some (Unknown len, window)
       | Some view \<Rightarrow> do {
           (resident, window) \<leftarrow> resident_run mincore host_page view window offset len page_size;
           Some (case resident of
               Some (True, run) \<Rightarrow> (Filled run, window)
             | Some (False, run) \<Rightarrow> (Holes run, window)
             | None \<Rightarrow> (Unknown len, window))
         })
   }"

text \<open>
  What \<open>mincore\<close> documents: it writes one entry per host page of the range, whose low bit is the
  page's residency.  A window is in step with a page cache when every entry it answers from is.
\<close>

definition mincore_ok :: "(nat \<Rightarrow> bool) \<Rightarrow> nat \<Rightarrow> (nat \<Rightarrow> nat \<Rightarrow> bool \<times> u8 list) \<Rightarrow> bool" where
  "mincore_ok cached host_page mincore \<longleftrightarrow>
     (\<forall>offset len. length (snd (mincore offset len)) \<le> div_ceil len host_page \<and>
        (fst (mincore offset len) \<longrightarrow> length (snd (mincore offset len)) = div_ceil len host_page \<and>
          (\<forall>i < div_ceil len host_page.
             (snd (mincore offset len) ! i AND 1 \<noteq> 0) = cached (offset div host_page + i))))"

definition window_ok :: "(nat \<Rightarrow> bool) \<Rightarrow> nat \<Rightarrow> resident_window \<Rightarrow> bool" where
  "window_ok cached host_page w \<longleftrightarrow>
     length (rw_entries w) = CHUNK_BYTES div 4096 \<and> host_page dvd rw_start w \<and>
     rw_len w \<le> CHUNK_BYTES \<and>
     (\<forall>i < div_ceil (rw_len w) host_page.
        i < length (rw_entries w) \<and> (rw_entries w ! i AND 1 \<noteq> 0) = cached (rw_start w div host_page + i))"

lemma refresh_window_spec:
  assumes "window_ok cached host_page w" and "mincore_ok cached host_page mincore"
    and "host_page dvd offset" and "0 < len" and "len \<le> CHUNK_BYTES"
    and "refresh_window mincore host_page w offset len = (ok, w')"
  shows "window_ok cached host_page w' \<and>
    (ok \<longrightarrow> rw_start w' \<le> offset \<and> offset - rw_start w' < rw_len w')"
proof (cases "offset < rw_start w \<or> offset - rw_start w \<ge> rw_len w")
  case False
  then show ?thesis using assms by (auto simp: refresh_window_def)
next
  case True
  obtain k written where mc: "mincore offset len = (k, written)" by fastforce
  have wr: "length written \<le> div_ceil len host_page"
    "k \<Longrightarrow> length written = div_ceil len host_page"
    "\<And>i. k \<Longrightarrow> i < div_ceil len host_page \<Longrightarrow> (written ! i AND 1 \<noteq> 0) = cached (offset div host_page + i)"
    using assms(2) mc unfolding mincore_ok_def by (metis fst_conv snd_conv)+
  let ?new = "written @ drop (length written) (rw_entries w)"
  have base: "length (rw_entries w) = CHUNK_BYTES div 4096" "host_page dvd rw_start w"
    using assms(1) unfolding window_ok_def by blast+
  consider (big) "length (rw_entries w) < div_ceil len host_page" "ok = False" "w' = w\<lparr>rw_len := 0\<rparr>"
    | (failed) "div_ceil len host_page \<le> length (rw_entries w)" "ok = False"
        "w' = w\<lparr>rw_len := 0, rw_entries := ?new\<rparr>"
    | (asked) "div_ceil len host_page \<le> length (rw_entries w)" "k"
        "w' = w\<lparr>rw_len := len, rw_entries := ?new, rw_start := offset\<rparr>"
    using assms(6) True mc by (fastforce simp: refresh_window_def Let_def split: if_splits)
  then show ?thesis
  proof cases
    case big
    then show ?thesis using base by (simp add: window_ok_def)
  next
    case failed
    then show ?thesis using base wr(1) by (simp add: window_ok_def)
  next
    case asked
    have "length ?new = length (rw_entries w)" using wr(1) asked(1) by simp
    moreover have "?new ! i = written ! i" if "i < div_ceil len host_page" for i
      using that wr(2) [OF asked(2)] by (simp add: nth_append)
    ultimately show ?thesis
      using asked base assms(3-5) wr(3) [OF asked(2)] by (simp add: window_ok_def)
  qed
qed

lemma resident_count_spec:
  assumes "\<And>k. k < pages \<Longrightarrow> resident k = Some (P k)" and "first = P 0" and "run \<le> pages"
    and "\<forall>k < run. P k = first"
  shows "resident_count resident pages first run = Some (equal_run P pages)"
  using assms(3,4)
proof (induction "pages - run" arbitrary: run rule: less_induct)
  case less
  show ?case
  proof (cases "run < pages \<and> P run = first")
    case True
    then have "resident_count resident pages first (run + 1) = Some (equal_run P pages)"
      using less.prems by (intro less.hyps) (auto simp: less_Suc_eq)
    then show ?thesis using True assms(1) by (simp add: resident_count.simps [of _ _ _ run])
  next
    case False
    have "run < pages \<or> run = pages" using less.prems(1) by linarith
    then have "equal_run P pages = run"
      by (intro equal_runI [OF less.prems(1)]) (use False less.prems(2) assms(2) in blast)+
    then show ?thesis using False assms(1) [of run] by (simp add: resident_count.simps [of _ _ _ run])
  qed
qed
text \<open>The entries of one clone page, as host pages of the file.\<close>

definition page_cached :: "(nat \<Rightarrow> bool) \<Rightarrow> nat \<Rightarrow> nat \<Rightarrow> nat \<Rightarrow> bool" where
  "page_cached cached host_page a b \<longleftrightarrow> (\<forall>i. a \<le> i * host_page \<and> i * host_page < b \<longrightarrow> cached i)"

lemma window_entries:
  assumes w: "window_ok cached host_page w" and hp: "0 < host_page" and "host_page dvd offset"
    and "rw_start w \<le> offset" and len: "0 < len" "len \<le> rw_start w + rw_len w - offset"
  defines "skip \<equiv> (offset - rw_start w) div host_page" and "count \<equiv> div_ceil len host_page"
  shows "skip + count \<le> length (rw_entries w)"
    and "\<And>i. i < count \<Longrightarrow> (take count (drop skip (rw_entries w)) ! i AND 1 \<noteq> 0) = cached (offset div host_page + i)"
proof -
  have start: "host_page dvd rw_start w" using w by (simp add: window_ok_def)
  then have off: "offset = rw_start w + skip * host_page"
    using assms(3,4) by (simp add: skip_def dvd_diff_nat)
  then have idx: "offset div host_page = rw_start w div host_page + skip"
    using hp start by (auto simp: div_plus_div_distrib_dvd_left)
  have in_w: "skip + i < div_ceil (rw_len w) host_page" if "i < count" for i
  proof -
    have "i * host_page < len" using that less_div_ceil_iff [OF hp] by (simp add: count_def)
    then have "(skip + i) * host_page < rw_len w" using off len by (simp add: distrib_right)
    then show ?thesis using less_div_ceil_iff [OF hp] by blast
  qed
  have "0 < count" using len(1) less_div_ceil_iff [OF hp, of 0 len] by (simp add: count_def)
  then show le: "skip + count \<le> length (rw_entries w)"
    using in_w [of "count - 1"] w by (fastforce simp: window_ok_def)
  show "(take count (drop skip (rw_entries w)) ! i AND 1 \<noteq> 0) = cached (offset div host_page + i)"
    if "i < count" for i
    using w in_w [OF that] le that by (simp add: window_ok_def idx add.assoc)
qed

lemma page_resident_spec:
  assumes hp: "0 < host_page" and dv: "host_page dvd offset" "page_size = per_page * host_page"
    and ents: "length entries = count" "\<And>i. i < count \<Longrightarrow> (entries ! i AND 1 \<noteq> 0) = cached (offset div host_page + i)"
    and count: "count = div_ceil len host_page" and k: "k * page_size < len"
  shows "page_resident entries per_page count k =
    Some (page_cached cached host_page (offset + k * page_size) (offset + min ((k + 1) * page_size) len))"
proof -
  have "k * per_page < count"
    using k dv(2) less_div_ceil_iff [OF hp, of "k * per_page" len] by (simp add: count mult.assoc)
  then have sl: "k * per_page \<le> min ((k + 1) * per_page) count" by simp
  obtain base where base: "offset = base * host_page" using dv(1) by (metis dvd_div_mult_self)
  have range: "offset + k * page_size \<le> (base + i) * host_page \<and>
      (base + i) * host_page < offset + min ((k + 1) * page_size) len \<longleftrightarrow>
      k * per_page \<le> i \<and> i < min ((k + 1) * per_page) count" for i
  proof -
    have "offset + k * page_size \<le> (base + i) * host_page \<longleftrightarrow> k * per_page \<le> i"
      using hp by (simp add: base dv(2) distrib_right mult.assoc [symmetric])
    moreover have "i * host_page < (k + 1) * page_size \<longleftrightarrow> i < (k + 1) * per_page"
      using hp by (simp add: dv(2) mult.assoc [symmetric] del: mult_Suc)
    moreover have "i * host_page < len \<longleftrightarrow> i < count" using less_div_ceil_iff [OF hp] by (simp add: count)
    ultimately show ?thesis by (simp add: base distrib_right)
  qed
  have "page_cached cached host_page (offset + k * page_size) (offset + min ((k + 1) * page_size) len) \<longleftrightarrow>
      (\<forall>i. k * per_page \<le> i \<and> i < min ((k + 1) * per_page) count \<longrightarrow> cached (base + i))"
  proof -
    have "\<exists>i. I = base + i" if "offset + k * page_size \<le> I * host_page" for I
    proof -
      have "base * host_page \<le> I * host_page" using that base by linarith
      then show ?thesis using hp by (simp add: le_Suc_ex)
    qed
    then show ?thesis unfolding page_cached_def range [symmetric] by metis
  qed
  moreover have "page_resident entries per_page count k =
      Some (\<forall>i. k * per_page \<le> i \<and> i < min ((k + 1) * per_page) count \<longrightarrow> entries ! i AND 1 \<noteq> 0)"
    using sl ents(1) unfolding page_resident_def slice_def
    by (simp add: list_all_slice del: mult_Suc)
  ultimately show ?thesis using ents(2) hp by (simp add: base)
qed

lemma resident_run_spec:
  assumes w: "window_ok cached host_page w" and mc: "mincore_ok cached host_page mincore"
    and hp: "0 < host_page"
  shows "\<exists>res w'. resident_run mincore host_page view_len w offset len page_size = Some (res, w') \<and>
    window_ok cached host_page w' \<and>
    (\<forall>filled n. res = Some (filled, n) \<longrightarrow> 0 < n \<and> n \<le> len \<and>
      (\<forall>k. k * page_size < n \<longrightarrow> filled =
         page_cached cached host_page (offset + k * page_size) (offset + min ((k + 1) * page_size) n)))"
proof -
  define l where "l = min len CHUNK_BYTES"
  let ?bad = "l = 0 \<or> page_size < host_page \<or> \<not> host_page dvd page_size \<or> \<not> page_size dvd offset
            \<or> offset + l > u64_max \<or> offset + l > view_len"
  obtain ok w' where rw: "refresh_window mincore host_page w offset l = (ok, w')" by fastforce
  consider (bad) "?bad" | (asked) "\<not> ?bad" "\<not> ok" | (good) "\<not> ?bad" "ok" by blast
  then show ?thesis
  proof cases
    case bad
    then show ?thesis using w by (simp add: resident_run_def l_def [symmetric])
  next
    case asked
    then have "host_page dvd offset" "0 < l" "l \<le> CHUNK_BYTES" by (auto simp: l_def dest: dvd_trans)
    then show ?thesis
      using asked rw refresh_window_spec [OF w mc _ _ _ rw]
      by (simp add: resident_run_def l_def [symmetric])
  next
    case good
    then have g: "host_page dvd offset" "0 < l" "l \<le> CHUNK_BYTES" "host_page dvd page_size" "host_page \<le> page_size"
      by (auto simp: l_def dest: dvd_trans)
    have w': "window_ok cached host_page w'" "rw_start w' \<le> offset" "offset - rw_start w' < rw_len w'"
      using refresh_window_spec [OF w mc g(1-3) rw] good(2) by blast+
    define L where "L = min l (rw_start w' + rw_len w' - offset)"
    define per where "per = page_size div host_page"
    have L: "0 < L" "L \<le> rw_start w' + rw_len w' - offset" "L \<le> len"
      using w' g by (auto simp: L_def l_def)
    note ents = window_entries [OF w'(1) hp g(1) w'(2) L(1,2)]
    have per: "page_size = per * host_page" using g(4) by (simp add: per_def)
    have ps: "0 < page_size" using hp g(5) by simp
    let ?P = "\<lambda>k. page_cached cached host_page (offset + k * page_size) (offset + min ((k + 1) * page_size) L)"
    let ?skip = "(offset - rw_start w') div host_page" and ?count = "div_ceil L host_page"
    let ?ents = "take ?count (drop ?skip (rw_entries w'))"
    let ?run = "equal_run ?P (div_ceil L page_size)"
    have pr: "page_resident ?ents per ?count k = Some (?P k)" if "k * page_size < L" for k
      using ents by (intro page_resident_spec [OF hp g(1) per _ _ refl that]) auto
    have pages: "0 < div_ceil L page_size" using L(1) less_div_ceil_iff [OF ps, of 0] by simp
    have first: "page_resident ?ents per ?count 0 = Some (?P 0)" using pr [of 0] L(1) by simp
    have rc: "resident_count (page_resident ?ents per ?count) (div_ceil L page_size) (?P 0) 1 = Some ?run"
    proof (rule resident_count_spec)
      show "page_resident ?ents per ?count k = Some (?P k)" if "k < div_ceil L page_size" for k
        using that pr less_div_ceil_iff [OF ps] by blast
    qed (use pages in simp_all)
    have res: "resident_run mincore host_page view_len w offset len page_size =
        Some (Some (?P 0, min (?run * page_size) L), w')"
      using good rw ents(1) first rc
      by (simp add: resident_run_def l_def [symmetric] L_def [symmetric] per_def [symmetric] slice_def)
    have "?P 0 = page_cached cached host_page (offset + k * page_size)
        (offset + min ((k + 1) * page_size) (min (?run * page_size) L))"
      if "k * page_size < min (?run * page_size) L" for k
    proof -
      have k: "k < ?run" using that ps by simp
      then have "(k + 1) * page_size \<le> ?run * page_size" by (intro mult_le_mono1) simp
      then show ?thesis using equal_run_same [OF k] by (simp only: min.assoc [symmetric] min_absorb1)
    qed
    moreover have "0 < min (?run * page_size) L" using equal_run_pos [OF pages, of ?P] ps L(1) by simp
    ultimately show ?thesis using res w'(1) L(3) by auto
  qed
qed

lemma page_cached_all:
  assumes "0 < page_size"
    and "\<forall>k. k * page_size < n \<longrightarrow>
      page_cached cached host_page (offset + k * page_size) (offset + min ((k + 1) * page_size) n)"
    and "offset \<le> i * host_page" and "i * host_page < offset + n"
  shows "cached i"
proof -
  let ?d = "i * host_page - offset"
  let ?k = "?d div page_size"
  have k: "?k * page_size \<le> ?d" "?d < (?k + 1) * page_size"
    using assms(1) by (auto simp: dividend_less_div_times add.commute)
  have d: "offset + ?d = i * host_page" "?d < n" using assms(3,4) by auto
  then have "page_cached cached host_page (offset + ?k * page_size) (offset + min ((?k + 1) * page_size) n)"
    using assms(2) k(1) by (meson le_less_trans)
  then show ?thesis
    using k d unfolding page_cached_def by (metis min_less_iff_conj nat_add_left_cancel_le nat_add_left_cancel_less)
qed

lemma run_at_pages:
  assumes "hm_inv m" and "hm_marked m \<noteq> 0" and "0 < page_size" and "page_size dvd offset"
    and "0 < max_len" and "offset + CHUNK_BYTES + page_size \<le> u64_max"
  shows "\<exists>inside n. hole_map_run_at m offset max_len page_size = Some (inside, n) \<and>
    0 < n \<and> n \<le> max_len \<and>
    (\<forall>k. k * page_size < n \<longrightarrow> page_marked m page_size (offset + k * page_size) = inside)"
proof -
  define limit where "limit = min max_len CHUNK_BYTES"
  let ?P = "\<lambda>k. page_marked m page_size (offset + k * page_size)"
  let ?r = "equal_run ?P (div_ceil limit page_size)"
  have limit: "0 < limit" "limit \<le> max_len" using assms(5) by (auto simp: limit_def CHUNK_BYTES_def)
  have room: "page_size + 1024 \<le> u64_max" using assms(6) by (simp add: CHUNK_BYTES_def)
  have "0 < div_ceil limit page_size"
    using limit less_div_ceil_iff [OF assms(3), of 0 limit] by simp
  then have pos: "0 < min (?r * page_size) limit" using equal_run_pos [of _ ?P] assms(3) limit by simp
  show ?thesis
  proof (intro exI conjI allI impI)
    show "hole_map_run_at m offset max_len page_size = Some (?P 0, min (?r * page_size) limit)"
      using hole_map_run_at_spec [OF assms room] by (simp add: limit_def)
    show "?P k = ?P 0" if "k * page_size < min (?r * page_size) limit" for k
      using that assms(3) by (intro equal_run_same [of k ?P "div_ceil limit page_size"]) simp
  qed (use pos limit(2) in linarith)+
qed

text \<open>
  Claim C4.  What replay is told about a backing memfd is right: with a window that is in step with
  the page cache and a \<open>mincore\<close> that answers as documented, \<open>run_at\<close> indexes nothing out of range
  and leaves a window that is in step again; pages it calls written are not candidate holes; a
  stretch it calls filled consists of candidate pages all of whose host pages are cached; every
  clone page of a stretch it calls holes is a candidate with a host page that is not cached; and
  what it cannot ask about is at least a candidate.
\<close>

theorem memfd_run_at_correct:
  assumes inv: "hm_inv (mh_candidates h)" and marked: "hm_marked (mh_candidates h) \<noteq> 0"
    and ps: "0 < page_size" "page_size dvd offset" and "0 < max_len"
    and bound: "offset + CHUNK_BYTES + page_size \<le> u64_max"
    and w: "window_ok cached host_page w" and mc: "mincore_ok cached host_page mincore" and hp: "0 < host_page"
  shows "\<exists>res w'. memfd_run_at mincore host_page h w offset max_len page_size = Some (res, w') \<and>
    window_ok cached host_page w' \<and>
    (case res of
       Pages n \<Rightarrow> 0 < n \<and> n \<le> max_len \<and>
         (\<forall>k. k * page_size < n \<longrightarrow> \<not> page_marked (mh_candidates h) page_size (offset + k * page_size))
     | Unknown n \<Rightarrow> 0 < n \<and> n \<le> max_len \<and>
         (\<forall>k. k * page_size < n \<longrightarrow> page_marked (mh_candidates h) page_size (offset + k * page_size))
     | Filled n \<Rightarrow> 0 < n \<and> n \<le> max_len \<and>
         (\<forall>k. k * page_size < n \<longrightarrow> page_marked (mh_candidates h) page_size (offset + k * page_size)) \<and>
         (\<forall>i. offset \<le> i * host_page \<and> i * host_page < offset + n \<longrightarrow> cached i)
     | Holes n \<Rightarrow> 0 < n \<and> n \<le> max_len \<and>
         (\<forall>k. k * page_size < n \<longrightarrow> page_marked (mh_candidates h) page_size (offset + k * page_size) \<and>
           (\<exists>i. offset + k * page_size \<le> i * host_page \<and> i * host_page < offset + (k + 1) * page_size \<and>
                \<not> cached i)))"
proof -
  let ?m = "mh_candidates h"
  obtain inside len where run: "hole_map_run_at ?m offset max_len page_size = Some (inside, len)"
    and len: "0 < len" "len \<le> max_len"
    and same: "\<And>k. k * page_size < len \<Longrightarrow> page_marked ?m page_size (offset + k * page_size) = inside"
    using run_at_pages [OF inv marked ps \<open>0 < max_len\<close> bound] by blast
  show ?thesis
  proof (cases "inside \<and> mh_view h \<noteq> None")
    case False
    then show ?thesis using run len same w by (cases inside) (auto simp: memfd_run_at_def)
  next
    case True
    then obtain view where view: "mh_view h = Some view" by blast
    obtain res w' where rr: "resident_run mincore host_page view w offset len page_size = Some (res, w')"
      and w': "window_ok cached host_page w'"
      and sp: "\<And>filled n. res = Some (filled, n) \<Longrightarrow> 0 < n \<and> n \<le> len \<and>
        (\<forall>k. k * page_size < n \<longrightarrow> filled =
           page_cached cached host_page (offset + k * page_size) (offset + min ((k + 1) * page_size) n))"
      using resident_run_spec [OF w mc hp, of view offset len page_size] by blast
    show ?thesis
    proof (cases res)
      case None
      then show ?thesis using True view run rr w' len same by (simp add: memfd_run_at_def)
    next
      case (Some p)
      then obtain filled n where p: "res = Some (filled, n)" by (metis surj_pair)
      note n = sp [OF p]
      show ?thesis
      proof (cases filled)
        case filled: True
        have "cached i" if "offset \<le> i * host_page" "i * host_page < offset + n" for i
          using page_cached_all [OF ps(1), of n cached host_page offset i] n that filled by blast
        then show ?thesis using True view run rr w' len same n p filled by (simp add: memfd_run_at_def)
      next
        case holes: False
        have "\<exists>i. offset + k * page_size \<le> i * host_page \<and> i * host_page < offset + (k + 1) * page_size \<and>
            \<not> cached i" if "k * page_size < n" for k
          using n that holes unfolding page_cached_def by (meson add_le_cancel_left less_le_trans min.cobounded1)
        then show ?thesis using True view run rr w' len same n p holes by (simp add: memfd_run_at_def)
      qed
    qed
  qed
qed

lemma window_ok_default: "window_ok cached host_page resident_window_default"
  by (simp add: window_ok_def resident_window_default_def)

theorem memfd_run_at_correct_witness:
  "\<exists>m res w'. hole_map_insert (hole_map_new 20000) 4096 9000 = Some m \<and>
     memfd_run_at (\<lambda>_ len. (True, replicate (div_ceil len 4096) 1)) 4096 (memfd_holes_new m (Some 20480))
       resident_window_default 4096 65536 4096 = Some (res, w') \<and>
     window_ok (\<lambda>_. True) 4096 w'"
proof -
  obtain m where m: "hole_map_insert (hole_map_new 20000) 4096 9000 = Some m" "hm_inv m"
    "hm_set m = granules_inside 5 4096 9000"
    using hole_map_insert_spec [OF hm_inv_new, of 20000 4096 9000]
    by (auto simp: hm_set_new hm_granules_new div_ceil_def GRANULE_BYTES_def)
  then have "1 \<in> hm_set m" by (simp add: granules_inside_def u64_max_def)
  then have marked: "hm_marked m \<noteq> 0" using hm_marked_0_iff [OF m(2)] by blast
  let ?mincore = "\<lambda>_ len. (True, replicate (div_ceil len 4096) (1 :: u8))"
  have mc: "mincore_ok (\<lambda>_. True) 4096 ?mincore" by (simp add: mincore_ok_def)
  have "\<exists>res w'. memfd_run_at ?mincore 4096 (memfd_holes_new m (Some 20480))
       resident_window_default 4096 65536 4096 = Some (res, w') \<and> window_ok (\<lambda>_. True) 4096 w'"
    using memfd_run_at_correct [of "memfd_holes_new m (Some 20480)" 4096 4096 65536,
        OF _ _ _ _ _ _ window_ok_default mc] m(2) marked
    by (fastforce simp: memfd_holes_new_def CHUNK_BYTES_def u64_max_def)
  with m(1) show ?thesis by blast
qed

end
