(* ===== verification/Byte_Codec.thy ===== *)
theory Byte_Codec
  imports Fcvm_Prelude "HOL-Library.Monad_Syntax"
begin

text \<open>
  Fixed-width integers as bytes: Rust's \<open>to_le_bytes\<close>, \<open>from_le_bytes\<close>, \<open>to_be_bytes\<close> and
  \<open>from_be_bytes\<close>, over natural numbers and a byte count, with the round trips every codec of the
  sources relies on.
\<close>

section \<open>Little and big endian\<close>

lemma unat_u8_less: "unat (b :: u8) < 256"
proof -
  have "unat b < 2 ^ LENGTH(8)" by (rule unsigned_less)
  then show ?thesis by simp
qed

lemma unat_u64_less: "unat (w :: u64) < 2 ^ 64"
proof -
  have "unat w < 2 ^ LENGTH(64)" by (rule unsigned_less)
  then show ?thesis by simp
qed

fun le_bytes :: "nat \<Rightarrow> nat \<Rightarrow> bytes" where
  "le_bytes 0 x = []"
| "le_bytes (Suc n) x = word_of_nat (x mod 256) # le_bytes n (x div 256)"

fun of_le :: "bytes \<Rightarrow> nat" where
  "of_le [] = 0"
| "of_le (b # bs) = unat b + 256 * of_le bs"

definition be_bytes :: "nat \<Rightarrow> nat \<Rightarrow> bytes" where
  "be_bytes n x = rev (le_bytes n x)"

definition of_be :: "bytes \<Rightarrow> nat" where
  "of_be bs = of_le (rev bs)"

lemma length_le_bytes [simp]: "length (le_bytes n x) = n"
  by (induction n arbitrary: x) simp_all

lemma length_be_bytes [simp]: "length (be_bytes n x) = n"
  by (simp add: be_bytes_def)

lemma be_bytes_4:
  "be_bytes 4 x = [word_of_nat (x div 16777216 mod 256), word_of_nat (x div 65536 mod 256),
                   word_of_nat (x div 256 mod 256), word_of_nat (x mod 256)]"
proof -
  have "(4 :: nat) = Suc (Suc (Suc (Suc 0)))" by simp
  then show ?thesis by (simp only: be_bytes_def le_bytes.simps) (simp add: div_mult2_eq [symmetric])
qed

lemma be_bytes_2: "be_bytes 2 x = [word_of_nat (x div 256 mod 256), word_of_nat (x mod 256)]"
proof -
  have "(2 :: nat) = Suc (Suc 0)" by simp
  then show ?thesis by (simp only: be_bytes_def le_bytes.simps) simp
qed

lemma unat_byte [simp]: "unat (word_of_nat (x mod 256) :: u8) = x mod 256"
  by (simp add: unat_of_nat)

lemma of_le_le_bytes: "of_le (le_bytes n x) = x mod 256 ^ n"
proof (induction n arbitrary: x)
  case (Suc n)
  have "x mod 256 ^ Suc n = x mod 256 + 256 * (x div 256 mod 256 ^ n)"
    by (simp add: mod_mult2_eq)
  with Suc show ?case by simp
qed simp

lemma of_le_less: "of_le bs < 256 ^ length bs"
proof (induction bs)
  case (Cons b bs)
  have "unat b < 256" by (rule unat_u8_less)
  with Cons show ?case by simp
qed simp

lemma le_bytes_of_le: "le_bytes (length bs) (of_le bs) = bs"
proof (induction bs)
  case (Cons b bs)
  have "unat b < 256" by (rule unat_u8_less)
  then have "(unat b + 256 * of_le bs) mod 256 = unat b" "(unat b + 256 * of_le bs) div 256 = of_le bs"
    by simp_all
  with Cons show ?case by simp
qed simp

lemma of_le_round_trip [codec_simps]: "x < 256 ^ n \<Longrightarrow> of_le (le_bytes n x) = x"
  by (simp add: of_le_le_bytes)

lemma of_be_round_trip [codec_simps]: "x < 256 ^ n \<Longrightarrow> of_be (be_bytes n x) = x"
  by (simp add: of_be_def be_bytes_def of_le_round_trip)

lemma of_be_less: "of_be bs < 256 ^ length bs"
  using of_le_less [of "rev bs"] by (simp add: of_be_def)

lemma be_bytes_of_be: "be_bytes (length bs) (of_be bs) = bs"
  using le_bytes_of_le [of "rev bs"] by (simp add: of_be_def be_bytes_def)

lemma u64_le_round_trip [codec_simps]: "word_of_nat (of_le (le_bytes 8 (unat w))) = (w :: u64)"
  using unat_u64_less [of w] by (simp add: of_le_round_trip)

end
