(* ===== verification/Uffd_Working_Set.thy ===== *)
theory Uffd_Working_Set
  imports Granule_Bitmap Byte_Codec
begin

unbundle bit_operations_syntax

text \<open>
  The restore working set (\<open>src/uffd/working_set.rs\<close>): the bitmap \<open>PageSet\<close> with its insertion,
  union, run iterator and on-disk form.  As for the hole map, an index outside a vector is the
  value \<open>None\<close>, and the theorems show that it never happens under the invariant.
\<close>

section \<open>The page set\<close>

definition GRANULE :: nat where
  "GRANULE = 4096"

record page_set =
  ps_granules :: nat
  ps_words :: "u64 list"

record mem_run =
  run_offset :: nat
  run_len :: nat

definition page_set_empty :: "nat \<Rightarrow> page_set" where
  "page_set_empty mem_len =
     (let granules = div_ceil mem_len GRANULE
      in \<lparr>ps_granules = granules, ps_words = replicate (div_ceil granules 64) 0\<rparr>)"

definition page_set_len :: "page_set \<Rightarrow> nat" where
  "page_set_len s = sum_list (map count_ones (ps_words s))"

definition page_set_is_empty :: "page_set \<Rightarrow> bool" where
  "page_set_is_empty s = list_all (\<lambda>w. w = 0) (ps_words s)"

definition page_set_bytes :: "page_set \<Rightarrow> nat" where
  "page_set_bytes s = page_set_len s * GRANULE"

fun insert_granules :: "nat \<Rightarrow> u64 list \<Rightarrow> nat list \<Rightarrow> u64 list option" where
  "insert_granules granules words [] = Some words"
| "insert_granules granules words (g # gs) =
     (if g \<ge> granules then Some words
      else if g div 64 < length words
      then insert_granules granules (words[g div 64 := words ! (g div 64) OR push_bit (g mod 64) 1]) gs
      else None)"

definition page_set_insert_range :: "page_set \<Rightarrow> nat \<Rightarrow> nat \<Rightarrow> page_set option" where
  "page_set_insert_range s offset len =
     (let first = offset div GRANULE;
          last = saturating_add offset (max len 1 - 1) div GRANULE
      in do {
        words \<leftarrow> insert_granules (ps_granules s) (ps_words s)
                   [first..<Suc (min last (ps_granules s - 1))];
        Some (s\<lparr>ps_words := words\<rparr>)
      })"

definition page_set_contains :: "page_set \<Rightarrow> nat \<Rightarrow> bool option" where
  "page_set_contains s granule =
     (if granule < ps_granules s then
        if granule div 64 < length (ps_words s)
        then Some (ps_words s ! (granule div 64) AND push_bit (granule mod 64) 1 \<noteq> 0)
        else None
      else Some False)"

fun union_words :: "u64 list \<Rightarrow> u64 list \<Rightarrow> u64 list \<times> nat" where
  "union_words (before # ws) (w # ws') =
     (let after = before OR w;
          (rest, added) = union_words ws ws'
      in (after # rest, count_ones (after AND NOT before) + added))"
| "union_words ws ws' = (ws, 0)"

definition page_set_union_from :: "page_set \<Rightarrow> page_set \<Rightarrow> page_set \<times> nat" where
  "page_set_union_from s other =
     (let (words, added) = union_words (ps_words s) (ps_words other)
      in (s\<lparr>ps_words := words\<rparr>, added))"

section \<open>The run iterator\<close>

function next_set :: "page_set \<Rightarrow> nat \<Rightarrow> nat option option" where
  "next_set s granule =
     (if granule < ps_granules s then
        if granule div 64 < length (ps_words s) then
          (let word = drop_bit (granule mod 64) (ps_words s ! (granule div 64))
           in if word \<noteq> 0
              then let hit = granule + trailing_zeros word
                   in Some (if hit < ps_granules s then Some hit else None)
              else next_set s ((granule div 64 + 1) * 64))
        else None
      else Some None)"
  by pat_completeness auto
termination
  by (relation "measure (\<lambda>(s, granule). ps_granules s - granule)")
    (auto simp: dividend_less_div_times intro!: diff_less_mono2)

function next_clear :: "page_set \<Rightarrow> nat \<Rightarrow> nat option" where
  "next_clear s granule =
     (if granule < ps_granules s then
        if granule div 64 < length (ps_words s) then
          (let word = drop_bit (granule mod 64) (NOT (ps_words s ! (granule div 64)))
           in if word \<noteq> 0 then Some (min (granule + trailing_zeros word) (ps_granules s))
              else next_clear s ((granule div 64 + 1) * 64))
        else None
      else Some (ps_granules s))"
  by pat_completeness auto
termination
  by (relation "measure (\<lambda>(s, granule). ps_granules s - granule)")
    (auto simp: dividend_less_div_times intro!: diff_less_mono2)

declare next_set.simps [simp del] next_clear.simps [simp del]

definition run_iter_next :: "page_set \<Rightarrow> nat \<Rightarrow> (mem_run \<times> nat) option option" where
  "run_iter_next s cursor = do {
     found \<leftarrow> next_set s cursor;
     case found of
       None \<Rightarrow> Some None
     | Some start \<Rightarrow> do {
         stop \<leftarrow> next_clear s start;
         Some (Some (\<lparr>run_offset = start * GRANULE, run_len = (stop - start) * GRANULE\<rparr>, stop))
       }
   }"

text \<open>
  One unfolding of each scan, in terms of the bitmap: the scan ends in this word, or the rest of
  the word holds nothing and the scan goes on with the next.
\<close>

lemma next_set_step:
  assumes "granule < ps_granules s" and "granule div 64 < length (ps_words s)"
  defines "past \<equiv> (granule div 64 + 1) * 64"
  obtains (hit) h where "next_set s granule = Some (if h < ps_granules s then Some h else None)"
      "granule \<le> h" "h < past" "bm_test (ps_words s) h"
      "\<And>g. granule \<le> g \<Longrightarrow> g < h \<Longrightarrow> \<not> bm_test (ps_words s) g"
  | (miss) "next_set s granule = next_set s past"
      "\<And>g. granule \<le> g \<Longrightarrow> g < past \<Longrightarrow> \<not> bm_test (ps_words s) g"
proof -
  let ?w = "ps_words s ! (granule div 64)"
  have test: "bm_test (ps_words s) g \<longleftrightarrow> bit ?w (g mod 64)" if "granule \<le> g" "g < past" for g
    using that assms(2) same_word(1) [of granule g] by (simp add: bm_test_def bm_word_def past_def)
  show ?thesis
  proof (cases "drop_bit (granule mod 64) ?w = 0")
    case True
    show ?thesis
    proof (rule miss)
      show "next_set s granule = next_set s past"
        using assms True by (subst next_set.simps) (simp add: past_def)
      show "\<not> bm_test (ps_words s) g" if "granule \<le> g" "g < past" for g
        using test [OF that] scan_word_miss [OF True that(1)] that(2) by (simp add: past_def)
    qed
  next
    case False
    define h where "h = granule + trailing_zeros (drop_bit (granule mod 64) ?w)"
    note sc = scan_word_hit [OF False h_def]
    show ?thesis
    proof (rule hit)
      show "next_set s granule = Some (if h < ps_granules s then Some h else None)"
        using assms False by (subst next_set.simps) (simp add: h_def)
      show "granule \<le> h" "h < past" using sc(1,2) by (simp_all add: past_def)
      then show "bm_test (ps_words s) h" using test sc(3) by blast
      show "\<not> bm_test (ps_words s) g" if "granule \<le> g" "g < h" for g
        using test [of g] sc(2,4) that by (simp add: past_def)
    qed
  qed
qed

lemma next_clear_step:
  assumes "granule < ps_granules s" and "granule div 64 < length (ps_words s)"
  defines "past \<equiv> (granule div 64 + 1) * 64"
  obtains (hit) h where "next_clear s granule = Some (min h (ps_granules s))"
      "granule \<le> h" "h < past" "\<not> bm_test (ps_words s) h"
      "\<And>g. granule \<le> g \<Longrightarrow> g < h \<Longrightarrow> bm_test (ps_words s) g"
  | (miss) "next_clear s granule = next_clear s past"
      "\<And>g. granule \<le> g \<Longrightarrow> g < past \<Longrightarrow> bm_test (ps_words s) g"
proof -
  let ?w = "ps_words s ! (granule div 64)"
  have test: "bm_test (ps_words s) g \<longleftrightarrow> \<not> bit (NOT ?w) (g mod 64)" if "granule \<le> g" "g < past" for g
    using that assms(2) same_word(1) [of granule g]
    by (simp add: bm_test_def bm_word_def past_def bit_not_iff)
  show ?thesis
  proof (cases "drop_bit (granule mod 64) (NOT ?w) = 0")
    case True
    show ?thesis
    proof (rule miss)
      show "next_clear s granule = next_clear s past"
        using assms True by (subst next_clear.simps) (simp add: past_def)
      show "bm_test (ps_words s) g" if "granule \<le> g" "g < past" for g
        using test [OF that] scan_word_miss [OF True that(1)] that(2) by (simp add: past_def)
    qed
  next
    case False
    define h where "h = granule + trailing_zeros (drop_bit (granule mod 64) (NOT ?w))"
    note sc = scan_word_hit [OF False h_def]
    show ?thesis
    proof (rule hit)
      show "next_clear s granule = Some (min h (ps_granules s))"
        using assms False by (subst next_clear.simps) (simp add: h_def)
      show "granule \<le> h" "h < past" using sc(1,2) by (simp_all add: past_def)
      then show "\<not> bm_test (ps_words s) h" using test sc(3) by blast
      show "bm_test (ps_words s) g" if "granule \<le> g" "g < h" for g
        using test [of g] sc(2,4) that by (simp add: past_def)
    qed
  qed
qed

lemma past_word: "(g :: nat) < (g div 64 + 1) * 64"
  by (simp add: dividend_less_div_times)

lemma scan_in_range:
  "next_set s g = Some r \<Longrightarrow> g < ps_granules s \<Longrightarrow> g div 64 < length (ps_words s)"
  "next_clear s g = Some e \<Longrightarrow> g < ps_granules s \<Longrightarrow> g div 64 < length (ps_words s)"
  by (subst (asm) next_set.simps next_clear.simps, simp split: if_splits)+

lemma next_set_found:
  "next_set s g = Some r \<Longrightarrow>
     (case r of
        Some h \<Rightarrow> g \<le> h \<and> h < ps_granules s \<and> bm_test (ps_words s) h \<and>
          (\<forall>x. g \<le> x \<and> x < h \<longrightarrow> \<not> bm_test (ps_words s) x)
      | None \<Rightarrow> \<forall>x. g \<le> x \<and> x < ps_granules s \<longrightarrow> \<not> bm_test (ps_words s) x)"
proof (induction "ps_granules s - g" arbitrary: g rule: less_induct)
  case less
  show ?case
  proof (cases "g < ps_granules s")
    case False
    then show ?thesis using less.prems by (subst (asm) next_set.simps) auto
  next
    case True
    show ?thesis
      using True scan_in_range(1) [OF less.prems True]
    proof (cases rule: next_set_step)
      case (hit h)
      then show ?thesis using less.prems by (auto split: if_splits)
    next
      case miss
      have "ps_granules s - (g div 64 + 1) * 64 < ps_granules s - g"
        using True past_word [of g] by linarith
      note ih = less.hyps [OF this less.prems [unfolded miss(1)]]
      show ?thesis using ih miss(2) past_word [of g] by (cases r) (auto simp: not_less, (meson le_trans less_imp_le not_less)+)
    qed
  qed
qed

lemma next_clear_found:
  "next_clear s g = Some e \<Longrightarrow> g \<le> ps_granules s \<Longrightarrow>
     g \<le> e \<and> e \<le> ps_granules s \<and> (\<forall>x. g \<le> x \<and> x < e \<longrightarrow> bm_test (ps_words s) x) \<and>
     (e < ps_granules s \<longrightarrow> \<not> bm_test (ps_words s) e)"
proof (induction "ps_granules s - g" arbitrary: g rule: less_induct)
  case less
  show ?case
  proof (cases "g < ps_granules s")
    case False
    then show ?thesis using less.prems by (subst (asm) next_clear.simps) auto
  next
    case True
    show ?thesis
      using True scan_in_range(2) [OF less.prems(1) True]
    proof (cases rule: next_clear_step)
      case (hit h)
      then show ?thesis using less.prems True by (auto simp: min_def split: if_splits)
    next
      case miss
      let ?past = "(g div 64 + 1) * 64"
      show ?thesis
      proof (cases "?past \<le> ps_granules s")
        case in_set: True
        have "ps_granules s - ?past < ps_granules s - g" using True past_word [of g] by linarith
        note ih = less.hyps [OF this less.prems(1) [unfolded miss(1)] in_set]
        then show ?thesis using miss(2) past_word [of g] by (meson le_trans less_imp_le not_less)
      next
        case False
        then have "e = ps_granules s"
          using less.prems(1) unfolding miss(1) by (subst (asm) next_clear.simps) simp
        then show ?thesis using True miss(2) False by auto
      qed
    qed
  qed
qed

lemma run_iter_next_found:
  assumes "run_iter_next s cursor = Some (Some (r, stop))"
  obtains start where "r = \<lparr>run_offset = start * GRANULE, run_len = (stop - start) * GRANULE\<rparr>"
    "cursor \<le> start" "start < stop" "stop \<le> ps_granules s"
    "\<And>x. cursor \<le> x \<Longrightarrow> x < start \<Longrightarrow> \<not> bm_test (ps_words s) x"
    "\<And>x. start \<le> x \<Longrightarrow> x < stop \<Longrightarrow> bm_test (ps_words s) x"
    "stop < ps_granules s \<Longrightarrow> \<not> bm_test (ps_words s) stop"
proof -
  obtain start where st: "next_set s cursor = Some (Some start)" "next_clear s start = Some stop"
    "r = \<lparr>run_offset = start * GRANULE, run_len = (stop - start) * GRANULE\<rparr>"
    using assms by (auto simp: run_iter_next_def split: bind_splits option.splits)
  have n: "cursor \<le> start" "start < ps_granules s" "bm_test (ps_words s) start"
    "\<And>x. cursor \<le> x \<Longrightarrow> x < start \<Longrightarrow> \<not> bm_test (ps_words s) x"
    using next_set_found [OF st(1)] by auto
  have c: "start \<le> stop" "stop \<le> ps_granules s"
    "\<And>x. start \<le> x \<Longrightarrow> x < stop \<Longrightarrow> bm_test (ps_words s) x"
    "stop < ps_granules s \<Longrightarrow> \<not> bm_test (ps_words s) stop"
    using next_clear_found [OF st(2)] n(2) by auto
  have "start < stop" using c n by (metis le_neq_implies_less)
  then show ?thesis using that st(3) n c by blast
qed

text \<open>The iterator collected into a list; it ends because every run it yields is not empty.\<close>

function page_set_runs_from :: "page_set \<Rightarrow> nat \<Rightarrow> mem_run list option" where
  "page_set_runs_from s cursor =
     (case run_iter_next s cursor of
        None \<Rightarrow> None
      | Some None \<Rightarrow> Some []
      | Some (Some (r, stop)) \<Rightarrow> map_option (\<lambda>rs. r # rs) (page_set_runs_from s stop))"
  by pat_completeness auto
termination
proof (relation "measure (\<lambda>(s, cursor). ps_granules s - cursor)", goal_cases)
  case (2 s cursor x1 x2 r stop)
  then show ?case by (auto elim: run_iter_next_found)
qed simp

declare page_set_runs_from.simps [simp del]

definition page_set_runs :: "page_set \<Rightarrow> mem_run list option" where
  "page_set_runs s = page_set_runs_from s 0"

section \<open>The set a page set denotes\<close>

definition ps_set :: "page_set \<Rightarrow> nat set" where
  "ps_set s = bm_set (ps_words s)"

definition ps_inv :: "page_set \<Rightarrow> bool" where
  "ps_inv s \<longleftrightarrow> length (ps_words s) = div_ceil (ps_granules s) 64 \<and> ps_set s \<subseteq> {..<ps_granules s}"

lemma finite_ps_set [simp]: "finite (ps_set s)"
  by (simp add: ps_set_def)

lemma ps_inv_empty: "ps_inv (page_set_empty mem_len)"
  and ps_set_empty: "ps_set (page_set_empty mem_len) = {}"
  and ps_granules_empty: "ps_granules (page_set_empty mem_len) = div_ceil mem_len GRANULE"
  by (simp_all add: ps_inv_def ps_set_def page_set_empty_def Let_def)

lemma page_set_len_card: "page_set_len s = card (ps_set s)"
  using bm_count_card [of "ps_words s"] by (simp add: page_set_len_def bm_count_def ps_set_def)

lemma granule_in_words: "ps_inv s \<Longrightarrow> g < ps_granules s \<Longrightarrow> g div 64 < length (ps_words s)"
  using less_div_ceil_iff [of 64 "g div 64" "ps_granules s"] div_times_less_eq_dividend [of g 64]
  by (simp add: ps_inv_def)

lemma next_defined:
  assumes "ps_inv s"
  shows "\<exists>r. next_set s g = Some r" and "\<exists>e. next_clear s g = Some e"
proof -
  show "\<exists>r. next_set s g = Some r"
  proof (induction "ps_granules s - g" arbitrary: g rule: less_induct)
    case less
    show ?case
    proof (cases "g < ps_granules s")
      case True
      with less past_word [of g] show ?thesis
        by (subst next_set.simps) (auto simp: granule_in_words [OF assms] Let_def)
    qed (simp add: next_set.simps [of s g])
  qed
  show "\<exists>e. next_clear s g = Some e"
  proof (induction "ps_granules s - g" arbitrary: g rule: less_induct)
    case less
    show ?case
    proof (cases "g < ps_granules s")
      case True
      with less past_word [of g] show ?thesis
        by (subst next_clear.simps) (auto simp: granule_in_words [OF assms] Let_def)
    qed (simp add: next_clear.simps [of s g])
  qed
qed

definition run_range :: "mem_run \<Rightarrow> nat set" where
  "run_range r = {x. run_offset r \<le> x \<and> x < run_offset r + run_len r}"

lemma run_iter_next_defined: "ps_inv s \<Longrightarrow> \<exists>r. run_iter_next s cursor = Some r"
proof -
  assume inv: "ps_inv s"
  obtain found where f: "next_set s cursor = Some found" using next_defined(1) [OF inv] by blast
  show ?thesis
  proof (cases found)
    case (Some start)
    obtain stop where "next_clear s start = Some stop" using next_defined(2) [OF inv] by blast
    with f Some show ?thesis by (simp add: run_iter_next_def)
  qed (simp add: run_iter_next_def f)
qed

lemma run_iter_next_none:
  "ps_inv s \<Longrightarrow> run_iter_next s cursor = Some None \<Longrightarrow> cursor \<le> x \<Longrightarrow> x \<notin> ps_set s"
  using next_set_found [of s cursor None]
  by (auto simp: run_iter_next_def ps_inv_def ps_set_def bm_set_def
      split: bind_splits option.splits)

lemma page_set_runs_from_spec:
  assumes "ps_inv s"
  shows "\<exists>rs. page_set_runs_from s cursor = Some rs \<and>
    (\<Union>r \<in> set rs. run_range r) = {x. cursor * GRANULE \<le> x \<and> x div GRANULE \<in> ps_set s} \<and>
    sorted_wrt (\<lambda>a b. run_offset a + run_len a < run_offset b) rs \<and>
    (\<forall>r \<in> set rs. 0 < run_len r \<and> GRANULE dvd run_offset r \<and> GRANULE dvd run_len r \<and>
       run_offset r + run_len r \<le> ps_granules s * GRANULE) \<and>
    (cursor \<notin> ps_set s \<longrightarrow> (\<forall>r \<in> set rs. cursor * GRANULE < run_offset r))"
proof (induction "ps_granules s - cursor" arbitrary: cursor rule: less_induct)
  case less
  obtain nx where nx: "run_iter_next s cursor = Some nx" using run_iter_next_defined [OF assms] by blast
  show ?case
  proof (cases nx)
    case None
    then have "page_set_runs_from s cursor = Some []" using nx by (subst page_set_runs_from.simps) simp
    moreover have "x div GRANULE \<notin> ps_set s" if "cursor * GRANULE \<le> x" for x
      using that nx None by (intro run_iter_next_none [OF assms, of cursor])
        (simp_all add: GRANULE_def less_eq_div_iff_mult_less_eq)
    ultimately show ?thesis by auto
  next
    case (Some p)
    then obtain r stop where p: "run_iter_next s cursor = Some (Some (r, stop))" using nx by (cases p) auto
    then obtain start where r: "r = \<lparr>run_offset = start * GRANULE, run_len = (stop - start) * GRANULE\<rparr>"
      and o: "cursor \<le> start" "start < stop" "stop \<le> ps_granules s"
      and t: "\<And>x. cursor \<le> x \<Longrightarrow> x < start \<Longrightarrow> x \<notin> ps_set s"
        "\<And>x. start \<le> x \<Longrightarrow> x < stop \<Longrightarrow> x \<in> ps_set s"
        "stop < ps_granules s \<Longrightarrow> stop \<notin> ps_set s"
      unfolding ps_set_def bm_set_def mem_Collect_eq by (rule run_iter_next_found) blast
    have stop: "stop \<notin> ps_set s" using t(3) o(3) assms by (auto simp: ps_inv_def)
    have dec: "ps_granules s - stop < ps_granules s - cursor" using o by linarith
    obtain rs where rs: "page_set_runs_from s stop = Some rs"
      "(\<Union>r \<in> set rs. run_range r) = {x. stop * GRANULE \<le> x \<and> x div GRANULE \<in> ps_set s}"
      "sorted_wrt (\<lambda>a b. run_offset a + run_len a < run_offset b) rs"
      "\<forall>r \<in> set rs. 0 < run_len r \<and> GRANULE dvd run_offset r \<and> GRANULE dvd run_len r \<and>
         run_offset r + run_len r \<le> ps_granules s * GRANULE"
      "\<forall>r \<in> set rs. stop * GRANULE < run_offset r"
      using less.hyps [OF dec] stop by blast
    have runs: "page_set_runs_from s cursor = Some (r # rs)"
      using p rs(1) by (subst page_set_runs_from.simps) simp
    have range: "run_range r = {x. start \<le> x div GRANULE \<and> x div GRANULE < stop}"
      using o(2) by (auto simp: run_range_def r GRANULE_def less_eq_div_iff_mult_less_eq div_less_iff_less_mult
          diff_mult_distrib)
    have bytes: "c * GRANULE \<le> x \<longleftrightarrow> c \<le> x div GRANULE" for c x
      by (simp add: GRANULE_def less_eq_div_iff_mult_less_eq)
    have cover: "(\<Union>r \<in> set (r # rs). run_range r) = {x. cursor * GRANULE \<le> x \<and> x div GRANULE \<in> ps_set s}"
      unfolding list.set UN_insert rs(2) range bytes using t(1,2) o
      by (auto, (meson le_trans less_imp_le not_less)+)
    have end_r: "run_offset r + run_len r = stop * GRANULE" using o(2) by (simp add: r diff_mult_distrib)
    moreover have "stop * GRANULE \<le> ps_granules s * GRANULE" using o(3) by (rule mult_le_mono1)
    ultimately have "0 < run_len r \<and> GRANULE dvd run_offset r \<and> GRANULE dvd run_len r \<and>
         run_offset r + run_len r \<le> ps_granules s * GRANULE"
      using o(2) by (simp add: r GRANULE_def)
    moreover have "cursor * GRANULE < run_offset x" if "cursor \<notin> ps_set s" "x \<in> set (r # rs)" for x
    proof -
      have "cursor < start" using that(1) t(2) [of start] o by (metis le_neq_implies_less order_refl)
      then show ?thesis using that(2) rs(5) o by (fastforce simp: r GRANULE_def)
    qed
    ultimately show ?thesis using runs cover rs end_r by (auto intro!: exI [of _ "r # rs"])
  qed
qed

section \<open>Insertion and union\<close>

lemma bit_push_one: "i < 64 \<Longrightarrow> bit (push_bit r (1 :: u64)) i \<longleftrightarrow> i = r"
  by (auto simp: bit_simps)

lemma insert_granules_spec:
  assumes "sorted gs" and "\<And>g. g < granules \<Longrightarrow> g div 64 < length words"
  shows "\<exists>words'. insert_granules granules words gs = Some words' \<and> length words' = length words \<and>
    bm_set words' = bm_set words \<union> {g \<in> set gs. g < granules}"
  using assms
proof (induction gs arbitrary: words)
  case (Cons g gs)
  show ?case
  proof (cases "g < granules")
    case False
    then have "{x \<in> set (g # gs). x < granules} = {}" using Cons.prems(1) by auto
    then show ?thesis using False by auto
  next
    case True
    let ?words = "words[g div 64 := words ! (g div 64) OR push_bit (g mod 64) 1]"
    have set': "bm_set ?words = insert g (bm_set words)"
    proof (rule set_eqI)
      fix x
      have g: "g div 64 < length words" by (rule Cons.prems(2) [OF True])
      have "x div 64 = g div 64 \<Longrightarrow> x mod 64 = g mod 64 \<longleftrightarrow> x = g" by (metis div_mult_mod_eq)
      moreover have "bit (words ! (g div 64) OR push_bit (g mod 64) 1) (x mod 64) \<longleftrightarrow>
          bit (words ! (g div 64)) (x mod 64) \<or> x mod 64 = g mod 64"
        unfolding bit_or_iff by (subst bit_push_one) simp_all
      ultimately have "bm_test ?words x \<longleftrightarrow> x = g \<or> bm_test words x"
        unfolding bm_test_update [OF g] using g by (auto simp: bm_test_def bm_word_def)
      then show "x \<in> bm_set ?words \<longleftrightarrow> x \<in> insert g (bm_set words)"
        unfolding bm_set_def by blast
    qed
    obtain words' where w: "insert_granules granules ?words gs = Some words'"
      "length words' = length ?words" "bm_set words' = bm_set ?words \<union> {g \<in> set gs. g < granules}"
      using Cons.IH [of ?words] Cons.prems by auto
    then show ?thesis using True Cons.prems(2) set' by auto
  qed
qed simp

definition granules_touched :: "nat \<Rightarrow> nat \<Rightarrow> nat \<Rightarrow> nat set" where
  "granules_touched granules offset len =
     {g. g < granules \<and> offset div GRANULE \<le> g \<and> g \<le> saturating_add offset (max len 1 - 1) div GRANULE}"

lemma page_set_insert_range_spec:
  assumes "ps_inv s"
  shows "\<exists>s'. page_set_insert_range s offset len = Some s' \<and> ps_inv s' \<and>
    ps_granules s' = ps_granules s \<and>
    ps_set s' = ps_set s \<union> granules_touched (ps_granules s) offset len"
proof -
  let ?last = "saturating_add offset (max len 1 - 1) div GRANULE"
  let ?gs = "[offset div GRANULE..<Suc (min ?last (ps_granules s - 1))]"
  obtain words where w: "insert_granules (ps_granules s) (ps_words s) ?gs = Some words"
    "length words = length (ps_words s)"
    "bm_set words = bm_set (ps_words s) \<union> {g \<in> set ?gs. g < ps_granules s}"
    using insert_granules_spec [of ?gs "ps_granules s" "ps_words s"] granule_in_words [OF assms]
    by (auto simp del: upt_Suc)
  have "{g \<in> set ?gs. g < ps_granules s} = granules_touched (ps_granules s) offset len"
    unfolding granules_touched_def by auto
  then have "ps_set (s\<lparr>ps_words := words\<rparr>) = ps_set s \<union> granules_touched (ps_granules s) offset len"
    using w(3) by (simp add: ps_set_def)
  moreover from this have "ps_inv (s\<lparr>ps_words := words\<rparr>)"
    using assms w(2) by (auto simp: ps_inv_def granules_touched_def)
  ultimately show ?thesis using w(1) by (simp add: page_set_insert_range_def Let_def del: upt_Suc)
qed

interpretation ps: range_marks page_set_insert_range ps_inv ps_set ps_granules granules_touched
  by unfold_locales (rule page_set_insert_range_spec)

lemma union_words_spec:
  "union_words ws ws' = (rs, added) \<Longrightarrow>
     length rs = length ws \<and>
     (\<forall>g. bm_test rs g \<longleftrightarrow> bm_test ws g \<or> (g < 64 * length ws \<and> bm_test ws' g)) \<and>
     bm_count rs = bm_count ws + added"
proof (induction ws ws' arbitrary: rs added rule: union_words.induct)
  case (1 before ws w ws')
  obtain rest a where rec: "union_words ws ws' = (rest, a)" by fastforce
  note ih = "1.IH" [OF refl rec]
  have rs: "rs = (before OR w) # rest" "added = count_ones ((before OR w) AND NOT before) + a"
    using "1.prems" rec by (auto simp: Let_def)
  have "(before OR w) AND NOT before = w AND NOT before"
    by (rule bit_word_eqI) (auto simp: bit_simps)
  then have "bm_count rs = bm_count (before # ws) + added"
    using ih rs by (simp add: bm_count_def count_ones_or)
  moreover have "bm_test rs g \<longleftrightarrow> bm_test (before # ws) g \<or> (g < 64 * length (before # ws) \<and> bm_test (w # ws') g)" for g
  proof (cases "g < 64")
    case True
    then show ?thesis by (simp add: rs(1) bm_test_Cons bit_or_iff)
  next
    case False
    then have "g < 64 * length (before # ws) \<longleftrightarrow> g - 64 < 64 * length ws" by auto
    moreover have "bm_test rest (g - 64) \<longleftrightarrow> bm_test ws (g - 64) \<or> (g - 64 < 64 * length ws \<and> bm_test ws' (g - 64))"
      using ih by blast
    ultimately show ?thesis using False unfolding rs(1) bm_test_Cons by simp
  qed
  ultimately show ?case using ih rs(1) by simp
qed (auto simp: bm_count_def)

lemma page_set_union_from_spec:
  assumes "ps_inv s" and "ps_inv t" and "page_set_union_from s t = (s', added)"
    and "ps_granules t = ps_granules s"
  shows "ps_inv s'" and "ps_granules s' = ps_granules s" and "ps_set s' = ps_set s \<union> ps_set t"
    and "added = card (ps_set t - ps_set s)"
proof -
  obtain rs where u: "union_words (ps_words s) (ps_words t) = (rs, added)" "s' = s\<lparr>ps_words := rs\<rparr>"
    using assms(3) by (auto simp: page_set_union_from_def Let_def split: prod.splits)
  note sp = union_words_spec [OF u(1)]
  have len: "length (ps_words t) = length (ps_words s)" using assms by (simp add: ps_inv_def)
  show g: "ps_granules s' = ps_granules s" by (simp add: u(2))
  show un: "ps_set s' = ps_set s \<union> ps_set t"
    using sp bm_test_less [of "ps_words t"] len by (auto simp: u(2) ps_set_def bm_set_def)
  show "ps_inv s'" using assms un sp g by (auto simp: ps_inv_def u(2))
  have "card (ps_set s') = card (ps_set s) + added"
    using sp by (simp add: bm_count_card ps_set_def u(2))
  moreover have "card (ps_set s \<union> ps_set t) = card (ps_set s) + card (ps_set t - ps_set s)"
    by (subst card_Un_disjoint [symmetric]) (auto simp: Un_Diff_cancel)
  ultimately show "added = card (ps_set t - ps_set s)" using un by simp
qed

section \<open>The on-disk form\<close>

definition MAGIC :: bytes where
  "MAGIC = [0x46, 0x43, 0x56, 0x4D, 0x57, 0x53, 0x45, 0x54]"

definition VERSION :: nat where
  "VERSION = 1"

definition HEADER_LEN :: nat where
  "HEADER_LEN = 8 + 8 + 8 + 8 + 8 + 32"

definition MAX_MEM_LEN :: nat where
  "MAX_MEM_LEN = 2 ^ 40"

type_synonym image_key = bytes

definition page_set_encode :: "page_set \<Rightarrow> image_key \<Rightarrow> nat \<Rightarrow> bytes" where
  "page_set_encode s key mem_len =
     MAGIC @ le_bytes 8 VERSION @ le_bytes 8 GRANULE @ le_bytes 8 mem_len @
     le_bytes 8 (ps_granules s) @ key @ concat (map (\<lambda>w. le_bytes 8 (unat w)) (ps_words s))"

definition u64_at :: "bytes \<Rightarrow> nat \<Rightarrow> nat" where
  "u64_at buf off = of_le (take 8 (drop off buf))"

datatype reject = ShorterThanHeader | BadMagic | UnsupportedVersion | DifferentGranule
  | ImageSizeChanged | GranuleCountMismatch | KeyMismatch | TruncatedBitmap

text \<open>
  The slices are taken after the length checks, so each of them is in range.  The reason of a
  rejection is only logged by the source; here it is the left summand.
\<close>

definition page_set_decode :: "bytes \<Rightarrow> image_key \<Rightarrow> nat \<Rightarrow> reject + page_set" where
  "page_set_decode buf key mem_len =
     (if length buf < HEADER_LEN then Inl ShorterThanHeader
      else if take 8 buf \<noteq> MAGIC then Inl BadMagic
      else if u64_at buf 8 \<noteq> VERSION then Inl UnsupportedVersion
      else if u64_at buf 16 \<noteq> GRANULE then Inl DifferentGranule
      else if u64_at buf 24 \<noteq> mem_len then Inl ImageSizeChanged
      else let granules = u64_at buf 32
        in if granules \<noteq> div_ceil mem_len GRANULE then Inl GranuleCountMismatch
      else if take 32 (drop 40 buf) \<noteq> key then Inl KeyMismatch
      else let words = div_ceil granules 64
        in if length buf < HEADER_LEN + words * 8 then Inl TruncatedBitmap
      else let ws = map (\<lambda>i. word_of_nat (u64_at buf (HEADER_LEN + i * 8))) [0..<words];
               ws = (if granules mod 64 \<noteq> 0
                     then ws[words - 1 := ws ! (words - 1) AND drop_bit (64 - granules mod 64) (- 1)]
                     else ws)
        in Inr \<lparr>ps_granules = granules, ps_words = ws\<rparr>)"

lemma length_words_bytes: "length (concat (map (\<lambda>w. le_bytes 8 (unat w)) ws)) = 8 * length ws"
  by (induction ws) simp_all

lemma word_of_words_bytes:
  "i < length ws \<Longrightarrow>
     take 8 (drop (i * 8) (concat (map (\<lambda>w. le_bytes 8 (unat w)) ws))) = le_bytes 8 (unat (ws ! i))"
proof (induction ws arbitrary: i)
  case (Cons w ws)
  then show ?case by (cases i) simp_all
qed simp

lemma tail_mask:
  assumes "n mod 64 \<noteq> (0 :: nat)" and "i < 64"
  shows "bit (drop_bit (64 - n mod 64) (- 1 :: u64)) i \<longleftrightarrow> i < n mod 64"
  using assms by (auto simp: bit_simps)

lemma tail_word_below:
  assumes "ps_inv s" and "ps_granules s mod 64 \<noteq> 0"
  shows "0 < length (ps_words s)"
    and "ps_words s ! (length (ps_words s) - 1) AND drop_bit (64 - ps_granules s mod 64) (- 1)
       = ps_words s ! (length (ps_words s) - 1)"
proof -
  let ?n = "ps_granules s" and ?l = "length (ps_words s) - 1"
  have len: "length (ps_words s) = ?n div 64 + 1" using assms by (simp add: ps_inv_def div_ceil_def)
  then show "0 < length (ps_words s)" by simp
  show "ps_words s ! ?l AND drop_bit (64 - ?n mod 64) (- 1) = ps_words s ! ?l"
  proof (rule bit_word_eqI)
    fix i :: nat
    assume "i < LENGTH(64)"
    then have i: "i < 64" by simp
    have "i < ?n mod 64" if b: "bit (ps_words s ! ?l) i"
    proof -
      have "bm_test (ps_words s) (64 * ?l + i)" using b len i by (simp add: bm_test_in_word)
      then have "64 * ?l + i < ?n" using assms(1) by (auto simp: ps_inv_def ps_set_def bm_set_def)
      then show ?thesis using len by (simp add: modulo_nat_def)
    qed
    then show "bit (ps_words s ! ?l AND drop_bit (64 - ?n mod 64) (- 1)) i = bit (ps_words s ! ?l) i"
      unfolding bit_and_iff tail_mask [OF assms(2) i] by blast
  qed
qed

lemma u64_at_encode:
  assumes "length key = 32"
  shows "take 8 (page_set_encode s key n) = MAGIC"
    and "u64_at (page_set_encode s key n) 8 = of_le (le_bytes 8 VERSION)"
    and "u64_at (page_set_encode s key n) 16 = of_le (le_bytes 8 GRANULE)"
    and "u64_at (page_set_encode s key n) 24 = of_le (le_bytes 8 n)"
    and "u64_at (page_set_encode s key n) 32 = of_le (le_bytes 8 (ps_granules s))"
    and "take 32 (drop 40 (page_set_encode s key n)) = key"
    and "length (page_set_encode s key n) = HEADER_LEN + 8 * length (ps_words s)"
    and "i < length (ps_words s) \<Longrightarrow> u64_at (page_set_encode s key n) (HEADER_LEN + i * 8) = of_le (le_bytes 8 (unat (ps_words s ! i)))"
proof -
  let ?ws = "concat (map (\<lambda>w. le_bytes 8 (unat w)) (ps_words s))"
  have m: "length MAGIC = 8" by (simp add: MAGIC_def)
  show "take 8 (page_set_encode s key n) = MAGIC"
    "u64_at (page_set_encode s key n) 8 = of_le (le_bytes 8 VERSION)"
    "u64_at (page_set_encode s key n) 16 = of_le (le_bytes 8 GRANULE)"
    "u64_at (page_set_encode s key n) 24 = of_le (le_bytes 8 n)"
    "u64_at (page_set_encode s key n) 32 = of_le (le_bytes 8 (ps_granules s))"
    "take 32 (drop 40 (page_set_encode s key n)) = key"
    "length (page_set_encode s key n) = HEADER_LEN + 8 * length (ps_words s)"
    using assms by (simp_all add: page_set_encode_def u64_at_def m length_words_bytes HEADER_LEN_def)
  have "drop (HEADER_LEN + i * 8) (page_set_encode s key n) = drop (i * 8) ?ws"
    using assms by (simp add: page_set_encode_def m HEADER_LEN_def)
  then show "i < length (ps_words s) \<Longrightarrow>
      u64_at (page_set_encode s key n) (HEADER_LEN + i * 8) = of_le (le_bytes 8 (unat (ps_words s ! i)))"
    by (simp add: u64_at_def word_of_words_bytes)
qed

lemma page_set_round_trip:
  assumes "ps_inv s" and "ps_granules s = div_ceil mem_len GRANULE" and "length key = 32" and "mem_len < 2 ^ 64"
  shows "page_set_decode (page_set_encode s key mem_len) key mem_len = Inr s"
proof -
  note at = u64_at_encode [OF assms(3), where s = s and n = mem_len]
  have gr: "ps_granules s \<le> mem_len"
    unfolding assms(2) by (subst div_ceil_le_iff) (simp_all add: GRANULE_def)
  have nums: "of_le (le_bytes 8 VERSION) = VERSION" "of_le (le_bytes 8 GRANULE) = GRANULE"
    "of_le (le_bytes 8 mem_len) = mem_len" "of_le (le_bytes 8 (ps_granules s)) = ps_granules s"
    using assms(4) gr by (simp_all add: of_le_round_trip VERSION_def GRANULE_def)
  have len: "length (ps_words s) = div_ceil (ps_granules s) 64" using assms(1) by (simp add: ps_inv_def)
  have ws: "map (\<lambda>i. word_of_nat (u64_at (page_set_encode s key mem_len) (HEADER_LEN + i * 8)))
      [0..<length (ps_words s)] = ps_words s"
    by (rule nth_equalityI) (simp_all add: at(8) u64_le_round_trip)
  have tail: "(if ps_granules s mod 64 \<noteq> 0
      then (ps_words s)[length (ps_words s) - 1 := ps_words s ! (length (ps_words s) - 1) AND
             drop_bit (64 - ps_granules s mod 64) (- 1)]
      else ps_words s) = ps_words s"
  proof (cases "ps_granules s mod 64 = 0")
    case False
    show ?thesis unfolding tail_word_below(2) [OF assms(1) False] by simp
  qed simp
  show ?thesis
    unfolding page_set_decode_def Let_def at(1-7) nums len [symmetric] ws tail
    using assms(2) by (simp add: HEADER_LEN_def)
qed

lemma page_set_decode_inv:
  assumes "page_set_decode buf key mem_len = Inr s"
  shows "ps_inv s" and "ps_granules s = div_ceil mem_len GRANULE" and "take 32 (drop 40 buf) = key"
proof -
  define n where "n = u64_at buf 32"
  define raw :: "u64 list" where
    "raw = map (\<lambda>i. word_of_nat (u64_at buf (HEADER_LEN + i * 8))) [0..<div_ceil n 64]"
  define ws where "ws = (if n mod 64 \<noteq> 0
      then raw[div_ceil n 64 - 1 := raw ! (div_ceil n 64 - 1) AND drop_bit (64 - n mod 64) (- 1)] else raw)"
  have s: "s = \<lparr>ps_granules = n, ps_words = ws\<rparr>" and n: "n = div_ceil mem_len GRANULE"
    and k: "take 32 (drop 40 buf) = key"
    using assms unfolding page_set_decode_def Let_def n_def [symmetric] raw_def [symmetric] ws_def [symmetric]
    by (simp_all split: if_splits)
  show "ps_granules s = div_ceil mem_len GRANULE" using n by (simp add: s)
  show "take 32 (drop 40 buf) = key" by (rule k)
  have len: "length raw = div_ceil n 64" "length ws = div_ceil n 64" by (simp_all add: raw_def ws_def)
  have "g < n" if t: "bm_test ws g" for g
  proof (cases "n mod 64 = 0")
    case True
    then have "64 * div_ceil n 64 = n" by (auto simp: div_ceil_def)
    then show ?thesis using bm_test_less [OF t] len(2) by simp
  next
    case False
    then have l: "div_ceil n 64 = n div 64 + 1" by (simp add: div_ceil_def)
    have "g < 64 * (n div 64 + 1)" using bm_test_less [OF t] len(2) l by simp
    then have g: "g div 64 \<le> n div 64" by (simp add: div_less_iff_less_mult flip: less_Suc_eq_le)
    show ?thesis
    proof (cases "g div 64 = n div 64")
      case last: True
      have "n div 64 < length raw" using len(1) l by simp
      then have "bit (raw ! (n div 64) AND drop_bit (64 - n mod 64) (- 1)) (g mod 64)"
        using t False last l by (simp add: ws_def bm_test_update)
      then have "g mod 64 < n mod 64" unfolding bit_and_iff by (subst (asm) tail_mask [OF False]) simp_all
      then show ?thesis using last by (metis div_mult_mod_eq nat_add_left_cancel_less)
    next
      case False
      then show ?thesis using g by (metis div_le_mono leI le_antisym)
    qed
  qed
  then show "ps_inv s" using len(2) by (auto simp: ps_inv_def ps_set_def bm_set_def s)
qed

section \<open>What recording and replay rely on\<close>

text \<open>The granules an insertion marks are those in which the range has a byte.\<close>

lemma granules_touched_range:
  assumes "mem_len \<le> u64_max" "0 < len"
  shows "granules_touched (div_ceil mem_len GRANULE) offset len =
    {g. g < div_ceil mem_len GRANULE \<and> (\<exists>y. offset \<le> y \<and> y < offset + len \<and> y div GRANULE = g)}"
proof (intro equalityI subsetI)
  fix g assume "g \<in> granules_touched (div_ceil mem_len GRANULE) offset len"
  then have g: "g < div_ceil mem_len GRANULE" "offset div GRANULE \<le> g" "g \<le> saturating_add offset (max len 1 - 1) div GRANULE"
    by (simp_all add: granules_touched_def)
  have "saturating_add offset (max len 1 - 1) \<le> offset + len - 1" using assms(2) by (simp add: saturating_add_def)
  then have "g \<le> (offset + len - 1) div GRANULE" using g(3) div_le_mono le_trans by blast
  then have "g * GRANULE \<le> offset + len - 1" by (simp add: GRANULE_def less_eq_div_iff_mult_less_eq)
  then have "offset \<le> max offset (g * GRANULE)" "max offset (g * GRANULE) < offset + len" using assms(2) by auto
  moreover have "max offset (g * GRANULE) div GRANULE = g"
    using g(2) by (auto simp: max_def GRANULE_def less_eq_div_iff_mult_less_eq intro: antisym)
  ultimately show "g \<in> {g. g < div_ceil mem_len GRANULE \<and> (\<exists>y. offset \<le> y \<and> y < offset + len \<and> y div GRANULE = g)}"
    using g(1) by blast
next
  fix g assume "g \<in> {g. g < div_ceil mem_len GRANULE \<and> (\<exists>y. offset \<le> y \<and> y < offset + len \<and> y div GRANULE = g)}"
  then obtain y where y: "g < div_ceil mem_len GRANULE" "offset \<le> y" "y < offset + len" "y div GRANULE = g" by blast
  have "div_ceil mem_len GRANULE \<le> 2 ^ 52"
    using assms(1) unfolding div_ceil_def GRANULE_def u64_max_def by simp linarith
  then have "y div GRANULE < 2 ^ 52" using y(1,4) by simp
  then have "y < 2 ^ 64" by (simp add: GRANULE_def div_less_iff_less_mult)
  then have "y \<le> saturating_add offset (max len 1 - 1)" using y(2,3) by (auto simp: saturating_add_def u64_max_def max_def)
  then show "g \<in> granules_touched (div_ceil mem_len GRANULE) offset len"
    using y by (auto simp: granules_touched_def intro: div_le_mono)
qed

text \<open>
  Claim C2.  What a clone touched is what is replayed: recording any list of non-empty ranges
  \<open>[offset, offset + len)\<close> into an empty set and then coalescing it, with no word indexed out of range on
  the way, yields runs that together are exactly the bytes of those granules of the image in which some
  recorded range has a byte; the runs are in order and separated by at least one byte that is not in the
  set, so they are as few as possible; and each is non-empty, granule aligned and inside the image rounded
  up to a granule.
\<close>

theorem page_set_runs_exact:
  assumes "mem_len \<le> u64_max" and "\<forall>(offset, len) \<in> set rs. 0 < len"
  shows "\<exists>s runs. try_fold (\<lambda>s (offset, len). page_set_insert_range s offset len) (page_set_empty mem_len) rs = Some s \<and>
    page_set_runs s = Some runs \<and>
    (\<Union>r \<in> set runs. run_range r) =
      {x. x div GRANULE < div_ceil mem_len GRANULE \<and>
          (\<exists>(offset, len) \<in> set rs. \<exists>y. offset \<le> y \<and> y < offset + len \<and> y div GRANULE = x div GRANULE)} \<and>
    sorted_wrt (\<lambda>a b. run_offset a + run_len a < run_offset b) runs \<and>
    (\<forall>r \<in> set runs. 0 < run_len r \<and> GRANULE dvd run_offset r \<and> GRANULE dvd run_len r \<and>
       run_offset r + run_len r \<le> next_multiple_of mem_len GRANULE)"
proof -
  obtain s where s: "try_fold (\<lambda>s (offset, len). page_set_insert_range s offset len) (page_set_empty mem_len) rs = Some s"
    "ps_inv s" "ps_granules s = div_ceil mem_len GRANULE"
    "ps_set s = (\<Union>(offset, len) \<in> set rs. granules_touched (div_ceil mem_len GRANULE) offset len)"
    using ps.mark_all [OF ps_inv_empty, of mem_len rs] by (auto simp: ps_set_empty ps_granules_empty)
  obtain runs where r: "page_set_runs s = Some runs"
    "(\<Union>r \<in> set runs. run_range r) = {x. x div GRANULE \<in> ps_set s}"
    "sorted_wrt (\<lambda>a b. run_offset a + run_len a < run_offset b) runs"
    "\<forall>r \<in> set runs. 0 < run_len r \<and> GRANULE dvd run_offset r \<and> GRANULE dvd run_len r \<and>
       run_offset r + run_len r \<le> ps_granules s * GRANULE"
    using page_set_runs_from_spec [OF s(2), of 0] unfolding page_set_runs_def by auto
  have t: "granules_touched (div_ceil mem_len GRANULE) offset len =
      {g. g < div_ceil mem_len GRANULE \<and> (\<exists>y. offset \<le> y \<and> y < offset + len \<and> y div GRANULE = g)}"
    if "(offset, len) \<in> set rs" for offset len
    using that assms by (intro granules_touched_range) auto
  have "g \<in> ps_set s \<longleftrightarrow> g < div_ceil mem_len GRANULE \<and>
      (\<exists>(offset, len) \<in> set rs. \<exists>y. offset \<le> y \<and> y < offset + len \<and> y div GRANULE = g)" for g
    unfolding s(4) using t by fastforce
  then show ?thesis using s(1,3) r by (simp add: next_multiple_of_def)
qed

theorem page_set_runs_exact_witness:
  "\<exists>s runs. page_set_insert_range (page_set_empty 20000) 4096 8192 = Some s \<and> page_set_runs s = Some runs \<and>
     5000 \<in> (\<Union>r \<in> set runs. run_range r) \<and> 4000 \<notin> (\<Union>r \<in> set runs. run_range r)"
proof -
  obtain s runs where s: "page_set_insert_range (page_set_empty 20000) 4096 8192 = Some s"
      "page_set_runs s = Some runs"
    and cover: "(\<Union>r \<in> set runs. run_range r) =
      {x. x div GRANULE < div_ceil 20000 GRANULE \<and>
          (\<exists>(offset, len) \<in> {(4096, 8192)}. \<exists>y. offset \<le> y \<and> y < offset + len \<and> y div GRANULE = x div GRANULE)}"
    using page_set_runs_exact [of 20000 "[(4096, 8192)]"] by (auto simp: u64_max_def split: bind_splits)
  have "5000 \<in> (\<Union>r \<in> set runs. run_range r)"
    unfolding cover by (auto simp: GRANULE_def div_ceil_def intro!: exI [of _ 5000])
  moreover have "4000 \<notin> (\<Union>r \<in> set runs. run_range r)"
    unfolding cover by (auto simp: GRANULE_def)
  ultimately show ?thesis using s by blast
qed

text \<open>
  Claim C8.  The on-disk form keeps the set and nothing on disk can make a bad one: decoding what
  was encoded for the same image gives the set back, and whatever bytes are on disk, a set that is
  accepted carries the key of the image it is opened for and satisfies the invariant, so no run of
  it lies outside the image.
\<close>

theorem page_set_codec:
  assumes "ps_inv s" and "ps_granules s = div_ceil mem_len GRANULE" and "length key = 32" and "mem_len < 2 ^ 64"
  shows "page_set_decode (page_set_encode s key mem_len) key mem_len = Inr s \<and>
    (\<forall>buf t. page_set_decode buf key mem_len = Inr t \<longrightarrow>
       take 32 (drop 40 buf) = key \<and> ps_inv t \<and> ps_granules t = div_ceil mem_len GRANULE)"
  using page_set_round_trip [OF assms] page_set_decode_inv by blast

theorem page_set_codec_witness:
  "page_set_decode (page_set_encode (page_set_empty 8192) (replicate 32 7) 8192) (replicate 32 7) 8192
     = Inr (page_set_empty 8192)"
  using page_set_codec [OF ps_inv_empty ps_granules_empty, of "replicate 32 7" 8192] by simp

end
