(* ===== verification/Uffd_Set_Store.thy ===== *)
theory Uffd_Set_Store
  imports Uffd_Working_Set
begin

text \<open>
  The store that keeps a working set beside its snapshot (\<open>WorkingSetStore\<close> and
  \<open>WorkingSetPersistence\<close> of \<open>src/uffd/working_set.rs\<close>): opening, seeding, merging what clones
  touched, publishing, and the worker behind the one-entry queue.

  SHA-256 is a parameter; the file system is a record of what the store reads and may replace; a
  lock or a write that fails is an input of the step it fails in.
\<close>

section \<open>The store beside a snapshot\<close>

datatype file_read = NotFound | ReadError | Contents bytes

text \<open>The part of the file system a store sees: the generation's config, the length and times of
  the memory image, and the recorded set.\<close>

record snapshot_files =
  sf_config :: "bytes option"
  sf_meta :: "(nat \<times> int \<times> int) option"
  sf_sidecar :: file_read

record working_set_store =
  st_key :: image_key
  st_mem_len :: nat
  st_config_digest :: bytes
  st_known :: page_set

record merge_outcome =
  mo_total :: nat
  mo_added :: nat
  mo_persisted :: bool
  mo_superseded :: bool

datatype store_error = TooLarge nat | GenerationLock | ConfigUnreadable | StatFailed
  | SidecarLock | WriteFailed | Contended

datatype lock_result = Locked | WouldBlock | LockFailed

definition i64_le_bytes :: "int \<Rightarrow> bytes" where
  "i64_le_bytes x = le_bytes 8 (nat (x mod 2 ^ 64))"

definition image_key_of :: "(bytes \<Rightarrow> bytes) \<Rightarrow> snapshot_files \<Rightarrow> bytes \<Rightarrow> image_key option" where
  "image_key_of sha256 files config_digest =
     map_option (\<lambda>(len, mtime, mtime_nsec).
       sha256 (config_digest @ le_bytes 8 len @ i64_le_bytes mtime @ i64_le_bytes mtime_nsec)) (sf_meta files)"

definition image_key_of_generation :: "(bytes \<Rightarrow> bytes) \<Rightarrow> snapshot_files \<Rightarrow> store_error + image_key" where
  "image_key_of_generation sha256 files =
     (case sf_config files of
        None \<Rightarrow> Inl ConfigUnreadable
      | Some config \<Rightarrow>
          (case image_key_of sha256 files (sha256 config) of None \<Rightarrow> Inl StatFailed | Some k \<Rightarrow> Inr k))"

definition read_set :: "file_read \<Rightarrow> image_key \<Rightarrow> nat \<Rightarrow> page_set option" where
  "read_set sidecar key mem_len =
     (let granules = div_ceil mem_len GRANULE;
          bitmap_bytes = saturating_mul (div_ceil granules 64) 8;
          max_len = saturating_add HEADER_LEN bitmap_bytes
      in case sidecar of
           NotFound \<Rightarrow> None
         | ReadError \<Rightarrow> None
         | Contents file \<Rightarrow>
             (let buf = take (saturating_add max_len 1) file
              in if length buf > max_len then None
                 else case page_set_decode buf key mem_len of Inl _ \<Rightarrow> None | Inr s \<Rightarrow> Some s))"

text \<open>Writing goes to a temporary file that is renamed over the sidecar last, so a write that fails
  leaves the sidecar as it was.\<close>

definition write_set :: "bool \<Rightarrow> snapshot_files \<Rightarrow> page_set \<Rightarrow> image_key \<Rightarrow> nat \<Rightarrow> bool \<times> snapshot_files" where
  "write_set io_ok files s key mem_len =
     (if io_ok then (True, files\<lparr>sf_sidecar := Contents (page_set_encode s key mem_len)\<rparr>)
      else (False, files))"

definition hint_covers_most_of_the_image :: "nat \<Rightarrow> nat \<Rightarrow> bool" where
  "hint_covers_most_of_the_image hint_bytes mem_len \<longleftrightarrow> hint_bytes > mem_len div 2"

definition store_open ::
  "(bytes \<Rightarrow> bytes) \<Rightarrow> bool \<Rightarrow> snapshot_files \<Rightarrow> nat \<Rightarrow> store_error + working_set_store" where
  "store_open sha256 locked files mem_len =
     (if mem_len > MAX_MEM_LEN then Inl (TooLarge mem_len)
      else if \<not> locked then Inl GenerationLock
      else case sf_config files of
        None \<Rightarrow> Inl ConfigUnreadable
      | Some config \<Rightarrow>
          (case image_key_of sha256 files (sha256 config) of
             None \<Rightarrow> Inl StatFailed
           | Some key \<Rightarrow> Inr
               \<lparr>st_key = key, st_mem_len = mem_len, st_config_digest = sha256 config,
                st_known = (case read_set (sf_sidecar files) key mem_len of
                              Some s \<Rightarrow> s | None \<Rightarrow> page_set_empty mem_len)\<rparr>))"

definition seed_held_generation ::
  "(bytes \<Rightarrow> bytes) \<Rightarrow> bool \<Rightarrow> bool \<Rightarrow> snapshot_files \<Rightarrow> nat \<Rightarrow> page_set \<Rightarrow>
     (store_error + unit) \<times> snapshot_files" where
  "seed_held_generation sha256 locked io_ok files mem_len s =
     (if mem_len > MAX_MEM_LEN then (Inl (TooLarge mem_len), files)
      else case image_key_of_generation sha256 files of
        Inl e \<Rightarrow> (Inl e, files)
      | Inr key \<Rightarrow>
          if \<not> locked then (Inl SidecarLock, files)
          else (case write_set io_ok files s key mem_len of
              (ok, files) \<Rightarrow> (if ok then Inr () else Inl WriteFailed, files)))"

definition to_prefetch :: "working_set_store \<Rightarrow> page_set" where
  "to_prefetch st = st_known st"

definition recorder :: "working_set_store \<Rightarrow> page_set" where
  "recorder st = page_set_empty (st_mem_len st)"

definition remember :: "working_set_store \<Rightarrow> page_set \<Rightarrow> working_set_store \<times> nat" where
  "remember st observed =
     (case page_set_union_from (st_known st) observed of (known, added) \<Rightarrow> (st\<lparr>st_known := known\<rparr>, added))"

definition image_is_still_ours :: "(bytes \<Rightarrow> bytes) \<Rightarrow> working_set_store \<Rightarrow> snapshot_files \<Rightarrow> bool" where
  "image_is_still_ours sha256 st files =
     (case sf_config files of
        None \<Rightarrow> False
      | Some config \<Rightarrow>
          if sha256 config \<noteq> st_config_digest st then False
          else (case image_key_of sha256 files (sha256 config) of
              Some now \<Rightarrow> now = st_key st
            | None \<Rightarrow> False))"

text \<open>
  Publication: \<open>known\<close> is the clone of the union taken first.  The result is what the caller gets,
  the merged set that is folded back into the union (absent when a lock failed), and the files.
\<close>

definition merge_publish ::
  "(bytes \<Rightarrow> bytes) \<Rightarrow> bool \<Rightarrow> lock_result \<Rightarrow> bool \<Rightarrow> working_set_store \<Rightarrow> page_set \<Rightarrow> page_set \<Rightarrow> bool \<Rightarrow>
     snapshot_files \<Rightarrow> (store_error + merge_outcome option) \<times> page_set option \<times> snapshot_files" where
  "merge_publish sha256 generation_locked sidecar_lock io_ok st known observed nonblocking files =
     (if \<not> generation_locked then (Inl GenerationLock, None, files)
      else case sidecar_lock of
        WouldBlock \<Rightarrow> (if nonblocking then Inr None else Inl SidecarLock, None, files)
      | LockFailed \<Rightarrow> (Inl SidecarLock, None, files)
      | Locked \<Rightarrow>
          (let on_disk = read_set (sf_sidecar files) (st_key st) (st_mem_len st);
               disk_len = (case on_disk of None \<Rightarrow> 0 | Some disk \<Rightarrow> page_set_len disk);
               merged = (case on_disk of None \<Rightarrow> known | Some disk \<Rightarrow> fst (page_set_union_from known disk));
               (merged, added) = page_set_union_from merged observed;
               total = page_set_len merged;
               superseded = (\<not> image_is_still_ours sha256 st files);
               persisted = (total > disk_len \<and> \<not> superseded);
               (ok, files) = (if persisted then write_set io_ok files merged (st_key st) (st_mem_len st)
                              else (True, files))
           in (if ok then Inr (Some \<lparr>mo_total = total, mo_added = added, mo_persisted = persisted,
                                    mo_superseded = superseded\<rparr>)
               else Inl WriteFailed, Some merged, files)))"

definition merge_and_persist_inner ::
  "(bytes \<Rightarrow> bytes) \<Rightarrow> bool \<Rightarrow> lock_result \<Rightarrow> bool \<Rightarrow> working_set_store \<Rightarrow> page_set \<Rightarrow> bool \<Rightarrow>
     snapshot_files \<Rightarrow> (store_error + merge_outcome option) \<times> working_set_store \<times> snapshot_files" where
  "merge_and_persist_inner sha256 generation_locked sidecar_lock io_ok st observed nonblocking files =
     (case merge_publish sha256 generation_locked sidecar_lock io_ok st (st_known st) observed nonblocking files of
        (result, None, files) \<Rightarrow> (result, st, files)
      | (result, Some merged, files) \<Rightarrow> (result, fst (remember st merged), files))"

definition merge_and_persist ::
  "(bytes \<Rightarrow> bytes) \<Rightarrow> bool \<Rightarrow> lock_result \<Rightarrow> bool \<Rightarrow> working_set_store \<Rightarrow> page_set \<Rightarrow>
     snapshot_files \<Rightarrow> (store_error + merge_outcome) \<times> working_set_store \<times> snapshot_files" where
  "merge_and_persist sha256 generation_locked sidecar_lock io_ok st observed files =
     (case merge_and_persist_inner sha256 generation_locked sidecar_lock io_ok st observed False files of
        (Inl e, st, files) \<Rightarrow> (Inl e, st, files)
      | (Inr None, st, files) \<Rightarrow> (Inl Contended, st, files)
      | (Inr (Some outcome), st, files) \<Rightarrow> (Inr outcome, st, files))"

definition try_persist_known ::
  "(bytes \<Rightarrow> bytes) \<Rightarrow> bool \<Rightarrow> lock_result \<Rightarrow> bool \<Rightarrow> working_set_store \<Rightarrow>
     snapshot_files \<Rightarrow> (store_error + merge_outcome option) \<times> working_set_store \<times> snapshot_files" where
  "try_persist_known sha256 generation_locked sidecar_lock io_ok st files =
     merge_and_persist_inner sha256 generation_locked sidecar_lock io_ok st
       (page_set_empty (st_mem_len st)) True files"

section \<open>What a store denotes\<close>

definition set_for :: "nat \<Rightarrow> page_set \<Rightarrow> bool" where
  "set_for mem_len s \<longleftrightarrow> ps_inv s \<and> ps_granules s = div_ceil mem_len GRANULE"

definition store_inv :: "working_set_store \<Rightarrow> bool" where
  "store_inv st \<longleftrightarrow> set_for (st_mem_len st) (st_known st) \<and> st_mem_len st \<le> MAX_MEM_LEN \<and> length (st_key st) = 32"

definition disk_set :: "working_set_store \<Rightarrow> snapshot_files \<Rightarrow> nat set" where
  "disk_set st files =
     (case read_set (sf_sidecar files) (st_key st) (st_mem_len st) of None \<Rightarrow> {} | Some s \<Rightarrow> ps_set s)"

lemma set_for_empty: "set_for mem_len (page_set_empty mem_len)"
  by (simp add: set_for_def ps_inv_empty ps_granules_empty)

lemma set_for_union:
  assumes "set_for n s" and "set_for n t"
  shows "set_for n (fst (page_set_union_from s t))"
    and "ps_set (fst (page_set_union_from s t)) = ps_set s \<union> ps_set t"
    and "snd (page_set_union_from s t) = card (ps_set t - ps_set s)"
proof -
  obtain u a where u: "page_set_union_from s t = (u, a)" by fastforce
  have inv: "ps_inv s" "ps_inv t" "ps_granules t = ps_granules s" using assms by (simp_all add: set_for_def)
  note un = page_set_union_from_spec [OF inv(1,2) u inv(3)]
  show "set_for n (fst (page_set_union_from s t))"
    and "ps_set (fst (page_set_union_from s t)) = ps_set s \<union> ps_set t"
    and "snd (page_set_union_from s t) = card (ps_set t - ps_set s)"
    using un assms by (simp_all add: u set_for_def)
qed

lemma read_set_for: "read_set sidecar key n = Some s \<Longrightarrow> set_for n s"
  by (auto simp: read_set_def Let_def set_for_def dest: page_set_decode_inv(1,2)
      split: file_read.splits if_splits sum.splits)

lemma read_written:
  assumes "set_for n s" and "length key = 32" and "n \<le> MAX_MEM_LEN"
  shows "read_set (Contents (page_set_encode s key n)) key n = Some s"
proof -
  have n: "n < 2 ^ 64" using assms(3) by (simp add: MAX_MEM_LEN_def)
  have len: "length (page_set_encode s key n) = HEADER_LEN + 8 * div_ceil (div_ceil n GRANULE) 64"
    using u64_at_encode(7) [OF assms(2), of s n] assms(1) by (simp add: set_for_def ps_inv_def)
  have "div_ceil k 64 \<le> k" "div_ceil k GRANULE \<le> k" for k
    by (simp_all add: div_ceil_le_iff GRANULE_def)
  then have "div_ceil (div_ceil n GRANULE) 64 \<le> n" by (meson le_trans)
  then have "HEADER_LEN + 8 * div_ceil (div_ceil n GRANULE) 64 < u64_max"
    using assms(3) by (simp add: HEADER_LEN_def MAX_MEM_LEN_def u64_max_def)
  then show ?thesis
    using len page_set_round_trip [OF _ _ assms(2) n, of s] assms(1)
    by (simp add: read_set_def Let_def set_for_def saturating_mul_def saturating_add_def mult.commute)
qed

text \<open>The publication with its locks taken: what it merged, what the caller learns, what is on disk.\<close>

lemma finite_disk_set [simp]: "finite (disk_set st files)"
  by (simp add: disk_set_def split: option.split)

lemma merge_publish_locked:
  assumes st: "set_for (st_mem_len st) known" "set_for (st_mem_len st) observed"
      "st_mem_len st \<le> MAX_MEM_LEN" "length (st_key st) = 32"
    and ours_def: "ours = image_is_still_ours sha256 st files"
  shows "\<exists>merged. set_for (st_mem_len st) merged \<and>
    ps_set merged = ps_set known \<union> disk_set st files \<union> ps_set observed \<and>
    (let news = (disk_set st files \<noteq> ps_set merged);
         files' = (if ours \<and> news \<and> io_ok
                   then files\<lparr>sf_sidecar := Contents (page_set_encode merged (st_key st) (st_mem_len st))\<rparr>
                   else files)
     in merge_publish sha256 True Locked io_ok st known observed nb files =
       (if ours \<and> news \<and> \<not> io_ok then Inl WriteFailed
        else Inr (Some \<lparr>mo_total = card (ps_set merged),
               mo_added = card (ps_set observed - (ps_set known \<union> disk_set st files)),
               mo_persisted = (news \<and> ours), mo_superseded = (\<not> ours)\<rparr>), Some merged, files'))"
proof -
  define on_disk where "on_disk = read_set (sf_sidecar files) (st_key st) (st_mem_len st)"
  define base where "base = (case on_disk of None \<Rightarrow> known | Some disk \<Rightarrow> fst (page_set_union_from known disk))"
  define merged where "merged = fst (page_set_union_from base observed)"
  have disk: "set_for (st_mem_len st) d" if "on_disk = Some d" for d
    using that read_set_for by (simp add: on_disk_def)
  have base: "set_for (st_mem_len st) base" "ps_set base = ps_set known \<union> disk_set st files"
    using st(1) set_for_union [OF st(1) disk]
    by (simp_all add: base_def disk_set_def on_disk_def [symmetric] split: option.split)
  note un = set_for_union [OF base(1) st(2)]
  have merged: "set_for (st_mem_len st) merged"
    "ps_set merged = ps_set known \<union> disk_set st files \<union> ps_set observed"
    "page_set_union_from base observed = (merged, card (ps_set observed - (ps_set known \<union> disk_set st files)))"
    using un base(2) by (auto simp: merged_def prod_eq_iff)
  have dl: "(case on_disk of None \<Rightarrow> 0 | Some disk \<Rightarrow> page_set_len disk) = card (disk_set st files)"
    by (simp add: disk_set_def on_disk_def [symmetric] page_set_len_card split: option.split)
  have "disk_set st files \<subseteq> ps_set merged" using merged(2) by blast
  then have news: "card (disk_set st files) < card (ps_set merged) \<longleftrightarrow> disk_set st files \<noteq> ps_set merged"
    by (metis card_mono card_subset_eq finite_ps_set le_neq_implies_less less_irrefl)
  show ?thesis
    using merged(1,2) dl news
    unfolding merge_publish_def on_disk_def [symmetric] base_def [symmetric] Let_def merged(3)
    by (intro exI [of _ merged]) (simp add: merged(3) page_set_len_card write_set_def ours_def)
qed

lemma disk_set_written:
  "set_for (st_mem_len st) s \<Longrightarrow> st_mem_len st \<le> MAX_MEM_LEN \<Longrightarrow> length (st_key st) = 32 \<Longrightarrow>
     disk_set st (files\<lparr>sf_sidecar := Contents (page_set_encode s (st_key st) (st_mem_len st))\<rparr>) = ps_set s"
  by (simp add: disk_set_def read_written)

lemma store_inv_remember:
  assumes "store_inv st" and "set_for (st_mem_len st) s"
  shows "store_inv (fst (remember st s))"
    and "ps_set (st_known (fst (remember st s))) = ps_set (st_known st) \<union> ps_set s"
    and "st_key (fst (remember st s)) = st_key st" and "st_mem_len (fst (remember st s)) = st_mem_len st"
proof -
  have eq: "fst (remember st s) = st\<lparr>st_known := fst (page_set_union_from (st_known st) s)\<rparr>"
    by (simp add: remember_def split_beta)
  have "set_for (st_mem_len st) (st_known st)" using assms(1) by (simp add: store_inv_def)
  note un = set_for_union [OF this assms(2)]
  show "store_inv (fst (remember st s))"
    and "ps_set (st_known (fst (remember st s))) = ps_set (st_known st) \<union> ps_set s"
    and "st_key (fst (remember st s)) = st_key st" and "st_mem_len (fst (remember st s)) = st_mem_len st"
    using assms(1) un(1,2) by (simp_all add: eq store_inv_def)
qed

text \<open>
  Claim C5.  A merge is a union that never damages another generation's record.  Whatever the locks
  and the write do, the store stays well formed, learns nothing that nobody observed and forgets
  nothing; the sidecar is replaced only while the image at the path is still the one served, and
  then holds the union of what was known, what was on disk and what this clone observed.  When the
  merge returns an outcome, it reports the size of that union and the number of granules this clone
  added; it is persisted exactly when the union outgrew the disk and the image is still ours; and
  unless superseded, the disk holds the store's whole union afterwards.
\<close>

theorem merge_and_persist_correct:
  assumes inv: "store_inv st" and obs: "set_for (st_mem_len st) observed"
    and run: "merge_and_persist sha256 generation_locked sidecar_lock io_ok st observed files = (result, st', files')"
    and everything_def: "everything = ps_set (st_known st) \<union> disk_set st files \<union> ps_set observed"
  shows "store_inv st' \<and>
    ps_set (st_known st) \<subseteq> ps_set (st_known st') \<and> ps_set (st_known st') \<subseteq> everything \<and>
    (files' \<noteq> files \<longrightarrow> image_is_still_ours sha256 st files \<and>
       files' = files\<lparr>sf_sidecar := sf_sidecar files'\<rparr> \<and> disk_set st files' = everything) \<and>
    (\<forall>outcome. result = Inr outcome \<longrightarrow>
       ps_set (st_known st') = everything \<and> mo_total outcome = card everything \<and>
       mo_added outcome = card (ps_set observed - (ps_set (st_known st) \<union> disk_set st files)) \<and>
       mo_superseded outcome = (\<not> image_is_still_ours sha256 st files) \<and>
       mo_persisted outcome = (disk_set st files \<noteq> everything \<and> image_is_still_ours sha256 st files) \<and>
       (if mo_superseded outcome then files' = files else disk_set st files' = everything))"
proof (cases "generation_locked \<and> sidecar_lock = Locked")
  case False
  then have "st' = st \<and> files' = files \<and> (\<forall>outcome. result \<noteq> Inr outcome)"
    using run by (cases sidecar_lock; cases generation_locked)
      (auto simp: merge_and_persist_def merge_and_persist_inner_def merge_publish_def)
  then show ?thesis using inv by (auto simp: everything_def)
next
  case True
  have st: "set_for (st_mem_len st) (st_known st)" "st_mem_len st \<le> MAX_MEM_LEN" "length (st_key st) = 32"
    using inv by (auto simp: store_inv_def)
  define ours where "ours = image_is_still_ours sha256 st files"
  obtain merged where m: "set_for (st_mem_len st) merged" "ps_set merged = everything"
    and pub: "let news = (disk_set st files \<noteq> ps_set merged);
         new_files = (if ours \<and> news \<and> io_ok
                   then files\<lparr>sf_sidecar := Contents (page_set_encode merged (st_key st) (st_mem_len st))\<rparr>
                   else files)
     in merge_publish sha256 True Locked io_ok st (st_known st) observed False files =
       (if ours \<and> news \<and> \<not> io_ok then Inl WriteFailed
        else Inr (Some \<lparr>mo_total = card (ps_set merged),
               mo_added = card (ps_set observed - (ps_set (st_known st) \<union> disk_set st files)),
               mo_persisted = (news \<and> ours), mo_superseded = (\<not> ours)\<rparr>), Some merged, new_files)"
    using merge_publish_locked [where io_ok = io_ok and nb = False, OF st(1) obs st(2,3) ours_def] unfolding everything_def by blast
  define added where "added = card (ps_set observed - (ps_set (st_known st) \<union> disk_set st files))"
  define news where "news = (disk_set st files \<noteq> everything)"
  define written where "written = files\<lparr>sf_sidecar := Contents (page_set_encode merged (st_key st) (st_mem_len st))\<rparr>"
  have eq: "result = (if ours \<and> news \<and> \<not> io_ok then Inl WriteFailed
        else Inr \<lparr>mo_total = card everything, mo_added = added,
               mo_persisted = (news \<and> ours), mo_superseded = (\<not> ours)\<rparr>)"
    "st' = fst (remember st merged)" "files' = (if ours \<and> news \<and> io_ok then written else files)"
    using run pub True
    unfolding merge_and_persist_def merge_and_persist_inner_def Let_def m(2) news_def [symmetric]
      written_def [symmetric] added_def [symmetric]
    by (auto split: if_splits)
  note rem = store_inv_remember [OF inv m(1)]
  have st': "store_inv st'" "ps_set (st_known st') = everything"
    using rem(1,2) m(2) by (auto simp: eq(2) everything_def)
  have "disk_set st written = everything"
    using disk_set_written [OF m(1) st(2,3)] m(2) by (simp add: written_def)
  moreover have "written = files\<lparr>sf_sidecar := sf_sidecar written\<rparr>" by (simp add: written_def)
  moreover have "ps_set (st_known st) \<subseteq> everything" by (auto simp: everything_def)
  ultimately show ?thesis
    using st' eq(1,3) unfolding ours_def [symmetric] added_def [symmetric] news_def [symmetric]
    by (cases ours; cases news; cases io_ok) (simp_all add: news_def)
qed

section \<open>The persistence worker\<close>

text \<open>
  \<open>WorkingSetPersistence\<close>: the channel holds one request, a worker thread takes requests one at a
  time, and \<open>pending\<close> counts the requests that are queued or being worked on.  The worker is either
  idle, has taken a request, or has taken it and cloned the union it is about to publish.
\<close>

record persist_request =
  pr_vm_id :: string
  pr_faulted_pages :: nat
  pr_learned_pages :: nat

datatype worker = Idle | Taken persist_request | Publishing persist_request page_set

record persistence =
  pe_store :: working_set_store
  pe_queue :: "persist_request option"
  pe_worker :: worker
  pe_pending :: nat
  pe_connected :: bool
  pe_files :: snapshot_files

datatype send_result = Sent | Full | Disconnected

definition pending_add :: "persistence \<Rightarrow> persistence" where
  "pending_add p = p\<lparr>pe_pending := pe_pending p + 1\<rparr>"

definition pending_done :: "persistence \<Rightarrow> persistence" where
  "pending_done p = p\<lparr>pe_pending := pe_pending p - 1\<rparr>"

definition drained :: "persistence \<Rightarrow> bool" where
  "drained p \<longleftrightarrow> pe_pending p = 0"

definition try_send :: "persistence \<Rightarrow> persist_request \<Rightarrow> send_result \<times> persistence" where
  "try_send p request =
     (if \<not> pe_connected p then (Disconnected, p)
      else if pe_queue p \<noteq> None then (Full, p)
      else (Sent, p\<lparr>pe_queue := Some request\<rparr>))"

definition schedule :: "persistence \<Rightarrow> string \<Rightarrow> page_set \<Rightarrow> persistence" where
  "schedule p vm_id observed =
     (let faulted_pages = page_set_len observed;
          (store, learned_pages) = remember (pe_store p) observed;
          request = \<lparr>pr_vm_id = vm_id, pr_faulted_pages = faulted_pages, pr_learned_pages = learned_pages\<rparr>;
          p = pending_add (p\<lparr>pe_store := store\<rparr>)
      in case try_send p request of
           (Sent, p) \<Rightarrow> p
         | (Full, p) \<Rightarrow> pending_done p
         | (Disconnected, p) \<Rightarrow> pending_done p)"

definition worker_recv :: "persistence \<Rightarrow> persistence option" where
  "worker_recv p =
     (case (pe_worker p, pe_queue p) of
        (Idle, Some request) \<Rightarrow> Some (p\<lparr>pe_worker := Taken request, pe_queue := None\<rparr>)
      | _ \<Rightarrow> None)"

definition worker_clone_known :: "persistence \<Rightarrow> persistence option" where
  "worker_clone_known p =
     (case pe_worker p of
        Taken request \<Rightarrow> Some (p\<lparr>pe_worker := Publishing request (st_known (pe_store p))\<rparr>)
      | _ \<Rightarrow> None)"

definition persist_one ::
  "(bytes \<Rightarrow> bytes) \<Rightarrow> bool \<Rightarrow> lock_result \<Rightarrow> bool \<Rightarrow> persistence \<Rightarrow>
     ((store_error + merge_outcome option) \<times> persistence) option" where
  "persist_one sha256 generation_locked sidecar_lock io_ok p =
     (case pe_worker p of
        Publishing request known \<Rightarrow>
          (case merge_publish sha256 generation_locked sidecar_lock io_ok (pe_store p) known
                  (page_set_empty (st_mem_len (pe_store p))) True (pe_files p) of
             (result, merged, files) \<Rightarrow>
               Some (result, pending_done (p\<lparr>
                 pe_store := (case merged of None \<Rightarrow> pe_store p | Some m \<Rightarrow> fst (remember (pe_store p) m)),
                 pe_files := files, pe_worker := Idle\<rparr>)))
      | _ \<Rightarrow> None)"

text \<open>The interleavings: clones schedule at any moment, the worker takes, clones the union and
  publishes.  The last flag of a step says whether a publication in it reached the disk or had
  nothing to add, with the image still ours.\<close>

inductive persist_step :: "(bytes \<Rightarrow> bytes) \<Rightarrow> bool \<Rightarrow> persistence \<Rightarrow> persistence \<Rightarrow> bool" for sha256 where
  schedule_step: "set_for (st_mem_len (pe_store p)) observed \<Longrightarrow>
     persist_step sha256 True p (schedule p vm_id observed)"
| recv_step: "worker_recv p = Some p' \<Longrightarrow> persist_step sha256 True p p'"
| clone_step: "worker_clone_known p = Some p' \<Longrightarrow> persist_step sha256 True p p'"
| publish_step: "persist_one sha256 generation_locked sidecar_lock io_ok p = Some (result, p') \<Longrightarrow>
     persist_step sha256 (\<exists>outcome. result = Inr (Some outcome) \<and> \<not> mo_superseded outcome) p p'"

inductive persist_run :: "(bytes \<Rightarrow> bytes) \<Rightarrow> bool \<Rightarrow> persistence \<Rightarrow> persistence \<Rightarrow> bool" for sha256 where
  run_refl: "persist_run sha256 True p p"
| run_step: "persist_run sha256 ok p q \<Longrightarrow> persist_step sha256 ok' q r \<Longrightarrow> persist_run sha256 (ok \<and> ok') p r"

text \<open>The counter counts; the clone being published is well formed.\<close>

definition persist_inv :: "persistence \<Rightarrow> bool" where
  "persist_inv p \<longleftrightarrow> store_inv (pe_store p) \<and> pe_connected p \<and>
     (\<forall>r k. pe_worker p = Publishing r k \<longrightarrow> set_for (st_mem_len (pe_store p)) k) \<and>
     pe_pending p = (if pe_queue p = None then 0 else 1) + (if pe_worker p = Idle then 0 else 1)"

text \<open>Everything known is on disk, or a publication that will read it is still to come.\<close>

definition covered :: "persistence \<Rightarrow> bool" where
  "covered p \<longleftrightarrow>
     (let known = ps_set (st_known (pe_store p)); disk = disk_set (pe_store p) (pe_files p)
      in pe_queue p \<noteq> None \<or>
         (case pe_worker p of
            Idle \<Rightarrow> known \<subseteq> disk
          | Taken r \<Rightarrow> True
          | Publishing r k \<Rightarrow> known \<subseteq> ps_set k \<union> disk))"

lemma schedule_spec:
  assumes "persist_inv p" and "set_for (st_mem_len (pe_store p)) observed"
  shows "persist_inv (schedule p vm_id observed)" and "pe_queue (schedule p vm_id observed) \<noteq> None"
    and "st_known (pe_store (schedule p vm_id observed)) = st_known (fst (remember (pe_store p) observed))"
    and "st_key (pe_store (schedule p vm_id observed)) = st_key (pe_store p)"
    and "st_mem_len (pe_store (schedule p vm_id observed)) = st_mem_len (pe_store p)"
    and "pe_files (schedule p vm_id observed) = pe_files p"
proof -
  obtain st learned where rm: "remember (pe_store p) observed = (st, learned)" by fastforce
  have st: "store_inv st" "st_key st = st_key (pe_store p)" "st_mem_len st = st_mem_len (pe_store p)"
    using store_inv_remember [OF _ assms(2)] assms(1) rm by (auto simp: persist_inv_def)
  have c: "pe_connected p" using assms(1) by (simp add: persist_inv_def)
  show "persist_inv (schedule p vm_id observed)" "pe_queue (schedule p vm_id observed) \<noteq> None"
    "st_known (pe_store (schedule p vm_id observed)) = st_known (fst (remember (pe_store p) observed))"
    "st_key (pe_store (schedule p vm_id observed)) = st_key (pe_store p)"
    "st_mem_len (pe_store (schedule p vm_id observed)) = st_mem_len (pe_store p)"
    "pe_files (schedule p vm_id observed) = pe_files p"
    using assms(1) rm st c
    by (simp_all add: schedule_def Let_def try_send_def pending_add_def pending_done_def persist_inv_def)
qed

lemma disk_set_cong:
  "st_key st = st_key st' \<Longrightarrow> st_mem_len st = st_mem_len st' \<Longrightarrow> disk_set st files = disk_set st' files"
  by (simp add: disk_set_def)

lemma merge_publish_cases [consumes 4, case_names refused merged]:
  assumes "store_inv st" and "set_for (st_mem_len st) known" and "set_for (st_mem_len st) observed"
    and run: "merge_publish sha256 gl sl io_ok st known observed nb files = (result, m, files')"
  obtains "m = None" "files' = files" "\<And>outcome. result \<noteq> Inr (Some outcome)"
  | merged where "m = Some merged" "set_for (st_mem_len st) merged"
      "ps_set merged = ps_set known \<union> disk_set st files \<union> ps_set observed"
      "\<And>outcome. result = Inr (Some outcome) \<Longrightarrow> \<not> mo_superseded outcome \<Longrightarrow> disk_set st files' = ps_set merged"
proof (cases "gl \<and> sl = Locked")
  case False
  then show ?thesis
    using run by (cases sl; cases gl) (auto simp: merge_publish_def intro!: that(1) split: if_splits)
next
  case True
  have st: "st_mem_len st \<le> MAX_MEM_LEN" "length (st_key st) = 32"
    using assms(1) by (auto simp: store_inv_def)
  define ours where "ours = image_is_still_ours sha256 st files"
  obtain merged where m: "set_for (st_mem_len st) merged"
      "ps_set merged = ps_set known \<union> disk_set st files \<union> ps_set observed"
    and pub: "let news = (disk_set st files \<noteq> ps_set merged);
         new_files = (if ours \<and> news \<and> io_ok
                   then files\<lparr>sf_sidecar := Contents (page_set_encode merged (st_key st) (st_mem_len st))\<rparr>
                   else files)
     in merge_publish sha256 True Locked io_ok st known observed nb files =
       (if ours \<and> news \<and> \<not> io_ok then Inl WriteFailed
        else Inr (Some \<lparr>mo_total = card (ps_set merged),
               mo_added = card (ps_set observed - (ps_set known \<union> disk_set st files)),
               mo_persisted = (news \<and> ours), mo_superseded = (\<not> ours)\<rparr>), Some merged, new_files)"
    using merge_publish_locked [where io_ok = io_ok and nb = nb, OF assms(2,3) st ours_def] by blast
  have "disk_set st (files\<lparr>sf_sidecar := Contents (page_set_encode merged (st_key st) (st_mem_len st))\<rparr>) = ps_set merged"
    using disk_set_written [OF m(1) st] .
  then show ?thesis
    using run pub True by (intro that(2) [OF _ m]) (auto simp: Let_def split: if_splits)
qed

lemma persist_one_spec:
  assumes inv: "persist_inv p"
    and run: "persist_one sha256 generation_locked sidecar_lock io_ok p = Some (result, p')"
  obtains request known where "pe_worker p = Publishing request known" "persist_inv p'" "pe_worker p' = Idle"
    "pe_queue p' = pe_queue p"
    "st_key (pe_store p') = st_key (pe_store p)" "st_mem_len (pe_store p') = st_mem_len (pe_store p)"
    "ps_set (st_known (pe_store p)) \<subseteq> ps_set (st_known (pe_store p'))"
    "\<And>outcome. result = Inr (Some outcome) \<Longrightarrow> \<not> mo_superseded outcome \<Longrightarrow>
       ps_set (st_known (pe_store p')) \<subseteq> ps_set (st_known (pe_store p)) \<union> disk_set (pe_store p') (pe_files p') \<and>
       ps_set known \<union> disk_set (pe_store p) (pe_files p) \<subseteq> disk_set (pe_store p') (pe_files p')"
proof -
  obtain request known where w: "pe_worker p = Publishing request known"
    using run by (auto simp: persist_one_def split: worker.splits)
  let ?st = "pe_store p"
  have st: "store_inv ?st" "set_for (st_mem_len ?st) known"
    using inv w by (auto simp: persist_inv_def)
  obtain m files' where pub: "merge_publish sha256 generation_locked sidecar_lock io_ok ?st known
      (page_set_empty (st_mem_len ?st)) True (pe_files p) = (result, m, files')"
    and p': "p' = pending_done (p\<lparr>
        pe_store := (case m of None \<Rightarrow> ?st | Some m \<Rightarrow> fst (remember ?st m)),
        pe_files := files', pe_worker := Idle\<rparr>)"
    using run w by (auto simp: persist_one_def split: prod.splits)
  from st set_for_empty pub show ?thesis
  proof (cases rule: merge_publish_cases)
    case refused
    then show ?thesis using that [OF w] inv w by (auto simp: p' persist_inv_def pending_done_def)
  next
    case (merged merged)
    note rem = store_inv_remember [OF st(1) merged(2)]
    have "disk_set (fst (remember ?st merged)) files' = disk_set ?st files'"
      by (rule disk_set_cong) (rule rem(3,4))+
    then show ?thesis
      using that [OF w] inv w rem merged
      by (auto simp: p' persist_inv_def pending_done_def ps_set_empty)
  qed
qed

lemma persist_step_spec:
  assumes "persist_step sha256 ok p p'" and "persist_inv p"
  shows "persist_inv p' \<and> st_key (pe_store p') = st_key (pe_store p) \<and>
    st_mem_len (pe_store p') = st_mem_len (pe_store p) \<and>
    ps_set (st_known (pe_store p)) \<subseteq> ps_set (st_known (pe_store p')) \<and>
    (ok \<longrightarrow> covered p \<longrightarrow> covered p')"
  using assms(1)
proof cases
  case (schedule_step observed vm_id)
  have "store_inv (pe_store p)" using assms(2) by (simp add: persist_inv_def)
  note rem = store_inv_remember [OF this schedule_step(3)]
  show ?thesis
    using schedule_spec [OF assms(2) schedule_step(3), of vm_id] rem(2) schedule_step(2)
    by (auto simp: covered_def)
next
  case recv_step
  then show ?thesis
    using assms(2) by (auto simp: worker_recv_def covered_def persist_inv_def split: worker.splits option.splits)
next
  case clone_step
  then show ?thesis
    using assms(2)
    by (auto simp: worker_clone_known_def covered_def persist_inv_def store_inv_def split: worker.splits)
next
  case (publish_step gl sl io_ok result)
  then obtain request known where w: "pe_worker p = Publishing request known" "persist_inv p'" "pe_worker p' = Idle"
    "pe_queue p' = pe_queue p"
    "st_key (pe_store p') = st_key (pe_store p)" "st_mem_len (pe_store p') = st_mem_len (pe_store p)"
    "ps_set (st_known (pe_store p)) \<subseteq> ps_set (st_known (pe_store p'))"
    "\<And>outcome. result = Inr (Some outcome) \<Longrightarrow> \<not> mo_superseded outcome \<Longrightarrow>
       ps_set (st_known (pe_store p')) \<subseteq> ps_set (st_known (pe_store p)) \<union> disk_set (pe_store p') (pe_files p') \<and>
       ps_set known \<union> disk_set (pe_store p) (pe_files p) \<subseteq> disk_set (pe_store p') (pe_files p')"
    using persist_one_spec [OF assms(2)] by metis
  have "covered p'" if good: ok and cov: "covered p"
  proof -
    obtain outcome where "result = Inr (Some outcome)" "\<not> mo_superseded outcome" using publish_step(1) good by blast
    note w' = w(8) [OF this]
    show ?thesis using w' w(1,3,4) cov unfolding covered_def Let_def by (simp, blast)
  qed
  then show ?thesis using w(2,5-7) by blast
qed

lemma persist_run_spec:
  "persist_run sha256 ok p q \<Longrightarrow> persist_inv p \<Longrightarrow>
     persist_inv q \<and> st_mem_len (pe_store q) = st_mem_len (pe_store p) \<and>
     ps_set (st_known (pe_store p)) \<subseteq> ps_set (st_known (pe_store q)) \<and>
     (ok \<longrightarrow> covered p \<longrightarrow> covered q)"
proof (induction rule: persist_run.induct)
  case (run_step ok p q ok' r)
  then show ?case using persist_step_spec [OF run_step(2)] by (metis order_trans)
qed simp

text \<open>
  Claim C3.  Coalescing loses nothing.  Take any interleaving of clones scheduling their
  observations with the worker taking a request, cloning the union and publishing, in which every
  publication succeeded.  Once \<open>drain\<close> reports that nothing is pending, everything any clone
  scheduled, including one whose request was dropped because another was already queued, is in the
  set on disk; and the pending count is zero only when no request is queued or being worked on.
\<close>

theorem drained_publishes_all:
  assumes "persist_inv p" and "covered p" and "persist_run sha256 True p q"
    and "set_for (st_mem_len (pe_store q)) observed"
    and "persist_run sha256 True (schedule q vm_id observed) r" and "drained r"
  shows "ps_set observed \<union> ps_set (st_known (pe_store q)) \<subseteq> disk_set (pe_store r) (pe_files r) \<and>
    pe_queue r = None \<and> pe_worker r = Idle"
proof -
  have q: "persist_inv q" "covered q" using persist_run_spec [OF assms(3,1)] assms(2) by auto
  note sc = schedule_spec [OF q(1) assms(4), of vm_id]
  have "covered (schedule q vm_id observed)" using sc(2) by (simp add: covered_def)
  then have r: "persist_inv r" "covered r"
    "ps_set (st_known (pe_store (schedule q vm_id observed))) \<subseteq> ps_set (st_known (pe_store r))"
    using persist_run_spec [OF assms(5) sc(1)] by auto
  have idle: "pe_queue r = None" "pe_worker r = Idle"
    using r(1) assms(6) by (auto simp: persist_inv_def drained_def split: if_splits)
  have "store_inv (pe_store q)" using q(1) by (simp add: persist_inv_def)
  note rem = store_inv_remember(2) [OF this assms(4)]
  have "ps_set (st_known (pe_store r)) \<subseteq> disk_set (pe_store r) (pe_files r)"
    using r(2) idle by (simp add: covered_def)
  then show ?thesis using r(3) sc(3) rem idle by auto
qed

section \<open>A concrete run\<close>

text \<open>A two-page image whose digests are all zero bytes, nothing recorded yet, and a clone that
  touched the second page.\<close>

definition zero_digest :: "bytes \<Rightarrow> bytes" where
  "zero_digest _ = replicate 32 0"

definition two_page_store :: working_set_store where
  "two_page_store = \<lparr>st_key = replicate 32 0, st_mem_len = 8192, st_config_digest = replicate 32 0,
     st_known = page_set_empty 8192\<rparr>"

definition two_page_files :: snapshot_files where
  "two_page_files = \<lparr>sf_config = Some [], sf_meta = Some (8192, 0, 0), sf_sidecar = NotFound\<rparr>"

definition second_page :: page_set where
  "second_page = \<lparr>ps_granules = 2, ps_words = [2]\<rparr>"

lemma ps_set_second_page: "ps_set second_page = {1}"
proof -
  have "bm_test [2] g \<longleftrightarrow> g = 1" for g
  proof (cases "g < 64")
    case True
    then show ?thesis using bit_push_one [of g 1] by (simp add: bm_test_Cons)
  qed (simp add: bm_test_Cons)
  then show ?thesis by (auto simp: ps_set_def second_page_def bm_set_def)
qed

lemma set_for_second_page: "set_for 8192 second_page"
  using ps_set_second_page
  by (simp add: set_for_def ps_inv_def second_page_def div_ceil_def GRANULE_def)

lemma two_page_store_inv: "store_inv two_page_store"
  using set_for_empty [of 8192] by (simp add: store_inv_def two_page_store_def MAX_MEM_LEN_def)

lemma two_page_ours: "image_is_still_ours zero_digest two_page_store two_page_files"
  by (simp add: image_is_still_ours_def two_page_files_def two_page_store_def zero_digest_def image_key_of_def)

lemma two_page_disk: "disk_set two_page_store two_page_files = {}"
  by (simp add: disk_set_def read_set_def two_page_files_def Let_def)

theorem merge_and_persist_correct_witness:
  "\<exists>result st' files'.
     merge_and_persist zero_digest True Locked True two_page_store second_page two_page_files = (result, st', files') \<and>
     ps_set (st_known st') \<subseteq> {1} \<and> (\<forall>outcome. result = Inr outcome \<longrightarrow> disk_set two_page_store files' = {1})"
proof -
  obtain result st' files' where run: "merge_and_persist zero_digest True Locked True two_page_store
      second_page two_page_files = (result, st', files')" by (metis prod_cases3)
  have obs: "set_for (st_mem_len two_page_store) second_page"
    using set_for_second_page by (simp add: two_page_store_def)
  have known: "ps_set (st_known two_page_store) = {}" by (simp add: two_page_store_def ps_set_empty)
  note c = merge_and_persist_correct [OF two_page_store_inv obs run refl]
  have "disk_set two_page_store files' = {1}" if "result = Inr outcome" for outcome
    using c that two_page_ours by (simp add: known two_page_disk ps_set_second_page)
  moreover have "ps_set (st_known st') \<subseteq> {1}" using c by (simp add: known two_page_disk ps_set_second_page)
  ultimately show ?thesis using run by blast
qed

definition two_page_persistence :: persistence where
  "two_page_persistence = \<lparr>pe_store = two_page_store, pe_queue = None, pe_worker = Idle, pe_pending = 0,
     pe_connected = True, pe_files = two_page_files\<rparr>"

theorem drained_publishes_all_witness:
  "\<exists>r. persist_run zero_digest True (schedule two_page_persistence [] second_page) r \<and> drained r \<and>
       1 \<in> disk_set (pe_store r) (pe_files r)"
proof -
  let ?p = two_page_persistence and ?obs = second_page
  define p1 where "p1 = schedule ?p [] ?obs"
  have inv: "persist_inv ?p" "covered ?p"
    using two_page_store_inv
    by (simp_all add: persist_inv_def covered_def two_page_persistence_def two_page_store_def ps_set_empty)
  have obs: "set_for (st_mem_len (pe_store ?p)) ?obs"
    using set_for_second_page by (simp add: two_page_persistence_def two_page_store_def)
  obtain known where st1: "pe_store p1 = two_page_store\<lparr>st_known := known\<rparr>"
    and q1: "pe_queue p1 \<noteq> None" "pe_worker p1 = Idle" "pe_files p1 = two_page_files" "pe_pending p1 = 1"
    by (simp add: p1_def schedule_def two_page_persistence_def remember_def split_beta Let_def try_send_def
        pending_add_def)
  obtain req where req: "pe_queue p1 = Some req" using q1(1) by blast
  define p2 where "p2 = p1\<lparr>pe_worker := Taken req, pe_queue := None\<rparr>"
  define p3 where "p3 = p2\<lparr>pe_worker := Publishing req (st_known (pe_store p2))\<rparr>"
  have s2: "worker_recv p1 = Some p2" using req q1(2) by (simp add: worker_recv_def p2_def)
  have s3: "worker_clone_known p2 = Some p3" by (simp add: worker_clone_known_def p3_def p2_def)
  have inv1: "persist_inv p1" using schedule_spec(1) [OF inv(1) obs] by (simp add: p1_def)
  have st: "pe_store p3 = pe_store p1" "pe_files p3 = two_page_files"
    by (simp_all add: p3_def p2_def q1(3))
  have ours: "image_is_still_ours zero_digest (pe_store p3) (pe_files p3)"
    by (simp add: st st1 image_is_still_ours_def two_page_files_def two_page_store_def zero_digest_def
        image_key_of_def)
  have "store_inv (pe_store p3)" using inv1 by (simp add: persist_inv_def st)
  then have ok: "set_for (st_mem_len (pe_store p3)) (st_known (pe_store p3))" "st_mem_len (pe_store p3) \<le> MAX_MEM_LEN"
    "length (st_key (pe_store p3)) = 32" by (auto simp: store_inv_def)
  obtain outcome m files where pub: "merge_publish zero_digest True Locked True (pe_store p3) (st_known (pe_store p3))
      (page_set_empty (st_mem_len (pe_store p3))) True (pe_files p3) = (Inr (Some outcome), m, files)"
    "\<not> mo_superseded outcome"
    using merge_publish_locked [where io_ok = True and nb = True and files = "pe_files p3" and
        ?sha256.0 = zero_digest, OF ok(1) set_for_empty ok(2,3) refl] ours
    by (auto simp: Let_def)
  then obtain p4 where s4: "persist_one zero_digest True Locked True p3 = Some (Inr (Some outcome), p4)"
    and p4: "pe_pending p4 = 0"
    by (simp add: persist_one_def p3_def p2_def pending_done_def q1(4))
  have run: "persist_run zero_digest True p1 p4"
    using run_step [OF run_step [OF run_step [OF run_refl recv_step [OF s2]] clone_step [OF s3]]
        publish_step [OF s4]] pub(2) by simp
  have "drained p4" using p4 by (simp add: drained_def)
  with drained_publishes_all [OF inv run_refl obs run [unfolded p1_def]] run show ?thesis
    by (auto simp: p1_def ps_set_second_page)
qed

end
