(* ===== verification/Uffd_Prefetch.thy ===== *)
theory Uffd_Prefetch
  imports Uffd_Working_Set
begin

unbundle bit_operations_syntax

text \<open>
  Replaying a recorded working set into a clone (\<open>src/uffd/prefetch.rs\<close>): the plan, an iterator that
  places recorded runs in the clone's regions and merges what alignment made overlap, and the step
  that populates one chunk.  The ioctls of the kernel are parameters that give the result the
  \<open>userfaultfd\<close> crate reports.
\<close>

section \<open>Regions and segments\<close>

record region =
  base_host_virt_addr :: nat
  rg_file_offset :: nat
  rg_size :: nat

record segment =
  host_addr :: nat
  sg_file_offset :: nat
  sg_len :: nat

definition is_power_of_two :: "nat \<Rightarrow> bool" where
  "is_power_of_two n \<longleftrightarrow> count_ones (word_of_nat n) = 1"

definition align_down :: "nat \<Rightarrow> nat \<Rightarrow> nat" where
  "align_down x page_size = unat ((word_of_nat x :: u64) AND NOT (word_of_nat (page_size - 1)))"

definition place :: "nat \<Rightarrow> nat \<Rightarrow> region \<Rightarrow> nat \<Rightarrow> nat \<Rightarrow> segment option" where
  "place run_start run_end region page_size mem_len = do {
     region_end \<leftarrow> checked_add (rg_file_offset region) (rg_size region);
     let start = max run_start (rg_file_offset region);
     let stop = min run_end region_end;
     if stop \<le> start then None
     else do {
       let rel_start = align_down (start - rg_file_offset region) page_size;
       up \<leftarrow> checked_next_multiple_of (stop - rg_file_offset region) page_size;
       let rel_end = min up (rg_size region);
       if rel_end \<le> rel_start then None
       else do {
         file_offset \<leftarrow> checked_add (rg_file_offset region) rel_start;
         let len = rel_end - rel_start;
         file_end \<leftarrow> checked_add file_offset len;
         if file_end > mem_len then None
         else do {
           addr \<leftarrow> checked_add (base_host_virt_addr region) rel_start;
           Some \<lparr>host_addr = addr, sg_file_offset = file_offset, sg_len = len\<rparr>
         }
       }
     }
   }"

text \<open>\<open>merge\<close> gives the extended segment, or nothing when the two do not meet.\<close>

definition merge :: "segment \<Rightarrow> segment \<Rightarrow> segment option" where
  "merge previous segment = do {
     gap \<leftarrow> checked_sub (host_addr segment) (host_addr previous);
     expected_offset \<leftarrow> checked_add (sg_file_offset previous) gap;
     if gap > sg_len previous \<or> sg_file_offset segment \<noteq> expected_offset then None
     else do {
       merged_len \<leftarrow> checked_add gap (sg_len segment);
       Some (previous\<lparr>sg_len := max (sg_len previous) merged_len\<rparr>)
     }
   }"

section \<open>The plan\<close>

record plan =
  pl_set :: page_set
  pl_runs :: "nat option"
  pl_regions :: "region list"
  pl_page_size :: nat
  pl_mem_len :: nat
  pl_run :: "(nat \<times> nat) option"
  pl_next_region :: nat
  pl_pending :: "segment option"

definition plan_of :: "page_set \<Rightarrow> region list \<Rightarrow> nat \<Rightarrow> nat \<Rightarrow> plan" where
  "plan_of s regions page_size mem_len =
     (let usable = (is_power_of_two page_size \<and> 4096 \<le> page_size \<and> page_size \<le> CHUNK_BYTES)
      in \<lparr>pl_set = s, pl_runs = (if usable then Some 0 else None), pl_regions = regions,
          pl_page_size = page_size, pl_mem_len = mem_len, pl_run = None, pl_next_region = 0,
          pl_pending = None\<rparr>)"

datatype turn = Continue plan | Yield "segment option" plan

text \<open>
  One turn of the loop of \<open>next\<close>: it reads a run, places the run in one more region, or drops it.
  The outer option is the panic of a bitmap index, which the invariant rules out; a turn that yields
  nothing is the end of the plan.
\<close>

definition plan_turn :: "plan \<Rightarrow> turn option" where
  "plan_turn p =
     (case pl_run p of
        None \<Rightarrow>
          (case pl_runs p of
             None \<Rightarrow> Some (Yield (pl_pending p) (p\<lparr>pl_pending := None\<rparr>))
           | Some cursor \<Rightarrow>
               (case run_iter_next (pl_set p) cursor of
                  None \<Rightarrow> None
                | Some None \<Rightarrow> Some (Yield (pl_pending p) (p\<lparr>pl_pending := None\<rparr>))
                | Some (Some (r, cursor')) \<Rightarrow>
                    (let run_end = min (saturating_add (run_offset r) (run_len r)) (pl_mem_len p)
                     in if run_end > run_offset r
                        then Some (Continue (p\<lparr>pl_runs := Some cursor', pl_run := Some (run_offset r, run_end),
                                                pl_next_region := 0\<rparr>))
                        else Some (Continue (p\<lparr>pl_runs := Some cursor'\<rparr>)))))
      | Some (start, stop) \<Rightarrow>
          if pl_next_region p < length (pl_regions p) then
            (let p' = p\<lparr>pl_next_region := pl_next_region p + 1\<rparr>
             in case place start stop (pl_regions p ! pl_next_region p) (pl_page_size p) (pl_mem_len p) of
                  None \<Rightarrow> Some (Continue p')
                | Some segment \<Rightarrow>
                    (case pl_pending p of
                       None \<Rightarrow> Some (Continue (p'\<lparr>pl_pending := Some segment\<rparr>))
                     | Some previous \<Rightarrow>
                         (case merge previous segment of
                            Some merged \<Rightarrow> Some (Continue (p'\<lparr>pl_pending := Some merged\<rparr>))
                          | None \<Rightarrow> Some (Yield (Some previous) (p'\<lparr>pl_pending := Some segment\<rparr>)))))
          else Some (Continue (p\<lparr>pl_run := None\<rparr>)))"

definition plan_left :: "plan \<Rightarrow> nat" where
  "plan_left p = (case pl_runs p of None \<Rightarrow> 0 | Some cursor \<Rightarrow> ps_granules (pl_set p) - cursor)"

definition plan_work :: "plan \<Rightarrow> nat" where
  "plan_work p = (case pl_run p of None \<Rightarrow> 0 | Some _ \<Rightarrow> 1 + (length (pl_regions p) - pl_next_region p))"

definition plan_held :: "plan \<Rightarrow> nat" where
  "plan_held p = (if pl_pending p = None then 0 else 1)"

lemmas plan_measures = plan_left_def plan_work_def plan_held_def

lemma plan_turn_progress:
  "plan_turn p = Some (Continue p') \<Longrightarrow> (p', p) \<in> measures [plan_left, plan_work]"
  "plan_turn p = Some (Yield (Some s) p') \<Longrightarrow> (p', p) \<in> measures [plan_left, plan_work, plan_held]"
  by (auto simp: plan_turn_def plan_measures Let_def elim!: run_iter_next_found
      split: option.splits if_splits prod.splits)

function plan_next :: "plan \<Rightarrow> (segment option \<times> plan) option" where
  "plan_next p =
     (case plan_turn p of
        None \<Rightarrow> None
      | Some (Yield r p') \<Rightarrow> Some (r, p')
      | Some (Continue p') \<Rightarrow> plan_next p')"
  by pat_completeness auto
termination
  by (relation "measures [plan_left, plan_work]") (auto dest!: plan_turn_progress(1))

declare plan_next.simps [simp del]

lemma plan_next_progress:
  "plan_next p = Some (Some s, p') \<Longrightarrow> (p', p) \<in> measures [plan_left, plan_work, plan_held]"
proof (induction p rule: plan_next.induct)
  case (1 p)
  obtain t where t: "plan_turn p = Some t" using "1.prems" by (subst (asm) plan_next.simps) (auto split: option.splits)
  show ?case
  proof (cases t)
    case (Yield r q)
    then have "r = Some s" "q = p'" using "1.prems" t by (subst (asm) plan_next.simps, simp)+
    then show ?thesis using t Yield plan_turn_progress(2) by blast
  next
    case (Continue q)
    then have "plan_next q = Some (Some s, p')" using "1.prems" t by (subst (asm) plan_next.simps) simp
    then have "(p', q) \<in> measures [plan_left, plan_work, plan_held]" using "1.IH" [OF t Continue] by blast
    then show ?thesis using plan_turn_progress(1) t Continue by fastforce
  qed
qed

text \<open>The plan collected.\<close>

function plan_collect :: "plan \<Rightarrow> segment list option" where
  "plan_collect p =
     (case plan_next p of
        None \<Rightarrow> None
      | Some (None, p') \<Rightarrow> Some []
      | Some (Some s, p') \<Rightarrow> map_option (\<lambda>ss. s # ss) (plan_collect p'))"
  by pat_completeness auto
termination
  by (relation "measures [plan_left, plan_work, plan_held]") (auto dest!: plan_next_progress)

declare plan_collect.simps [simp del]

section \<open>What the plan computes\<close>

text \<open>The reference: every run clipped to the file, placed in every region in turn, and the pieces
  coalesced with the one before them.\<close>

fun clip_run :: "nat \<Rightarrow> mem_run \<Rightarrow> (nat \<times> nat) list" where
  "clip_run mem_len r =
     (let run_end = min (saturating_add (run_offset r) (run_len r)) mem_len
      in if run_end > run_offset r then [(run_offset r, run_end)] else [])"

definition place_run :: "nat \<Rightarrow> nat \<Rightarrow> region list \<Rightarrow> nat \<times> nat \<Rightarrow> segment list" where
  "place_run page_size mem_len regions run =
     List.map_filter (\<lambda>region. place (fst run) (snd run) region page_size mem_len) regions"

definition pieces_of :: "nat \<Rightarrow> nat \<Rightarrow> region list \<Rightarrow> mem_run list \<Rightarrow> segment list" where
  "pieces_of page_size mem_len regions runs =
     concat (map (place_run page_size mem_len regions) (concat (map (clip_run mem_len) runs)))"

fun coalesce :: "segment option \<Rightarrow> segment list \<Rightarrow> segment list" where
  "coalesce None [] = []"
| "coalesce (Some p) [] = [p]"
| "coalesce None (s # ss) = coalesce (Some s) ss"
| "coalesce (Some p) (s # ss) =
     (case merge p s of Some m \<Rightarrow> coalesce (Some m) ss | None \<Rightarrow> p # coalesce (Some s) ss)"

definition pieces_left :: "plan \<Rightarrow> segment list" where
  "pieces_left p =
     (case pl_run p of
        None \<Rightarrow> []
      | Some run \<Rightarrow> place_run (pl_page_size p) (pl_mem_len p) (drop (pl_next_region p) (pl_regions p)) run) @
     (case pl_runs p of
        None \<Rightarrow> []
      | Some cursor \<Rightarrow> pieces_of (pl_page_size p) (pl_mem_len p) (pl_regions p)
                         (the (page_set_runs_from (pl_set p) cursor)))"

lemma place_run_simps [simp]:
  "place_run ps n [] run = []"
  "place_run ps n (r # rs) run =
     (case place (fst run) (snd run) r ps n of None \<Rightarrow> [] | Some s \<Rightarrow> [s]) @ place_run ps n rs run"
  by (simp_all add: place_run_def List.map_filter_simps split: option.split)

lemma pieces_of_simps [simp]:
  "pieces_of ps n regions [] = []"
  "pieces_of ps n regions (r # rs) = concat (map (place_run ps n regions) (clip_run n r)) @ pieces_of ps n regions rs"
  by (simp_all add: pieces_of_def)

lemma runs_from_unfold:
  assumes "ps_inv s"
  shows "run_iter_next s cursor = Some None \<Longrightarrow> the (page_set_runs_from s cursor) = []"
    and "run_iter_next s cursor = Some (Some (r, c)) \<Longrightarrow>
      the (page_set_runs_from s cursor) = r # the (page_set_runs_from s c)"
proof -
  show "run_iter_next s cursor = Some None \<Longrightarrow> the (page_set_runs_from s cursor) = []"
    by (subst page_set_runs_from.simps) simp
  obtain rs where "page_set_runs_from s c = Some rs" using page_set_runs_from_spec [OF assms, of c] by blast
  then show "run_iter_next s cursor = Some (Some (r, c)) \<Longrightarrow>
      the (page_set_runs_from s cursor) = r # the (page_set_runs_from s c)"
    by (subst page_set_runs_from.simps) simp
qed

lemma plan_turn_spec:
  assumes "ps_inv (pl_set p)"
  shows "\<exists>t. plan_turn p = Some t \<and>
    (case t of
       Continue p' \<Rightarrow> coalesce (pl_pending p') (pieces_left p') = coalesce (pl_pending p) (pieces_left p) \<and>
         pl_set p' = pl_set p
     | Yield None p' \<Rightarrow> coalesce (pl_pending p) (pieces_left p) = []
     | Yield (Some s) p' \<Rightarrow>
         coalesce (pl_pending p) (pieces_left p) = s # coalesce (pl_pending p') (pieces_left p') \<and>
         pl_set p' = pl_set p)"
proof (cases "pl_run p")
  case None
  show ?thesis
  proof (cases "pl_runs p")
    case runs: None
    then show ?thesis using None
      by (cases "pl_pending p") (simp_all add: plan_turn_def pieces_left_def)
  next
    case (Some cursor)
    obtain nx where nx: "run_iter_next (pl_set p) cursor = Some nx" using run_iter_next_defined [OF assms] by blast
    show ?thesis
      using None Some nx runs_from_unfold [OF assms]
      by (cases nx; cases "pl_pending p") (auto simp: plan_turn_def pieces_left_def Let_def)
  qed
next
  case (Some run)
  obtain start stop where run: "run = (start, stop)" by fastforce
  show ?thesis
  proof (cases "pl_next_region p < length (pl_regions p)")
    case True
    then have "drop (pl_next_region p) (pl_regions p) =
        pl_regions p ! pl_next_region p # drop (pl_next_region p + 1) (pl_regions p)"
      by (simp add: Cons_nth_drop_Suc)
    then show ?thesis using True Some run
      by (auto simp: plan_turn_def pieces_left_def Let_def split: option.splits)
  next
    case False
    then show ?thesis using Some run by (cases "pl_runs p") (auto simp: plan_turn_def pieces_left_def)
  qed
qed

lemma plan_next_spec:
  "ps_inv (pl_set p) \<Longrightarrow> \<exists>r p'. plan_next p = Some (r, p') \<and>
    (case r of
       None \<Rightarrow> coalesce (pl_pending p) (pieces_left p) = []
     | Some s \<Rightarrow> coalesce (pl_pending p) (pieces_left p) = s # coalesce (pl_pending p') (pieces_left p') \<and>
         pl_set p' = pl_set p)"
proof (induction p rule: plan_next.induct)
  case (1 p)
  obtain t where t: "plan_turn p = Some t"
    "case t of
       Continue p' \<Rightarrow> coalesce (pl_pending p') (pieces_left p') = coalesce (pl_pending p) (pieces_left p) \<and>
         pl_set p' = pl_set p
     | Yield None p' \<Rightarrow> coalesce (pl_pending p) (pieces_left p) = []
     | Yield (Some s) p' \<Rightarrow>
         coalesce (pl_pending p) (pieces_left p) = s # coalesce (pl_pending p') (pieces_left p') \<and>
         pl_set p' = pl_set p"
    using plan_turn_spec [OF "1.prems"] by blast
  show ?case
  proof (cases t)
    case (Yield r q)
    then show ?thesis using t by (subst plan_next.simps) (auto split: option.splits)
  next
    case (Continue q)
    have "plan_next p = plan_next q" using t(1) Continue by (subst plan_next.simps) simp
    moreover have q: "coalesce (pl_pending q) (pieces_left q) = coalesce (pl_pending p) (pieces_left p)"
      "pl_set q = pl_set p" using t(2) Continue by simp_all
    ultimately show ?thesis using "1.IH" [OF t(1) Continue] "1.prems" by (simp only: q)
  qed
qed

lemma plan_collect_spec:
  "ps_inv (pl_set p) \<Longrightarrow> plan_collect p = Some (coalesce (pl_pending p) (pieces_left p))"
proof (induction p rule: plan_collect.induct)
  case (1 p)
  obtain r q where q: "plan_next p = Some (r, q)"
    "case r of
       None \<Rightarrow> coalesce (pl_pending p) (pieces_left p) = []
     | Some s \<Rightarrow> coalesce (pl_pending p) (pieces_left p) = s # coalesce (pl_pending q) (pieces_left q) \<and>
         pl_set q = pl_set p"
    using plan_next_spec [OF "1.prems"] by blast
  show ?case
  proof (cases r)
    case None
    then show ?thesis using q by (subst plan_collect.simps) simp
  next
    case (Some s)
    have "plan_collect q = Some (coalesce (pl_pending q) (pieces_left q))"
      using "1.IH" [OF q(1) refl Some] "1.prems" q(2) Some by simp
    then show ?thesis using q Some by (subst plan_collect.simps) simp
  qed
qed

section \<open>What a segment says\<close>

text \<open>The pairs of a host address and a file offset that a segment tells the kernel to fill.\<close>

definition seg_pairs :: "segment \<Rightarrow> (nat \<times> nat) set" where
  "seg_pairs s = {(host_addr s + i, sg_file_offset s + i) |i. i < sg_len s}"

definition region_pairs :: "region \<Rightarrow> (nat \<times> nat) set" where
  "region_pairs r = {(base_host_virt_addr r + i, rg_file_offset r + i) |i. i < rg_size r}"

lemma merge_pairs:
  assumes "merge p s = Some m"
  shows "seg_pairs m = seg_pairs p \<union> seg_pairs s"
proof -
  define gap where "gap = host_addr s - host_addr p"
  have h: "host_addr s = host_addr p + gap" "sg_file_offset s = sg_file_offset p + gap" "gap \<le> sg_len p"
    "m = p\<lparr>sg_len := max (sg_len p) (gap + sg_len s)\<rparr>"
    using assms by (auto simp: merge_def gap_def split: bind_splits if_splits)
  have "i < max (sg_len p) (gap + sg_len s) \<longleftrightarrow> i < sg_len p \<or> (\<exists>j < sg_len s. i = gap + j)" for i
    using h(3) by (auto simp: less_max_iff_disj) (metis add_diff_inverse_nat le_less_trans nat_add_left_cancel_less not_less)
  then show ?thesis unfolding seg_pairs_def using h by (auto simp: add.assoc)
qed

lemma coalesce_pairs:
  "(\<Union>s \<in> set (coalesce pend ss). seg_pairs s) =
     (case pend of None \<Rightarrow> {} | Some p \<Rightarrow> seg_pairs p) \<union> (\<Union>s \<in> set ss. seg_pairs s)"
  by (induction pend ss rule: coalesce.induct) (auto simp: merge_pairs split: option.splits)

lemma is_power_of_twoE:
  assumes "is_power_of_two n" and "n < 2 ^ 64"
  obtains k where "k < 64" "n = 2 ^ k"
proof -
  let ?w = "word_of_nat n :: u64"
  have "card {i. bit ?w i} = 1" using assms(1) by (simp add: is_power_of_two_def count_ones_card)
  then obtain k where k: "{i. bit ?w i} = {k}" by (metis card_1_singletonE)
  then have "bit ?w k" by blast
  then have k64: "k < 64" by (rule bit_u64_less)
  have "?w = push_bit k 1"
  proof (rule bit_word_eqI)
    fix i :: nat
    assume "i < LENGTH(64)"
    then have "i < 64" by simp
    then have "bit (push_bit k (1 :: u64)) i \<longleftrightarrow> i = k" by (rule bit_push_one)
    moreover have "bit ?w i \<longleftrightarrow> i = k" using k by blast
    ultimately show "bit ?w i \<longleftrightarrow> bit (push_bit k (1 :: u64)) i" by blast
  qed
  moreover have "unat (word_of_nat (2 ^ k) :: u64) = 2 ^ k"
  proof (subst unat_of_nat, rule mod_less)
    show "(2 :: nat) ^ k < 2 ^ LENGTH(64)" using k64 by (intro power_strict_increasing) simp_all
  qed
  ultimately have "unat ?w = 2 ^ k" by simp
  moreover have "unat ?w = n" using assms(2) by (simp add: unat_of_nat)
  ultimately show ?thesis using that k64 by simp
qed

lemma align_down_power:
  assumes "k < 64" and "x < 2 ^ 64"
  shows "align_down x (2 ^ k) = x div 2 ^ k * 2 ^ k"
proof -
  let ?w = "word_of_nat x :: u64"
  have m: "(word_of_nat (2 ^ k - 1) :: u64) = mask k" by (simp add: mask_eq_exp_minus_1 of_nat_diff)
  have "?w AND NOT (mask k) = push_bit k (drop_bit k ?w)"
    by (rule bit_word_eqI) (auto simp: bit_simps)
  then have "align_down x (2 ^ k) = unat (push_bit k (drop_bit k ?w))" unfolding align_down_def m by simp
  also have "\<dots> = take_bit 64 (push_bit k (drop_bit k x))"
    using assms(2) by (simp add: unsigned_push_bit_eq unsigned_drop_bit_eq unat_of_nat take_bit_nat_eq_self)
  also have "\<dots> = x div 2 ^ k * 2 ^ k"
  proof -
    have "x div 2 ^ k * 2 ^ k < 2 ^ 64" using assms(2) by (meson div_times_less_eq_dividend le_less_trans)
    then show ?thesis by (simp add: push_bit_eq_mult drop_bit_eq_div take_bit_nat_eq_self)
  qed
  finally show ?thesis .
qed

lemma place_Some:
  assumes "place start stop region page_size mem_len = Some s"
  obtains fo st en rs re where "fo = rg_file_offset region" "fo + rg_size region \<le> u64_max"
    "st = max start fo" "en = min stop (fo + rg_size region)" "st < en"
    "rs = align_down (st - fo) page_size" "page_size \<noteq> 0"
    "re = min (next_multiple_of (en - fo) page_size) (rg_size region)" "rs < re"
    "fo + rs + (re - rs) \<le> mem_len"
    "s = \<lparr>host_addr = base_host_virt_addr region + rs, sg_file_offset = fo + rs, sg_len = re - rs\<rparr>"
proof -
  define fo where "fo = rg_file_offset region"
  define st where "st = max start fo"
  define en where "en = min stop (fo + rg_size region)"
  define rs where "rs = align_down (st - fo) page_size"
  define up where "up = next_multiple_of (en - fo) page_size"
  define re where "re = min up (rg_size region)"
  note p = assms [unfolded place_def Let_def, folded fo_def, folded st_def, folded rs_def]
  have c1: "fo + rg_size region \<le> u64_max"
    using p by (cases "checked_add fo (rg_size region)") auto
  then have "checked_add fo (rg_size region) = Some (fo + rg_size region)" by simp
  note p = p [unfolded this bind.simps, folded en_def]
  have c2: "st < en" and p: "(checked_next_multiple_of (en - fo) page_size \<bind> (\<lambda>up.
      if min up (rg_size region) \<le> rs then None
      else checked_add fo rs \<bind> (\<lambda>file_offset. checked_add file_offset (min up (rg_size region) - rs) \<bind>
        (\<lambda>file_end. if mem_len < file_end then None
           else checked_add (base_host_virt_addr region) rs \<bind>
             (\<lambda>addr. Some \<lparr>host_addr = addr, sg_file_offset = file_offset,
                sg_len = min up (rg_size region) - rs\<rparr>))))) = Some s"
    using p by (cases "en \<le> st"; simp)+
  have c3: "page_size \<noteq> 0" "checked_next_multiple_of (en - fo) page_size = Some up"
    using p by (cases "checked_next_multiple_of (en - fo) page_size";
      simp add: checked_next_multiple_of_def up_def split: if_splits)+
  note p = p [unfolded c3(2) bind.simps, folded re_def]
  have "rs < re" "fo + rs + (re - rs) \<le> mem_len"
    "s = \<lparr>host_addr = base_host_virt_addr region + rs, sg_file_offset = fo + rs, sg_len = re - rs\<rparr>"
    using p by (auto split: if_splits bind_splits)
  then show ?thesis
    using that [OF fo_def c1 st_def en_def c2 rs_def c3(1)] unfolding re_def up_def by blast
qed

lemma place_spec:
  assumes "place start stop region (2 ^ k) mem_len = Some s" and "k < 64"
  shows "seg_pairs s \<subseteq> region_pairs region"
    and "sg_file_offset s + sg_len s \<le> mem_len"
    and "\<And>x. start \<le> x \<Longrightarrow> x < stop \<Longrightarrow> rg_file_offset region \<le> x \<Longrightarrow> x < rg_file_offset region + rg_size region \<Longrightarrow>
      (base_host_virt_addr region + (x - rg_file_offset region), x) \<in> seg_pairs s"
    and "\<exists>q. host_addr s = base_host_virt_addr region + q * 2 ^ k" and "0 < sg_len s"
    and "2 ^ k dvd rg_size region \<Longrightarrow> 2 ^ k dvd sg_len s"
proof -
  let ?ps = "2 ^ k :: nat"
  obtain fo st en rs re where fo: "fo = rg_file_offset region" and r64: "fo + rg_size region \<le> u64_max"
    and st: "st = max start fo" and en: "en = min stop (fo + rg_size region)" and ord: "st < en"
    and rs0: "rs = align_down (st - fo) ?ps"
    and re: "re = min (next_multiple_of (en - fo) ?ps) (rg_size region)" and le: "rs < re" "fo + rs + (re - rs) \<le> mem_len"
    and s: "s = \<lparr>host_addr = base_host_virt_addr region + rs, sg_file_offset = fo + rs, sg_len = re - rs\<rparr>"
    using place_Some [OF assms(1)] by metis
  have "en \<le> fo + rg_size region" by (simp add: en)
  then have "st - fo < 2 ^ 64" using ord r64 by (simp add: u64_max_def)
  then have rs: "rs = (st - fo) div ?ps * ?ps" by (simp add: rs0 align_down_power [OF assms(2)])
  have bup: "en - fo \<le> next_multiple_of (en - fo) ?ps" by (rule le_next_multiple_of) simp
  have ra: "rs \<le> st - fo" by (simp add: rs)
  have bs: "re \<le> rg_size region" "en - fo \<le> re"
    using bup \<open>en \<le> fo + rg_size region\<close> by (simp_all add: re)
  show "seg_pairs s \<subseteq> region_pairs region"
  proof
    fix x
    assume "x \<in> seg_pairs s"
    then obtain i where "i < re - rs" "x = (base_host_virt_addr region + (rs + i), fo + (rs + i))"
      by (auto simp: seg_pairs_def s add.assoc)
    moreover from this have "rs + i < rg_size region" using bs(1) by linarith
    ultimately show "x \<in> region_pairs region" unfolding region_pairs_def fo by blast
  qed
  show "sg_file_offset s + sg_len s \<le> mem_len" "0 < sg_len s" using le by (simp_all add: s)
  show "(base_host_virt_addr region + (x - rg_file_offset region), x) \<in> seg_pairs s"
    if "start \<le> x" "x < stop" "rg_file_offset region \<le> x" "x < rg_file_offset region + rg_size region" for x
  proof -
    have x: "st \<le> x" "x < en" using that by (simp_all add: st en fo)
    then have "rs \<le> x - fo" "x - fo - rs < re - rs" using ra bs(2) le(1) that(3) fo by linarith+
    then show ?thesis
      using that(3) fo unfolding seg_pairs_def s by (auto intro!: exI [of _ "x - fo - rs"])
  qed
  show "\<exists>q. host_addr s = base_host_virt_addr region + q * ?ps" by (auto simp: s rs)
  show "?ps dvd sg_len s" if "?ps dvd rg_size region"
    using that by (auto simp: s re rs min_def intro!: dvd_diff_nat)
qed

lemma place_exists:
  assumes "start \<le> x" "x < stop" and "rg_file_offset region \<le> x" "x < rg_file_offset region + rg_size region"
    and inside: "rg_file_offset region + rg_size region \<le> mem_len" "mem_len \<le> 2 ^ 63"
    and addr: "base_host_virt_addr region + rg_size region \<le> u64_max" and k: "k \<le> 21"
  shows "\<exists>s. place start stop region (2 ^ k) mem_len = Some s"
proof -
  let ?ps = "2 ^ k :: nat"
  define fo where "fo = rg_file_offset region"
  define st where "st = max start fo"
  define en where "en = min stop (fo + rg_size region)"
  define rs where "rs = align_down (st - fo) ?ps"
  have x: "st \<le> x" "x < en" "fo \<le> st" "en \<le> fo + rg_size region" using assms(1-4) by (simp_all add: st_def en_def fo_def)
  have small: "fo + rg_size region \<le> 2 ^ 63" using inside by (simp add: fo_def)
  then have "st - fo < 2 ^ 64" using x by simp
  then have rs: "rs = (st - fo) div ?ps * ?ps" using k by (simp add: rs_def align_down_power)
  have ps: "?ps \<le> 2 ^ 21" using k by (intro power_increasing) simp_all
  define up where "up = next_multiple_of (en - fo) ?ps"
  have up: "en - fo \<le> up" "up < en - fo + ?ps" unfolding up_def
    by (simp_all add: le_next_multiple_of next_multiple_of_less)
  define re where "re = min up (rg_size region)"
  have rel: "rs \<le> st - fo" "en - fo \<le> re" "re \<le> rg_size region" using up(1) x(4) by (simp_all add: rs re_def)
  then have lt: "rs < re" using x by linarith
  have c: "checked_add fo (rg_size region) = Some (fo + rg_size region)"
    "checked_next_multiple_of (en - fo) ?ps = Some up"
    "checked_add fo rs = Some (fo + rs)" "checked_add (fo + rs) (re - rs) = Some (fo + re)"
    "checked_add (base_host_virt_addr region) rs = Some (base_host_virt_addr region + rs)"
    using small up(2) ps x(4) rel lt addr
    by (simp_all add: checked_next_multiple_of_def up_def [symmetric] u64_max_def)
  have "\<not> en \<le> st" "\<not> re \<le> rs" "\<not> mem_len < fo + re" using x lt rel inside(1) by (auto simp: fo_def)
  then show ?thesis
    unfolding place_def Let_def fo_def [symmetric] st_def [symmetric] c(1) bind.simps en_def [symmetric]
      rs_def [symmetric] c(2) re_def [symmetric] c(3-5) by simp
qed

lemma coalesce_all:
  assumes "\<And>p s m. Q p \<Longrightarrow> Q s \<Longrightarrow> merge p s = Some m \<Longrightarrow> Q m"
  shows "(\<forall>p. pend = Some p \<longrightarrow> Q p) \<Longrightarrow> (\<forall>s \<in> set ss. Q s) \<Longrightarrow> \<forall>s \<in> set (coalesce pend ss). Q s"
  by (induction pend ss rule: coalesce.induct) (auto split: option.splits intro: assms)

lemma in_place_run:
  "s \<in> set (place_run ps n regions run) \<longleftrightarrow> (\<exists>region \<in> set regions. place (fst run) (snd run) region ps n = Some s)"
  by (induction regions) (auto split: option.splits)

lemma in_pieces:
  "s \<in> set (pieces_of ps n regions runs) \<longleftrightarrow>
     (\<exists>r \<in> set runs. \<exists>run \<in> set (clip_run n r). \<exists>region \<in> set regions. place (fst run) (snd run) region ps n = Some s)"
  by (auto simp: pieces_of_def in_place_run simp del: clip_run.simps)

definition usable_page_size :: "nat \<Rightarrow> bool" where
  "usable_page_size page_size \<longleftrightarrow> is_power_of_two page_size \<and> 4096 \<le> page_size \<and> page_size \<le> CHUNK_BYTES"

lemma usable_page_sizeE:
  assumes "usable_page_size page_size"
  obtains k where "page_size = 2 ^ k" "k \<le> 21"
proof -
  have le: "page_size \<le> 2 ^ 21" using assms by (simp add: usable_page_size_def CHUNK_BYTES_def)
  obtain k where k: "page_size = 2 ^ k"
    using assms le by (auto simp: usable_page_size_def elim!: is_power_of_twoE)
  have "k \<le> 21" using le power_increasing_iff [of "2 :: nat" k 21] unfolding k by linarith
  then show ?thesis using that k by blast
qed

lemma plan_collect_pieces:
  assumes "ps_inv s" and "page_set_runs s = Some runs"
  shows "plan_collect (plan_of s regions page_size mem_len) =
    Some (if usable_page_size page_size then coalesce None (pieces_of page_size mem_len regions runs) else [])"
  using plan_collect_spec [of "plan_of s regions page_size mem_len"] assms
  by (simp add: plan_of_def Let_def pieces_left_def page_set_runs_def usable_page_size_def [symmetric])

lemma pieces_sound:
  assumes "k < 64" and "seg \<in> set (coalesce None (pieces_of (2 ^ k) mem_len regions runs))" and "(h, f) \<in> seg_pairs seg"
  shows "f < mem_len \<and> (\<exists>region \<in> set regions. (h, f) \<in> region_pairs region)"
proof -
  have "(h, f) \<in> (\<Union>s \<in> set (pieces_of (2 ^ k) mem_len regions runs). seg_pairs s)"
    using assms(2,3) coalesce_pairs [of None "pieces_of (2 ^ k) mem_len regions runs"] by auto
  then obtain s run region where s: "(h, f) \<in> seg_pairs s" "region \<in> set regions"
    "place (fst run) (snd run) region (2 ^ k) mem_len = Some s" by (auto simp: in_pieces simp del: clip_run.simps)
  note sp = place_spec [OF s(3) assms(1)]
  have "f < mem_len" using s(1) sp(2) by (auto simp: seg_pairs_def)
  then show ?thesis using s(1,2) sp(1) by blast
qed

lemma pieces_complete:
  assumes k: "k \<le> 21" and n: "mem_len \<le> 2 ^ 63"
    and run: "r \<in> set runs" "x \<in> run_range r"
    and region: "region \<in> set regions" "rg_file_offset region + rg_size region \<le> mem_len"
      "base_host_virt_addr region + rg_size region \<le> u64_max" "(h, x) \<in> region_pairs region"
  shows "\<exists>seg \<in> set (coalesce None (pieces_of (2 ^ k) mem_len regions runs)). (h, x) \<in> seg_pairs seg"
proof -
  let ?fin = "min (saturating_add (run_offset r) (run_len r)) mem_len"
  have x: "rg_file_offset region \<le> x" "x < rg_file_offset region + rg_size region"
    "h = base_host_virt_addr region + (x - rg_file_offset region)"
    using region(4) by (auto simp: region_pairs_def)
  then have "x < mem_len" using region(2) by simp
  moreover have "mem_len < u64_max" using n by (simp add: u64_max_def)
  ultimately have r: "run_offset r \<le> x" "x < ?fin" using run(2) by (auto simp: run_range_def saturating_add_def)
  obtain s where s: "place (run_offset r) ?fin region (2 ^ k) mem_len = Some s"
    using place_exists [OF r x(1,2) region(2) n region(3) k] by blast
  have "(run_offset r, ?fin) \<in> set (clip_run mem_len r)" using r by (simp add: Let_def)
  then have "s \<in> set (pieces_of (2 ^ k) mem_len regions runs)"
    unfolding in_pieces using run(1) region(1) s by (metis fst_conv snd_conv)
  moreover have "(h, x) \<in> seg_pairs s" using place_spec(3) [OF s _ r x(1,2)] k x(3) by simp
  ultimately have "(h, x) \<in> (\<Union>s \<in> set (pieces_of (2 ^ k) mem_len regions runs). seg_pairs s)" by blast
  then show ?thesis using coalesce_pairs [of None "pieces_of (2 ^ k) mem_len regions runs"] by auto
qed

lemma pieces_aligned:
  assumes "k < 64" and "\<forall>region \<in> set regions. 2 ^ k dvd base_host_virt_addr region \<and> 2 ^ k dvd rg_size region"
  shows "\<forall>seg \<in> set (coalesce None (pieces_of (2 ^ k) mem_len regions runs)). 2 ^ k dvd host_addr seg \<and> 2 ^ k dvd sg_len seg"
proof (rule coalesce_all)
  show "2 ^ k dvd host_addr m \<and> 2 ^ k dvd sg_len m"
    if "2 ^ k dvd host_addr p \<and> 2 ^ k dvd sg_len p" "2 ^ k dvd host_addr s \<and> 2 ^ k dvd sg_len s" "merge p s = Some m"
    for p s m
    using that by (auto simp: merge_def max_def split: bind_splits if_splits intro!: dvd_add dvd_diff_nat)
  show "\<forall>s \<in> set (pieces_of (2 ^ k) mem_len regions runs). 2 ^ k dvd host_addr s \<and> 2 ^ k dvd sg_len s"
  proof
    fix s
    assume "s \<in> set (pieces_of (2 ^ k) mem_len regions runs)"
    then obtain run region where s: "region \<in> set regions" "place (fst run) (snd run) region (2 ^ k) mem_len = Some s"
      by (auto simp: in_pieces simp del: clip_run.simps)
    note sp = place_spec [OF s(2) assms(1)]
    obtain q where "host_addr s = base_host_virt_addr region + q * 2 ^ k" using sp(4) by blast
    then show "2 ^ k dvd host_addr s \<and> 2 ^ k dvd sg_len s" using sp(6) assms(2) s(1) by simp
  qed
qed simp

text \<open>
  Claim C1.  A plan tells the kernel the right thing and leaves nothing out.  For every recorded set
  that satisfies the invariant the plan ends without indexing out of range, and is empty unless the
  clone's page size can be planned for.  Every byte of every segment lies in the memory file and at
  the host address at which some region of the clone maps that file offset.  Every recorded byte that
  a region inside the file maps is in some segment at its host address.  And if the regions are page
  aligned, so are the segments, merged ones included.
\<close>

theorem plan_correct:
  assumes inv: "ps_inv s"
  shows "\<exists>segs. plan_collect (plan_of s regions page_size mem_len) = Some segs \<and>
    (\<not> usable_page_size page_size \<longrightarrow> segs = []) \<and>
    (\<forall>seg \<in> set segs. \<forall>(h, f) \<in> seg_pairs seg. f < mem_len \<and> (\<exists>region \<in> set regions. (h, f) \<in> region_pairs region)) \<and>
    (usable_page_size page_size \<longrightarrow> mem_len \<le> 2 ^ 63 \<longrightarrow>
      (\<forall>region \<in> set regions. rg_file_offset region + rg_size region \<le> mem_len \<longrightarrow>
         base_host_virt_addr region + rg_size region \<le> u64_max \<longrightarrow>
         (\<forall>(h, x) \<in> region_pairs region. x div GRANULE \<in> ps_set s \<longrightarrow>
            (\<exists>seg \<in> set segs. (h, x) \<in> seg_pairs seg)))) \<and>
    ((\<forall>region \<in> set regions. page_size dvd base_host_virt_addr region \<and> page_size dvd rg_size region) \<longrightarrow>
      (\<forall>seg \<in> set segs. page_size dvd host_addr seg \<and> page_size dvd sg_len seg))"
proof -
  obtain runs where runs: "page_set_runs s = Some runs"
    "(\<Union>r \<in> set runs. run_range r) = {x. x div GRANULE \<in> ps_set s}"
    using page_set_runs_from_spec [OF inv, of 0] unfolding page_set_runs_def by auto
  note pc = plan_collect_pieces [OF inv runs(1), of regions page_size mem_len]
  show ?thesis
  proof (cases "usable_page_size page_size")
    case False
    then show ?thesis using pc by simp
  next
    case True
    then obtain k where k: "page_size = 2 ^ k" "k \<le> 21" by (rule usable_page_sizeE)
    let ?segs = "coalesce None (pieces_of page_size mem_len regions runs)"
    have cover: "\<exists>seg \<in> set ?segs. (h, x) \<in> seg_pairs seg"
      if n: "mem_len \<le> 2 ^ 63" and rg: "region \<in> set regions" "rg_file_offset region + rg_size region \<le> mem_len"
        "base_host_virt_addr region + rg_size region \<le> u64_max" "(h, x) \<in> region_pairs region"
        and x: "x div GRANULE \<in> ps_set s" for region h x
    proof -
      obtain r where "r \<in> set runs" "x \<in> run_range r" using x runs(2) by blast
      then show ?thesis using pieces_complete [OF k(2) n _ _ rg] unfolding k(1) by blast
    qed
    show ?thesis
    proof (intro exI [of _ ?segs] conjI)
      show "plan_collect (plan_of s regions page_size mem_len) = Some ?segs" using pc True by simp
      show "\<forall>seg \<in> set ?segs. \<forall>(h, f) \<in> seg_pairs seg. f < mem_len \<and> (\<exists>region \<in> set regions. (h, f) \<in> region_pairs region)"
        using pieces_sound [of k] k by fastforce
      show "(\<forall>region \<in> set regions. page_size dvd base_host_virt_addr region \<and> page_size dvd rg_size region) \<longrightarrow>
          (\<forall>seg \<in> set ?segs. page_size dvd host_addr seg \<and> page_size dvd sg_len seg)"
        using pieces_aligned [of k regions] k by simp
    qed (use True cover in blast)+
  qed
qed

theorem plan_correct_witness:
  "\<exists>segs. plan_collect (plan_of (page_set_empty 8192) [\<lparr>base_host_virt_addr = 65536, rg_file_offset = 0, rg_size = 8192\<rparr>]
       4096 8192) = Some segs \<and>
     (\<forall>seg \<in> set segs. \<forall>(h, f) \<in> seg_pairs seg. f < 8192)"
  using plan_correct [OF ps_inv_empty, of 8192 "[\<lparr>base_host_virt_addr = 65536, rg_file_offset = 0, rg_size = 8192\<rparr>]" 4096 8192]
  by fastforce

text \<open>
  A run that ends in a page reaching past the memory file is not placed at all, the whole pages
  before that page included.  It takes a region that extends past the file.
\<close>

lemma place_drops_whole_run:
  "place 0 (2 ^ 21 + 4096) \<lparr>base_host_virt_addr = 2 ^ 30, rg_file_offset = 0, rg_size = 2 ^ 22\<rparr> (2 ^ 21) (2 ^ 21 + 4096)
     = None"
  by (simp add: place_def Let_def checked_add_def checked_next_multiple_of_def next_multiple_of_def
      div_ceil_def u64_max_def align_down_power)

section \<open>Populating one chunk\<close>

datatype uffd_error = CopyFailed int | ZeropageFailed int | SystemError int | PartiallyCopied nat | OtherUffdError

datatype source = Copy nat | Minor | ZeroPage

datatype stop = VmGone | Refused

record progress =
  advanced :: nat
  populated :: nat

text \<open>The ioctls: copying from an offset of the mapping, continuing and zero-filling, and for the last
  one the raw return code, errno and \<open>zeropage\<close> field.\<close>

record uffd_ops =
  uf_copy :: "nat \<Rightarrow> nat \<Rightarrow> nat \<Rightarrow> uffd_error + nat"
  uf_continue :: "nat \<Rightarrow> nat \<Rightarrow> uffd_error + nat"
  uf_zeropage :: "nat \<Rightarrow> nat \<Rightarrow> int \<times> int \<times> int"

definition progress_populated :: "nat \<Rightarrow> progress" where
  "progress_populated b = \<lparr>advanced = b, populated = b\<rparr>"

definition progress_stepped_over :: "nat \<Rightarrow> progress" where
  "progress_stepped_over b = \<lparr>advanced = b, populated = 0\<rparr>"

definition EAGAIN :: int where "EAGAIN = 11"
definition EEXIST :: int where "EEXIST = 17"
definition ESRCH :: int where "ESRCH = 3"

text \<open>\<open>usize as isize\<close>: the same 64 bits read with a sign.\<close>

definition as_isize :: "nat \<Rightarrow> int" where
  "as_isize x = (if x < 2 ^ 63 then int x else int x - 2 ^ 64)"

fun errno_of :: "uffd_error \<Rightarrow> int option" where
  "errno_of (CopyFailed errno) = Some errno"
| "errno_of (ZeropageFailed errno) = Some errno"
| "errno_of (SystemError errno) = Some errno"
| "errno_of (PartiallyCopied copy) =
     (let c = as_isize copy
      in if c \<ge> 1 then None else if c = 0 then Some EAGAIN
         else if - c < 2 ^ 31 then Some (- c) else None)"
| "errno_of OtherUffdError = None"

fun ioctl_progress :: "uffd_error + nat \<Rightarrow> int option + nat" where
  "ioctl_progress (Inr n) = Inr n"
| "ioctl_progress (Inl e) =
     (case e of
        PartiallyCopied copied \<Rightarrow> if as_isize copied > 0 then Inr copied else Inl (errno_of e)
      | _ \<Rightarrow> Inl (errno_of e))"

definition zero_page_range :: "(nat \<Rightarrow> nat \<Rightarrow> int \<times> int \<times> int) \<Rightarrow> nat \<Rightarrow> nat \<Rightarrow> int option + nat" where
  "zero_page_range zeropage dst len =
     (case zeropage dst len of (rc, errno, mapped) \<Rightarrow>
        if rc = 0 then Inr len
        else if mapped > 0 then Inr (nat mapped)
        else Inl (Some errno))"

definition populate_chunk_counted ::
  "uffd_ops \<Rightarrow> source \<Rightarrow> segment \<Rightarrow> nat \<Rightarrow> nat \<Rightarrow> stop + progress" where
  "populate_chunk_counted uffd source segment start page_size =
     (case checked_sub (sg_len segment) start of
        None \<Rightarrow> Inl Refused
      | Some remaining \<Rightarrow>
        if remaining = 0 then Inl Refused
        else case checked_add (host_addr segment) start of
          None \<Rightarrow> Inl Refused
        | Some addr \<Rightarrow>
          (case checked_add (sg_file_offset segment) start of
             None \<Rightarrow> Inl Refused
           | Some file_start \<Rightarrow>
             (let len = min CHUNK_BYTES remaining;
                  filled = (case source of
                      Copy mapped \<Rightarrow>
                        (case checked_add file_start len of
                           None \<Rightarrow> None
                         | Some file_end \<Rightarrow>
                             if file_end \<le> mapped then Some (ioctl_progress (uf_copy uffd file_start addr len))
                             else None)
                    | Minor \<Rightarrow> Some (ioctl_progress (uf_continue uffd addr len))
                    | ZeroPage \<Rightarrow> Some (zero_page_range (uf_zeropage uffd) addr len))
              in case filled of
                   None \<Rightarrow> Inl Refused
                 | Some (Inr copied) \<Rightarrow>
                     if copied > 0 then Inr (progress_populated copied)
                     else Inr (progress_stepped_over (min page_size len))
                 | Some (Inl (Some errno)) \<Rightarrow>
                     if errno = EEXIST then Inr (progress_stepped_over (min page_size len))
                     else if errno = ESRCH then Inl VmGone
                     else Inl Refused
                 | Some (Inl None) \<Rightarrow> Inl Refused)))"

text \<open>What the kernel documents: an ioctl never reports more than it was asked to fill, in 64 bits.\<close>

definition uffd_reports_within :: "uffd_ops \<Rightarrow> bool" where
  "uffd_reports_within uffd \<longleftrightarrow>
     (\<forall>src dst len n. uf_copy uffd src dst len = Inr n \<longrightarrow> n \<le> len) \<and>
     (\<forall>src dst len n. uf_copy uffd src dst len = Inl (PartiallyCopied n) \<longrightarrow> n < 2 ^ 64 \<and> as_isize n \<le> int len) \<and>
     (\<forall>dst len n. uf_continue uffd dst len = Inr n \<longrightarrow> n \<le> len) \<and>
     (\<forall>dst len n. uf_continue uffd dst len = Inl (PartiallyCopied n) \<longrightarrow> n < 2 ^ 64 \<and> as_isize n \<le> int len) \<and>
     (\<forall>dst len rc errno n. uf_zeropage uffd dst len = (rc, errno, n) \<longrightarrow> n \<le> int len)"

lemma ioctl_progress_within:
  assumes "ioctl_progress r = Inr n" and "\<And>m. r = Inr m \<Longrightarrow> m \<le> len"
    and "\<And>m. r = Inl (PartiallyCopied m) \<Longrightarrow> m < 2 ^ 64 \<and> as_isize m \<le> int len"
  shows "n \<le> len"
proof (cases r)
  case (Inl e)
  then obtain c where "e = PartiallyCopied c" "as_isize c > 0" "n = c"
    using assms(1) by (cases e) (auto split: if_splits)
  then show ?thesis using assms(3) [of c] Inl by (auto simp: as_isize_def split: if_splits)
qed (use assms in auto)

text \<open>
  Claim C9.  One chunk makes progress and stays in bounds: whenever populating returns, replay may
  advance by at least one byte and by no more than what is left of the segment or one chunk, so a
  loop that advances by it ends; what it counts as populated is all of that or nothing; and bytes are
  read from the snapshot mapping only when the whole chunk lies inside it.  In particular the negated
  errno that the kernel leaves in a partial copy is never taken for a byte count.
\<close>

theorem populate_chunk_progress:
  assumes kernel: "uffd_reports_within uffd" and "0 < page_size"
    and run: "populate_chunk_counted uffd source segment start page_size = Inr p"
  shows "0 < advanced p \<and> start + advanced p \<le> sg_len segment \<and> advanced p \<le> CHUNK_BYTES \<and>
    (populated p = 0 \<or> populated p = advanced p) \<and>
    (\<forall>mapped. source = Copy mapped \<longrightarrow>
       sg_file_offset segment + start + min CHUNK_BYTES (sg_len segment - start) \<le> mapped)"
proof -
  define len where "len = min CHUNK_BYTES (sg_len segment - start)"
  have st: "start < sg_len segment" "host_addr segment + start \<le> u64_max" "sg_file_offset segment + start \<le> u64_max"
    using run by (auto simp: populate_chunk_counted_def checked_sub_def split: option.splits if_splits)
  define filled where "filled = (case source of
      Copy mapped \<Rightarrow>
        (case checked_add (sg_file_offset segment + start) len of
           None \<Rightarrow> None
         | Some file_end \<Rightarrow>
             if file_end \<le> mapped then Some (ioctl_progress (uf_copy uffd (sg_file_offset segment + start) (host_addr segment + start) len))
             else None)
    | Minor \<Rightarrow> Some (ioctl_progress (uf_continue uffd (host_addr segment + start) len))
    | ZeroPage \<Rightarrow> Some (zero_page_range (uf_zeropage uffd) (host_addr segment + start) len))"
  have len: "0 < len" "start + len \<le> sg_len segment" "len \<le> CHUNK_BYTES"
    using st(1) by (auto simp: len_def CHUNK_BYTES_def)
  have within: "n \<le> len" if "filled = Some (Inr n)" for n
    using that kernel ioctl_progress_within [of _ n len]
    by (fastforce simp: filled_def uffd_reports_within_def zero_page_range_def
        split: source.splits option.splits if_splits prod.splits)
  have bounds: "sg_file_offset segment + start + len \<le> mapped" if "source = Copy mapped" "filled \<noteq> None" for mapped
    using that by (auto simp: filled_def split: option.splits if_splits)
  have eq: "populate_chunk_counted uffd source segment start page_size =
      (case filled of
         None \<Rightarrow> Inl Refused
       | Some (Inr copied) \<Rightarrow>
           if copied > 0 then Inr (progress_populated copied) else Inr (progress_stepped_over (min page_size len))
       | Some (Inl (Some errno)) \<Rightarrow>
           if errno = EEXIST then Inr (progress_stepped_over (min page_size len))
           else if errno = ESRCH then Inl VmGone else Inl Refused
       | Some (Inl None) \<Rightarrow> Inl Refused)"
    using st unfolding populate_chunk_counted_def filled_def len_def by (simp add: checked_sub_def checked_add_def Let_def)
  have "filled \<noteq> None" using run unfolding eq by (cases filled) auto
  moreover have "(\<exists>n. filled = Some (Inr n) \<and> 0 < n \<and> p = progress_populated n) \<or> p = progress_stepped_over (min page_size len)"
    using run unfolding eq by (auto split: option.splits sum.splits if_splits)
  ultimately show ?thesis
    using within bounds len assms(2)
    by (auto simp: progress_populated_def progress_stepped_over_def len_def [symmetric] dest: le_trans)
qed

theorem populate_chunk_progress_witness:
  "\<exists>p. populate_chunk_counted \<lparr>uf_copy = (\<lambda>_ _ len. Inr len), uf_continue = (\<lambda>_ len. Inr len),
          uf_zeropage = (\<lambda>_ _. (-1, 17, 0))\<rparr> (Copy 8192)
        \<lparr>host_addr = 65536, sg_file_offset = 0, sg_len = 8192\<rparr> 4096 4096 = Inr p \<and> 4096 + advanced p \<le> 8192"
proof -
  let ?ops = "\<lparr>uf_copy = (\<lambda>_ _ len. Inr len), uf_continue = (\<lambda>_ len. Inr len), uf_zeropage = (\<lambda>_ _. (-1, 17, 0))\<rparr> :: uffd_ops"
  have k: "uffd_reports_within ?ops" by (simp add: uffd_reports_within_def)
  have run: "populate_chunk_counted ?ops (Copy 8192) \<lparr>host_addr = 65536, sg_file_offset = 0, sg_len = 8192\<rparr> 4096 4096
      = Inr (progress_populated 4096)"
    by (simp add: populate_chunk_counted_def checked_sub_def checked_add_def u64_max_def CHUNK_BYTES_def)
  show ?thesis using populate_chunk_progress [OF k _ run] run by auto
qed

end
