(* ===== verification/Framing.thy ===== *)
theory Framing
  imports Byte_Codec "HOL-Library.Sublist"
begin

text \<open>
  Reading from a byte stream and the contract of a self-delimiting message encoding.  A reader is the
  bytes that are still to come on a connection that then ends; \<open>read_exact\<close> takes a number of them
  or fails with the end of file.  The locale \<open>frame_codec\<close> is what a consumer of framed messages
  relies on: a written message reads back and leaves the bytes behind it, a cut message is an end of
  file and never a message, and every message read consumes at least one byte.
\<close>

datatype io_error = UnexpectedEof | InvalidData

type_synonym 'a io = "io_error + 'a"

definition read_exact :: "nat \<Rightarrow> bytes \<Rightarrow> (bytes \<times> bytes) io" where
  "read_exact n s = (if length s < n then Inl UnexpectedEof else Inr (take n s, drop n s))"

text \<open>The early return of \<open>?\<close>.\<close>

definition try_io :: "'a io \<Rightarrow> ('a \<Rightarrow> 'b io) \<Rightarrow> 'b io" where
  "try_io r f = (case r of Inl e \<Rightarrow> Inl e | Inr x \<Rightarrow> f x)"

lemma try_io_simps [simp]: "try_io (Inl e) f = Inl e" "try_io (Inr x) f = f x"
  by (simp_all add: try_io_def)

lemma try_io_Inr: "try_io r f = Inr y \<longleftrightarrow> (\<exists>x. r = Inr x \<and> f x = Inr y)"
  by (cases r) simp_all

lemma read_exact_append: "length a = n \<Longrightarrow> read_exact n (a @ s) = Inr (a, s)"
  by (auto simp: read_exact_def)

lemma read_exact_short: "length s < n \<Longrightarrow> read_exact n s = Inl UnexpectedEof"
  by (simp add: read_exact_def)

lemma read_exact_Inr: "read_exact n s = Inr (a, t) \<longleftrightarrow> s = a @ t \<and> length a = n"
  by (auto simp: read_exact_def)

text \<open>Reading messages until the stream fails: the messages and the failure.  Every message consumes
  a byte, so a fuel of one more than the stream's length is enough.\<close>

fun decode_stream :: "(bytes \<Rightarrow> ('m \<times> bytes) io) \<Rightarrow> nat \<Rightarrow> bytes \<Rightarrow> ('m list \<times> io_error) option" where
  "decode_stream dec 0 s = None"
| "decode_stream dec (Suc n) s = (case dec s of
     Inl e \<Rightarrow> Some ([], e)
   | Inr (m, t) \<Rightarrow> map_option (\<lambda>(ms, e). (m # ms, e)) (decode_stream dec n t))"

locale frame_codec =
  fixes enc :: "'m \<Rightarrow> bytes"
    and dec :: "bytes \<Rightarrow> ('m \<times> bytes) io"
    and ok :: "'m \<Rightarrow> bool"
  assumes dec_enc: "ok m \<Longrightarrow> dec (enc m @ s) = Inr (m, s)"
    and dec_cut: "ok m \<Longrightarrow> strict_prefix p (enc m) \<Longrightarrow> dec p = Inl UnexpectedEof"
    and dec_consumes: "dec s = Inr (m, t) \<Longrightarrow> length t < length s"
begin

lemma enc_not_Nil: "ok m \<Longrightarrow> enc m \<noteq> []"
  using dec_enc [of m "[]"] dec_consumes [of "enc m" m "[]"] by auto

lemma enc_inject: "ok m \<Longrightarrow> ok m' \<Longrightarrow> enc m @ s = enc m' @ s' \<Longrightarrow> m = m' \<and> s = s'"
  using dec_enc [of m s] dec_enc [of m' s'] by (metis Inr_inject Pair_inject)

lemma stream_returns: "length s < n \<Longrightarrow> \<exists>ms e. decode_stream dec n s = Some (ms, e)"
proof (induction n arbitrary: s)
  case (Suc n)
  show ?case
  proof (cases "dec s")
    case (Inr r)
    obtain m t where r: "r = (m, t)" by (cases r)
    have "length t < n" using dec_consumes [of s m t] Inr r Suc.prems by simp
    then show ?thesis using Suc.IH [of t] Inr r by auto
  qed simp
qed simp

text \<open>A connection that carries whole messages and is then cut gives exactly those messages and the end
  of file.\<close>

lemma stream_cut:
  assumes "list_all ok ms" "ok m'" "strict_prefix p (enc m')" "length (concat (map enc ms) @ p) < n"
  shows "decode_stream dec n (concat (map enc ms) @ p) = Some (ms, UnexpectedEof)"
  using assms
proof (induction ms arbitrary: n)
  case Nil
  have "dec p = Inl UnexpectedEof" using dec_cut [OF Nil.prems(2,3)] .
  then show ?case using Nil.prems(4) by (cases n) simp_all
next
  case (Cons m ms)
  obtain n' where n: "n = Suc n'" using Cons.prems(4) by (cases n) simp_all
  have m: "ok m" using Cons.prems(1) by simp
  have "length (concat (map enc ms) @ p) < n'"
    using Cons.prems(4) enc_not_Nil [OF m] n by (cases "enc m") simp_all
  then have "decode_stream dec n' (concat (map enc ms) @ p) = Some (ms, UnexpectedEof)"
    using Cons.IH [of n'] Cons.prems(1-3) by simp
  then show ?case by (simp add: n dec_enc [OF m])
qed

end

lemma strict_prefix_appendD:
  assumes "strict_prefix p (a @ b)"
  shows "strict_prefix p a \<or> (\<exists>q. p = a @ q \<and> strict_prefix q b)"
proof -
  have "prefix p (a @ b)" "p \<noteq> a @ b" using assms by (simp_all add: strict_prefix_def)
  then show ?thesis unfolding prefix_append strict_prefix_def by (metis append_Nil2 prefix_bot.bot_least)
qed

lemma strict_prefix_length: "strict_prefix p a \<Longrightarrow> length p < length a"
  by (auto simp: strict_prefix_def prefix_def)

lemma read_exact_cut: "strict_prefix p a \<Longrightarrow> length a = n \<Longrightarrow> read_exact n p = Inl UnexpectedEof"
  using strict_prefix_length [of p a] by (simp add: read_exact_short)

end
