(* ===== verification/Fuse_Protocol.thy ===== *)
theory Fuse_Protocol
  imports Byte_Codec
begin

unbundle bit_operations_syntax

text \<open>
  The messages of the FUSE-over-pipe protocol: requests (\<open>fuse-pipe/src/protocol/request.rs\<close>),
  responses (\<open>response.rs\<close>) and the types they carry (\<open>types.rs\<close>), with the accessors the servers
  rely on.  Unsigned fields are natural numbers, signed ones integers, names and data byte lists.
  The uid, gid and pid a request carries for its caller are one record.
\<close>

section \<open>Types\<close>

record file_attr =
  fa_ino :: nat
  fa_size :: nat
  fa_blocks :: nat
  fa_atime_secs :: int
  fa_atime_nsecs :: nat
  fa_mtime_secs :: int
  fa_mtime_nsecs :: nat
  fa_ctime_secs :: int
  fa_ctime_nsecs :: nat
  fa_mode :: nat
  fa_nlink :: nat
  fa_uid :: nat
  fa_gid :: nat
  fa_rdev :: nat
  fa_blksize :: nat

definition file_attr_new :: "nat \<Rightarrow> file_attr" where
  "file_attr_new ino =
     \<lparr>fa_ino = ino, fa_size = 0, fa_blocks = 0, fa_atime_secs = 0, fa_atime_nsecs = 0,
      fa_mtime_secs = 0, fa_mtime_nsecs = 0, fa_ctime_secs = 0, fa_ctime_nsecs = 0, fa_mode = 0,
      fa_nlink = 1, fa_uid = 0, fa_gid = 0, fa_rdev = 0, fa_blksize = 4096\<rparr>"

definition S_IFMT :: nat where "S_IFMT = 0xF000"
definition S_IFIFO :: nat where "S_IFIFO = 0x1000"
definition S_IFCHR :: nat where "S_IFCHR = 0x2000"
definition S_IFDIR :: nat where "S_IFDIR = 0x4000"
definition S_IFBLK :: nat where "S_IFBLK = 0x6000"
definition S_IFREG :: nat where "S_IFREG = 0x8000"
definition S_IFLNK :: nat where "S_IFLNK = 0xA000"
definition S_IFSOCK :: nat where "S_IFSOCK = 0xC000"

lemmas mode_defs = S_IFMT_def S_IFIFO_def S_IFCHR_def S_IFDIR_def S_IFBLK_def S_IFREG_def
  S_IFLNK_def S_IFSOCK_def

definition attr_is_dir :: "file_attr \<Rightarrow> bool" where
  "attr_is_dir a \<longleftrightarrow> fa_mode a AND S_IFMT = S_IFDIR"

definition attr_is_file :: "file_attr \<Rightarrow> bool" where
  "attr_is_file a \<longleftrightarrow> fa_mode a AND S_IFMT = S_IFREG"

definition attr_is_symlink :: "file_attr \<Rightarrow> bool" where
  "attr_is_symlink a \<longleftrightarrow> fa_mode a AND S_IFMT = S_IFLNK"

record dir_entry =
  de_ino :: nat
  de_name :: bytes
  de_file_type :: nat

record dir_entry_plus =
  dp_ino :: nat
  dp_name :: bytes
  dp_attr :: file_attr
  dp_generation :: nat
  dp_attr_ttl_secs :: nat
  dp_entry_ttl_secs :: nat

text \<open>The names \<open>.\<close> and \<open>..\<close>, and the separator \<open>/\<close>.\<close>

definition DOT :: bytes where "DOT = [0x2E]"
definition DOTDOT :: bytes where "DOTDOT = [0x2E, 0x2E]"
definition SLASH :: u8 where "SLASH = 0x2F"

definition dir_entry_new :: "nat \<Rightarrow> bytes \<Rightarrow> nat \<Rightarrow> dir_entry" where
  "dir_entry_new ino name file_type = \<lparr>de_ino = ino, de_name = name, de_file_type = file_type\<rparr>"

definition dir_entry_dot :: "nat \<Rightarrow> dir_entry" where
  "dir_entry_dot ino = dir_entry_new ino DOT 4"

definition dir_entry_dotdot :: "nat \<Rightarrow> dir_entry" where
  "dir_entry_dotdot parent_ino = dir_entry_new parent_ino DOTDOT 4"

definition file_type_from_mode :: "nat \<Rightarrow> nat" where
  "file_type_from_mode mode =
     (let x = mode AND S_IFMT
      in if x = S_IFDIR then 4 else if x = S_IFREG then 8 else if x = S_IFLNK then 10
         else if x = S_IFCHR then 2 else if x = S_IFBLK then 6 else if x = S_IFIFO then 1
         else if x = S_IFSOCK then 12 else 0)"

section \<open>Requests\<close>

record cred =
  c_uid :: nat
  c_gid :: nat
  c_pid :: nat

record setattr_args =
  sa_mode :: "nat option"
  sa_uid :: "nat option"
  sa_gid :: "nat option"
  sa_size :: "nat option"
  sa_atime_secs :: "int option"
  sa_atime_nsecs :: "nat option"
  sa_atime_now :: bool
  sa_mtime_secs :: "int option"
  sa_mtime_nsecs :: "nat option"
  sa_mtime_now :: bool

record lock_args =
  lk_owner :: nat
  lk_start :: nat
  lk_end :: nat
  lk_typ :: int
  lk_pid :: nat

record range_args =
  ra_ino_in :: nat
  ra_fh_in :: nat
  ra_offset_in :: nat
  ra_ino_out :: nat
  ra_fh_out :: nat
  ra_offset_out :: nat
  ra_len :: nat
  ra_flags :: nat

datatype (plugins only: code size) volume_request =
    RqLookup nat bytes cred
  | RqGetattr nat
  | RqSetattr nat setattr_args "nat option" cred
  | RqReaddir nat nat cred
  | RqMkdir nat bytes nat cred
  | RqMknod nat bytes nat nat cred
  | RqRmdir nat bytes cred
  | RqCreate nat bytes nat nat cred
  | RqOpen nat nat cred
  | RqRead nat nat nat nat cred
  | RqWrite nat nat nat bytes cred
  | RqRelease nat nat
  | RqFlush nat nat
  | RqFsync nat nat bool
  | RqUnlink nat bytes cred
  | RqRename nat bytes nat bytes nat cred
  | RqSymlink nat bytes bytes cred
  | RqReadlink nat
  | RqLink nat nat bytes cred
  | RqAccess nat nat cred
  | RqStatfs nat
  | RqOpendir nat nat cred
  | RqReleasedir nat nat
  | RqFsyncdir nat nat bool
  | RqSetxattr nat bytes bytes nat cred
  | RqGetxattr nat bytes nat cred
  | RqListxattr nat nat cred
  | RqRemovexattr nat bytes cred
  | RqFallocate nat nat nat nat nat
  | RqLseek nat nat int nat
  | RqGetlk nat nat lock_args
  | RqSetlk nat nat lock_args bool
  | RqReaddirplus nat nat nat cred
  | RqCopyFileRange range_args
  | RqRemapFileRange range_args
  | RqForget nat nat
  | RqBatchForget "(nat \<times> nat) list"

definition op_name :: "volume_request \<Rightarrow> string" where
  "op_name r = (case r of
     RqLookup _ _ _ \<Rightarrow> ''lookup'' | RqGetattr _ \<Rightarrow> ''getattr'' | RqSetattr _ _ _ _ \<Rightarrow> ''setattr''
   | RqReaddir _ _ _ \<Rightarrow> ''readdir'' | RqMkdir _ _ _ _ \<Rightarrow> ''mkdir'' | RqMknod _ _ _ _ _ \<Rightarrow> ''mknod''
   | RqRmdir _ _ _ \<Rightarrow> ''rmdir'' | RqCreate _ _ _ _ _ \<Rightarrow> ''create'' | RqOpen _ _ _ \<Rightarrow> ''open''
   | RqRead _ _ _ _ _ \<Rightarrow> ''read'' | RqWrite _ _ _ _ _ \<Rightarrow> ''write'' | RqRelease _ _ \<Rightarrow> ''release''
   | RqFlush _ _ \<Rightarrow> ''flush'' | RqFsync _ _ _ \<Rightarrow> ''fsync'' | RqUnlink _ _ _ \<Rightarrow> ''unlink''
   | RqRename _ _ _ _ _ _ \<Rightarrow> ''rename'' | RqSymlink _ _ _ _ \<Rightarrow> ''symlink'' | RqReadlink _ \<Rightarrow> ''readlink''
   | RqLink _ _ _ _ \<Rightarrow> ''link'' | RqAccess _ _ _ \<Rightarrow> ''access'' | RqStatfs _ \<Rightarrow> ''statfs''
   | RqOpendir _ _ _ \<Rightarrow> ''opendir'' | RqReleasedir _ _ \<Rightarrow> ''releasedir''
   | RqFsyncdir _ _ _ \<Rightarrow> ''fsyncdir'' | RqSetxattr _ _ _ _ _ \<Rightarrow> ''setxattr''
   | RqGetxattr _ _ _ _ \<Rightarrow> ''getxattr'' | RqListxattr _ _ _ \<Rightarrow> ''listxattr''
   | RqRemovexattr _ _ _ \<Rightarrow> ''removexattr'' | RqFallocate _ _ _ _ _ \<Rightarrow> ''fallocate''
   | RqLseek _ _ _ _ \<Rightarrow> ''lseek'' | RqGetlk _ _ _ \<Rightarrow> ''getlk'' | RqSetlk _ _ _ _ \<Rightarrow> ''setlk''
   | RqReaddirplus _ _ _ _ \<Rightarrow> ''readdirplus'' | RqCopyFileRange _ \<Rightarrow> ''copy_file_range''
   | RqRemapFileRange _ \<Rightarrow> ''remap_file_range'' | RqForget _ _ \<Rightarrow> ''forget''
   | RqBatchForget _ \<Rightarrow> ''batch_forget'')"

definition is_read_op :: "volume_request \<Rightarrow> bool" where
  "is_read_op r = (case r of
     RqLookup _ _ _ \<Rightarrow> True | RqGetattr _ \<Rightarrow> True | RqReaddir _ _ _ \<Rightarrow> True | RqRead _ _ _ _ _ \<Rightarrow> True
   | RqReadlink _ \<Rightarrow> True | RqAccess _ _ _ \<Rightarrow> True | RqStatfs _ \<Rightarrow> True | RqOpendir _ _ _ \<Rightarrow> True
   | RqGetxattr _ _ _ _ \<Rightarrow> True | RqListxattr _ _ _ \<Rightarrow> True | RqLseek _ _ _ _ \<Rightarrow> True
   | RqGetlk _ _ _ \<Rightarrow> True | RqReaddirplus _ _ _ _ \<Rightarrow> True | _ \<Rightarrow> False)"

definition O_ACCMODE :: nat where "O_ACCMODE = 3"
definition O_TRUNC :: nat where "O_TRUNC = 0x200"
definition O_RDONLY :: nat where "O_RDONLY = 0"
definition W_OK :: nat where "W_OK = 2"

definition opens_for_writing :: "nat \<Rightarrow> bool" where
  "opens_for_writing flags \<longleftrightarrow> flags AND (O_ACCMODE OR O_TRUNC) \<noteq> O_RDONLY"

definition writes_to_volume :: "volume_request \<Rightarrow> bool" where
  "writes_to_volume r = (case r of
     RqSetattr _ _ _ _ \<Rightarrow> True | RqMkdir _ _ _ _ \<Rightarrow> True | RqMknod _ _ _ _ _ \<Rightarrow> True
   | RqRmdir _ _ _ \<Rightarrow> True | RqCreate _ _ _ _ _ \<Rightarrow> True | RqWrite _ _ _ _ _ \<Rightarrow> True
   | RqUnlink _ _ _ \<Rightarrow> True | RqRename _ _ _ _ _ _ \<Rightarrow> True | RqSymlink _ _ _ _ \<Rightarrow> True
   | RqLink _ _ _ _ \<Rightarrow> True | RqSetxattr _ _ _ _ _ \<Rightarrow> True | RqRemovexattr _ _ _ \<Rightarrow> True
   | RqFallocate _ _ _ _ _ \<Rightarrow> True | RqCopyFileRange _ \<Rightarrow> True | RqRemapFileRange _ \<Rightarrow> True
   | RqOpen _ flags _ \<Rightarrow> opens_for_writing flags
   | RqAccess _ mask' _ \<Rightarrow> mask' AND W_OK \<noteq> 0
   | _ \<Rightarrow> False)"

definition is_no_reply :: "volume_request \<Rightarrow> bool" where
  "is_no_reply r = (case r of RqForget _ _ \<Rightarrow> True | RqBatchForget _ \<Rightarrow> True | _ \<Rightarrow> False)"

definition rq_fh :: "volume_request \<Rightarrow> nat option" where
  "rq_fh r = (case r of
     RqRead _ fh _ _ _ \<Rightarrow> Some fh | RqWrite _ fh _ _ _ \<Rightarrow> Some fh | RqRelease _ fh \<Rightarrow> Some fh
   | RqFlush _ fh \<Rightarrow> Some fh | RqFsync _ fh _ \<Rightarrow> Some fh | RqReleasedir _ fh \<Rightarrow> Some fh
   | RqFsyncdir _ fh _ \<Rightarrow> Some fh | RqFallocate _ fh _ _ _ \<Rightarrow> Some fh | RqLseek _ fh _ _ \<Rightarrow> Some fh
   | RqGetlk _ fh _ \<Rightarrow> Some fh | RqSetlk _ fh _ _ \<Rightarrow> Some fh | RqReaddirplus _ fh _ _ \<Rightarrow> Some fh
   | RqSetattr _ _ fh _ \<Rightarrow> fh
   | RqCopyFileRange a \<Rightarrow> Some (ra_fh_in a) | RqRemapFileRange a \<Rightarrow> Some (ra_fh_in a)
   | _ \<Rightarrow> None)"

definition with_fh :: "volume_request \<Rightarrow> nat \<Rightarrow> volume_request" where
  "with_fh r h = (case r of
     RqRead ino _ off sz c \<Rightarrow> RqRead ino h off sz c
   | RqWrite ino _ off d c \<Rightarrow> RqWrite ino h off d c
   | RqRelease ino _ \<Rightarrow> RqRelease ino h
   | RqFlush ino _ \<Rightarrow> RqFlush ino h
   | RqFsync ino _ ds \<Rightarrow> RqFsync ino h ds
   | RqReleasedir ino _ \<Rightarrow> RqReleasedir ino h
   | RqFsyncdir ino _ ds \<Rightarrow> RqFsyncdir ino h ds
   | RqFallocate ino _ off len mode \<Rightarrow> RqFallocate ino h off len mode
   | RqLseek ino _ off wh \<Rightarrow> RqLseek ino h off wh
   | RqGetlk ino _ l \<Rightarrow> RqGetlk ino h l
   | RqSetlk ino _ l sl \<Rightarrow> RqSetlk ino h l sl
   | RqReaddirplus ino _ off c \<Rightarrow> RqReaddirplus ino h off c
   | RqSetattr ino a _ c \<Rightarrow> RqSetattr ino a (Some h) c
   | RqCopyFileRange a \<Rightarrow> RqCopyFileRange (a\<lparr>ra_fh_in := h\<rparr>)
   | RqRemapFileRange a \<Rightarrow> RqRemapFileRange (a\<lparr>ra_fh_in := h\<rparr>)
   | _ \<Rightarrow> r)"

definition rq_fh_out :: "volume_request \<Rightarrow> (nat \<times> nat) option" where
  "rq_fh_out r = (case r of
     RqCopyFileRange a \<Rightarrow> Some (ra_ino_out a, ra_fh_out a)
   | RqRemapFileRange a \<Rightarrow> Some (ra_ino_out a, ra_fh_out a)
   | _ \<Rightarrow> None)"

definition with_fh_out :: "volume_request \<Rightarrow> nat \<Rightarrow> volume_request" where
  "with_fh_out r h = (case r of
     RqCopyFileRange a \<Rightarrow> RqCopyFileRange (a\<lparr>ra_fh_out := h\<rparr>)
   | RqRemapFileRange a \<Rightarrow> RqRemapFileRange (a\<lparr>ra_fh_out := h\<rparr>)
   | _ \<Rightarrow> r)"

definition is_dir_handle_op :: "volume_request \<Rightarrow> bool" where
  "is_dir_handle_op r = (case r of
     RqReaddirplus _ _ _ _ \<Rightarrow> True | RqReleasedir _ _ \<Rightarrow> True | RqFsyncdir _ _ _ \<Rightarrow> True | _ \<Rightarrow> False)"

definition rq_ino :: "volume_request \<Rightarrow> nat option" where
  "rq_ino r = (case r of
     RqGetattr ino \<Rightarrow> Some ino | RqReadlink ino \<Rightarrow> Some ino | RqStatfs ino \<Rightarrow> Some ino
   | RqRead ino _ _ _ _ \<Rightarrow> Some ino | RqWrite ino _ _ _ _ \<Rightarrow> Some ino | RqRelease ino _ \<Rightarrow> Some ino
   | RqFlush ino _ \<Rightarrow> Some ino | RqFsync ino _ _ \<Rightarrow> Some ino | RqOpen ino _ _ \<Rightarrow> Some ino
   | RqOpendir ino _ _ \<Rightarrow> Some ino | RqReleasedir ino _ \<Rightarrow> Some ino | RqFsyncdir ino _ _ \<Rightarrow> Some ino
   | RqFallocate ino _ _ _ _ \<Rightarrow> Some ino | RqLseek ino _ _ _ \<Rightarrow> Some ino | RqGetlk ino _ _ \<Rightarrow> Some ino
   | RqSetlk ino _ _ _ \<Rightarrow> Some ino | RqReaddirplus ino _ _ _ \<Rightarrow> Some ino
   | RqAccess ino _ _ \<Rightarrow> Some ino | RqForget ino _ \<Rightarrow> Some ino
   | RqCopyFileRange a \<Rightarrow> Some (ra_ino_in a) | RqRemapFileRange a \<Rightarrow> Some (ra_ino_in a)
   | RqLookup p _ _ \<Rightarrow> Some p | RqReaddir p _ _ \<Rightarrow> Some p | RqMkdir p _ _ _ \<Rightarrow> Some p
   | RqMknod p _ _ _ _ \<Rightarrow> Some p | RqRmdir p _ _ \<Rightarrow> Some p | RqCreate p _ _ _ _ \<Rightarrow> Some p
   | RqUnlink p _ _ \<Rightarrow> Some p | RqRename p _ _ _ _ _ \<Rightarrow> Some p | RqSymlink p _ _ _ \<Rightarrow> Some p
   | RqLink ino _ _ _ \<Rightarrow> Some ino | RqSetattr ino _ _ _ \<Rightarrow> Some ino
   | RqSetxattr ino _ _ _ _ \<Rightarrow> Some ino | RqGetxattr ino _ _ _ \<Rightarrow> Some ino
   | RqListxattr ino _ _ \<Rightarrow> Some ino | RqRemovexattr ino _ _ \<Rightarrow> Some ino
   | RqBatchForget _ \<Rightarrow> None)"

lemmas request_access_defs = is_read_op_def writes_to_volume_def is_no_reply_def rq_fh_def with_fh_def
  rq_fh_out_def with_fh_out_def is_dir_handle_op_def rq_ino_def op_name_def

section \<open>Responses\<close>

datatype (plugins only: code size) volume_response =
    RsAttr file_attr nat
  | RsEntry file_attr nat nat
  | RsCreated file_attr nat nat nat nat
  | RsData bytes
  | RsWritten nat
  | RsOpened nat nat
  | RsOpeneddir nat
  | RsDirEntries "dir_entry list"
  | RsDirEntriesPlus "dir_entry_plus list"
  | RsSymlink bytes
  | RsStatfs nat nat nat nat nat nat nat nat
  | RsXattr bytes
  | RsXattrSize nat
  | RsLseek nat
  | RsLock nat nat int nat
  | RsOk
  | RsError int

definition ENOENT :: int where "ENOENT = 2"
definition EIO :: int where "EIO = 5"
definition EBADF :: int where "EBADF = 9"
definition EACCES :: int where "EACCES = 13"

lemmas errno_defs = ENOENT_def EIO_def EBADF_def EACCES_def

definition rs_error :: "int \<Rightarrow> volume_response" where "rs_error e = RsError e"
definition rs_not_found :: volume_response where "rs_not_found = RsError ENOENT"
definition rs_permission_denied :: volume_response where "rs_permission_denied = RsError EACCES"
definition rs_io_error :: volume_response where "rs_io_error = RsError EIO"
definition rs_bad_fd :: volume_response where "rs_bad_fd = RsError EBADF"

lemmas error_response_defs = rs_error_def rs_not_found_def rs_permission_denied_def rs_io_error_def
  rs_bad_fd_def

definition rs_errno :: "volume_response \<Rightarrow> int option" where
  "rs_errno r = (case r of RsError e \<Rightarrow> Some e | _ \<Rightarrow> None)"

definition is_error :: "volume_response \<Rightarrow> bool" where
  "is_error r = (case r of RsError _ \<Rightarrow> True | _ \<Rightarrow> False)"

definition is_ebadf :: "volume_response \<Rightarrow> bool" where
  "is_ebadf r \<longleftrightarrow> rs_errno r = Some EBADF"

definition is_ok :: "volume_response \<Rightarrow> bool" where
  "is_ok r \<longleftrightarrow> \<not> is_error r"

definition rs_data :: "volume_response \<Rightarrow> bytes option" where
  "rs_data r = (case r of RsData d \<Rightarrow> Some d | _ \<Rightarrow> None)"

definition rs_attr :: "volume_response \<Rightarrow> file_attr option" where
  "rs_attr r = (case r of RsAttr a _ \<Rightarrow> Some a | RsEntry a _ _ \<Rightarrow> Some a
                        | RsCreated a _ _ _ _ \<Rightarrow> Some a | _ \<Rightarrow> None)"

text \<open>An I/O error becomes its errno, or \<open>EIO\<close> where the operating system gave none.\<close>

definition rs_of_io_error :: "int option \<Rightarrow> volume_response" where
  "rs_of_io_error raw_os_error = RsError (case raw_os_error of Some e \<Rightarrow> e | None \<Rightarrow> EIO)"

lemmas response_access_defs = rs_errno_def is_error_def is_ebadf_def is_ok_def rs_data_def rs_attr_def

section \<open>Laws of the accessors\<close>

text \<open>A request carries a file handle of its own unless it is one of the operations on names and
  inodes; \<^const>\<open>with_fh\<close> leaves those alone and, for the others, sets exactly that handle.\<close>

definition carries_fh :: "volume_request \<Rightarrow> bool" where
  "carries_fh r \<longleftrightarrow> rq_fh (with_fh r 0) \<noteq> None"

lemma with_fh_fh [simp]: "carries_fh r \<Longrightarrow> rq_fh (with_fh r h) = Some h"
  by (cases r) (simp_all add: carries_fh_def with_fh_def rq_fh_def)

lemma with_fh_other: "\<not> carries_fh r \<Longrightarrow> with_fh r h = r"
  by (cases r) (simp_all add: carries_fh_def with_fh_def rq_fh_def)

lemma fh_carries: "rq_fh r = Some h \<Longrightarrow> carries_fh r"
  by (cases r) (simp_all add: carries_fh_def with_fh_def rq_fh_def)

lemma with_fh_same: "rq_fh r = Some h \<Longrightarrow> with_fh r h = r"
  by (cases r) (simp_all add: with_fh_def rq_fh_def)

lemma with_fh_with_fh [simp]: "with_fh (with_fh r h) h' = with_fh r h'"
  by (cases r) (simp_all add: with_fh_def)

lemma with_fh_keeps [simp]:
  "rq_ino (with_fh r h) = rq_ino r" "op_name (with_fh r h) = op_name r"
  "writes_to_volume (with_fh r h) = writes_to_volume r"
  "is_dir_handle_op (with_fh r h) = is_dir_handle_op r"
  "rq_fh_out (with_fh r h) = rq_fh_out r"
  by (cases r; simp add: with_fh_def request_access_defs)+

lemma with_fh_out_keeps [simp]:
  "rq_ino (with_fh_out r h) = rq_ino r" "op_name (with_fh_out r h) = op_name r"
  "writes_to_volume (with_fh_out r h) = writes_to_volume r"
  "is_dir_handle_op (with_fh_out r h) = is_dir_handle_op r"
  "rq_fh (with_fh_out r h) = rq_fh r"
  by (cases r; simp add: with_fh_out_def request_access_defs)+

lemma with_fh_out_fh_out:
  "rq_fh_out (with_fh_out r h) = map_option (\<lambda>(ino, _). (ino, h)) (rq_fh_out r)"
  by (cases r) (simp_all add: with_fh_out_def rq_fh_out_def)

lemma with_fh_out_same: "rq_fh_out r = Some (ino, h) \<Longrightarrow> with_fh_out r h = r"
  by (cases r) (auto simp: with_fh_out_def rq_fh_out_def)

text \<open>The two handles of a copy are independent.\<close>

lemma with_fh_commute: "with_fh (with_fh_out r h') h = with_fh_out (with_fh r h) h'"
  by (cases r) (simp_all add: with_fh_def with_fh_out_def)

lemma attr_kind_from_mode:
  "attr_is_dir a \<longleftrightarrow> file_type_from_mode (fa_mode a) = 4"
  "attr_is_file a \<longleftrightarrow> file_type_from_mode (fa_mode a) = 8"
  "attr_is_symlink a \<longleftrightarrow> file_type_from_mode (fa_mode a) = 10"
  by (simp_all add: attr_is_dir_def attr_is_file_def attr_is_symlink_def file_type_from_mode_def
      Let_def mode_defs)

text \<open>
  No read operation writes to the volume, but for an access check, which is a read operation and
  counts as a write when it asks about write permission.
\<close>

lemma read_ops_do_not_write:
  "is_read_op r \<Longrightarrow> writes_to_volume r \<longleftrightarrow> (\<exists>ino mask' c. r = RqAccess ino mask' c \<and> mask' AND W_OK \<noteq> 0)"
  by (cases r) (simp_all add: is_read_op_def writes_to_volume_def)

end
