(* ===== verification/Fuse_Wire.thy ===== *)
theory Fuse_Wire
  imports Framing Fuse_Protocol
begin

text \<open>
  The framing of \<open>fuse-pipe/src/protocol/wire.rs\<close>: a big-endian 32-bit length, then the serialized
  message, at most \<open>MAX_MESSAGE_SIZE\<close> bytes.  The serializer (bincode) is a pair of parameters; what
  the code relies on is that a message it serialized deserializes to itself.  The clock that the trace
  spans read is an argument.
\<close>

section \<open>Messages\<close>

definition MAX_MESSAGE_SIZE :: nat where "MAX_MESSAGE_SIZE = 16 * 1024 * 1024"

record span =
  sp_t0 :: nat
  sp_server_recv :: nat
  sp_server_deser :: nat
  sp_server_spawn :: nat
  sp_server_fs_done :: nat
  sp_server_resp_chan :: nat
  sp_client_recv :: nat
  sp_client_done :: nat

record wire_request =
  wq_unique :: nat
  wq_reader_id :: nat
  wq_request :: volume_request
  wq_span :: "span option"
  wq_supplementary_groups :: "nat list"

record wire_response =
  ws_unique :: nat
  ws_reader_id :: nat
  ws_response :: volume_response
  ws_span :: "span option"

definition wire_request_new :: "nat \<Rightarrow> nat \<Rightarrow> volume_request \<Rightarrow> wire_request" where
  "wire_request_new unique reader_id request =
     \<lparr>wq_unique = unique, wq_reader_id = reader_id, wq_request = request, wq_span = None,
      wq_supplementary_groups = []\<rparr>"

definition wire_request_with_span :: "nat \<Rightarrow> nat \<Rightarrow> volume_request \<Rightarrow> span \<Rightarrow> wire_request" where
  "wire_request_with_span unique reader_id request sp =
     \<lparr>wq_unique = unique, wq_reader_id = reader_id, wq_request = request, wq_span = Some sp,
      wq_supplementary_groups = []\<rparr>"

definition wire_request_with_groups :: "nat \<Rightarrow> nat \<Rightarrow> volume_request \<Rightarrow> nat list \<Rightarrow> wire_request" where
  "wire_request_with_groups unique reader_id request groups =
     \<lparr>wq_unique = unique, wq_reader_id = reader_id, wq_request = request, wq_span = None,
      wq_supplementary_groups = groups\<rparr>"

definition wire_request_with_span_and_groups ::
  "nat \<Rightarrow> nat \<Rightarrow> volume_request \<Rightarrow> span \<Rightarrow> nat list \<Rightarrow> wire_request" where
  "wire_request_with_span_and_groups unique reader_id request sp groups =
     \<lparr>wq_unique = unique, wq_reader_id = reader_id, wq_request = request, wq_span = Some sp,
      wq_supplementary_groups = groups\<rparr>"

definition wire_response_new :: "nat \<Rightarrow> nat \<Rightarrow> volume_response \<Rightarrow> wire_response" where
  "wire_response_new unique reader_id response =
     \<lparr>ws_unique = unique, ws_reader_id = reader_id, ws_response = response, ws_span = None\<rparr>"

definition wire_response_with_span :: "nat \<Rightarrow> nat \<Rightarrow> volume_response \<Rightarrow> span \<Rightarrow> wire_response" where
  "wire_response_with_span unique reader_id response sp =
     \<lparr>ws_unique = unique, ws_reader_id = reader_id, ws_response = response, ws_span = Some sp\<rparr>"

section \<open>Frames\<close>

text \<open>A writer is the bytes written so far.\<close>

definition write_message :: "bytes \<Rightarrow> bytes \<Rightarrow> bytes io" where
  "write_message writer data =
     (if MAX_MESSAGE_SIZE < length data then Inl InvalidData
      else Inr (writer @ be_bytes 4 (length data) @ data))"

definition read_message :: "bytes \<Rightarrow> (bytes \<times> bytes) io" where
  "read_message reader =
     try_io (read_exact 4 reader) (\<lambda>(len_buf, reader).
       let len = of_be len_buf
       in if MAX_MESSAGE_SIZE < len then Inl InvalidData else read_exact len reader)"

text \<open>\<open>WireRequest::encode\<close> and \<open>decode\<close>, and those of \<open>WireResponse\<close>, over a serializer.\<close>

definition wire_request_encode :: "(wire_request \<Rightarrow> bytes option) \<Rightarrow> wire_request \<Rightarrow> bytes io" where
  "wire_request_encode serialize m = (case serialize m of
     None \<Rightarrow> Inl InvalidData
   | Some payload \<Rightarrow>
       if MAX_MESSAGE_SIZE < length payload then Inl InvalidData
       else Inr (be_bytes 4 (length payload) @ payload))"

definition wire_request_decode :: "(bytes \<Rightarrow> wire_request option) \<Rightarrow> bytes \<Rightarrow> wire_request io" where
  "wire_request_decode deserialize data =
     (case deserialize data of None \<Rightarrow> Inl InvalidData | Some m \<Rightarrow> Inr m)"

definition wire_response_encode :: "(wire_response \<Rightarrow> bytes option) \<Rightarrow> wire_response \<Rightarrow> bytes io" where
  "wire_response_encode serialize m = (case serialize m of
     None \<Rightarrow> Inl InvalidData
   | Some payload \<Rightarrow>
       if MAX_MESSAGE_SIZE < length payload then Inl InvalidData
       else Inr (be_bytes 4 (length payload) @ payload))"

definition wire_response_decode :: "(bytes \<Rightarrow> wire_response option) \<Rightarrow> bytes \<Rightarrow> wire_response io" where
  "wire_response_decode deserialize data =
     (case deserialize data of None \<Rightarrow> Inl InvalidData | Some m \<Rightarrow> Inr m)"

section \<open>Trace spans\<close>

definition span_new :: "nat \<Rightarrow> span" where
  "span_new now =
     \<lparr>sp_t0 = now, sp_server_recv = 0, sp_server_deser = 0, sp_server_spawn = 0,
      sp_server_fs_done = 0, sp_server_resp_chan = 0, sp_client_recv = 0, sp_client_done = 0\<rparr>"

definition span_mark :: "nat \<Rightarrow> string \<Rightarrow> span \<Rightarrow> span" where
  "span_mark now field sp =
     (if field = ''server_recv'' then sp\<lparr>sp_server_recv := now\<rparr>
      else if field = ''server_deser'' then sp\<lparr>sp_server_deser := now\<rparr>
      else if field = ''server_spawn'' then sp\<lparr>sp_server_spawn := now\<rparr>
      else if field = ''server_fs_done'' then sp\<lparr>sp_server_fs_done := now\<rparr>
      else if field = ''server_resp_chan'' then sp\<lparr>sp_server_resp_chan := now\<rparr>
      else if field = ''client_recv'' then sp\<lparr>sp_client_recv := now\<rparr>
      else if field = ''client_done'' then sp\<lparr>sp_client_done := now\<rparr>
      else sp)"

text \<open>The time between two marks in microseconds; none for a mark that was not set or a clock that
  went back.\<close>

definition span_delta :: "nat \<Rightarrow> nat \<Rightarrow> nat option" where
  "span_delta a b =
     (if a = 0 \<or> b = 0 then None else map_option (\<lambda>d. d div 1000) (checked_sub b a))"

section \<open>The frames are self-delimiting\<close>

definition frame :: "bytes \<Rightarrow> bytes" where
  "frame payload = be_bytes 4 (length payload) @ payload"

definition frame_ok :: "bytes \<Rightarrow> bool" where
  "frame_ok payload \<longleftrightarrow> length payload \<le> MAX_MESSAGE_SIZE"

lemma write_message_frame:
  "write_message w d = (if frame_ok d then Inr (w @ frame d) else Inl InvalidData)"
  by (simp add: write_message_def frame_def frame_ok_def)

lemma frame_length_round_trip: "frame_ok d \<Longrightarrow> of_be (be_bytes 4 (length d)) = length d"
  by (rule of_be_round_trip) (simp add: frame_ok_def MAX_MESSAGE_SIZE_def)

lemma read_message_header:
  "frame_ok d \<Longrightarrow> read_message (be_bytes 4 (length d) @ s) = read_exact (length d) s"
  unfolding read_message_def
  by (subst read_exact_append) (simp_all add: frame_length_round_trip, simp add: frame_ok_def)

interpretation wm: frame_codec frame read_message frame_ok
proof
  fix m s assume "frame_ok m"
  then show "read_message (frame m @ s) = Inr (m, s)"
    by (simp add: frame_def read_message_header read_exact_append)
next
  fix m p assume ok: "frame_ok m" and p: "strict_prefix p (frame m)"
  from strict_prefix_appendD [OF p [unfolded frame_def]]
  show "read_message p = Inl UnexpectedEof"
  proof
    assume "strict_prefix p (be_bytes 4 (length m))"
    then show ?thesis by (simp add: read_message_def read_exact_cut)
  next
    assume "\<exists>q. p = be_bytes 4 (length m) @ q \<and> strict_prefix q m"
    then show ?thesis using ok by (auto simp: read_message_header read_exact_cut)
  qed
next
  fix s m t assume "read_message s = Inr (m, t)"
  then show "length t < length s"
    by (auto simp: read_message_def Let_def try_io_Inr read_exact_Inr split: if_splits)
qed

text \<open>One side writes messages one after the other; the first that fails ends it.\<close>

fun write_messages :: "bytes \<Rightarrow> bytes list \<Rightarrow> bytes io" where
  "write_messages writer [] = Inr writer"
| "write_messages writer (data # ds) = try_io (write_message writer data) (\<lambda>writer. write_messages writer ds)"

lemma write_messages_frames:
  "write_messages w ds = (if list_all frame_ok ds then Inr (w @ concat (map frame ds)) else Inl InvalidData)"
  by (induction ds arbitrary: w) (simp_all add: write_message_frame)

text \<open>
  Claim C19.  Messages survive the pipe: writing a sequence of payloads succeeds exactly when each is within
  the size limit, and what was written by then, cut off anywhere inside the next message that is written, or
  right before it, is read by the other side as exactly those payloads in order followed by an end of file;
  no payload is lost, merged or made up.
\<close>

theorem wire_stream_exact:
  assumes "write_messages [] ds = Inr sent" and "write_message sent d = Inr longer"
    and "prefix sent stream" and "strict_prefix stream longer"
  shows "decode_stream read_message (Suc (length stream)) stream = Some (ds, UnexpectedEof) \<and>
    (\<forall>w ds'. (\<exists>w'. write_messages w ds' = Inr w') \<longleftrightarrow> (\<forall>d' \<in> set ds'. length d' \<le> MAX_MESSAGE_SIZE))"
proof
  have ds: "list_all frame_ok ds" "sent = concat (map frame ds)"
    using assms(1) by (simp_all add: write_messages_frames split: if_splits)
  have d: "frame_ok d" "longer = sent @ frame d" using assms(2) by (simp_all add: write_message_frame split: if_splits)
  obtain part where part: "stream = sent @ part" using assms(3) by (auto simp: prefix_def)
  then have "strict_prefix part (frame d)" using assms(4) d(2) by (simp add: strict_prefix_def)
  then show "decode_stream read_message (Suc (length stream)) stream = Some (ds, UnexpectedEof)"
    unfolding part ds(2) using ds(1) d(1) by (intro wm.stream_cut) simp_all
  show "\<forall>w ds'. (\<exists>w'. write_messages w ds' = Inr w') \<longleftrightarrow> (\<forall>d' \<in> set ds'. length d' \<le> MAX_MESSAGE_SIZE)"
    by (simp add: write_messages_frames list_all_iff frame_ok_def)
qed

theorem wire_stream_exact_witness:
  "write_messages [] [[1, 2], []] = Inr [0, 0, 0, 2, 1, 2, 0, 0, 0, 0] \<and>
   decode_stream read_message 13 [0, 0, 0, 2, 1, 2, 0, 0, 0, 0, 0, 0] = Some ([[1, 2], []], UnexpectedEof)"
proof -
  have sent: "write_messages [] [[1, 2], []] = Inr [0, 0, 0, 2, 1, 2, 0, 0, 0, 0]"
    by (simp add: write_message_def MAX_MESSAGE_SIZE_def be_bytes_4)
  have "write_message [0, 0, 0, 2, 1, 2, 0, 0, 0, 0] [7] = Inr [0, 0, 0, 2, 1, 2, 0, 0, 0, 0, 0, 0, 0, 1, 7]"
    by (simp add: write_message_def MAX_MESSAGE_SIZE_def be_bytes_4)
  from wire_stream_exact [OF sent this, of "[0, 0, 0, 2, 1, 2, 0, 0, 0, 0, 0, 0]"]
  show ?thesis using sent by (simp add: strict_prefix_def eval_nat_numeral)
qed

lemma wire_request_encode_Inr:
  "wire_request_encode ser m = Inr buf \<longleftrightarrow> (\<exists>p. ser m = Some p \<and> frame_ok p \<and> buf = frame p)"
  by (auto simp: wire_request_encode_def frame_ok_def frame_def split: option.split)

lemma wire_response_encode_Inr:
  "wire_response_encode ser m = Inr buf \<longleftrightarrow> (\<exists>p. ser m = Some p \<and> frame_ok p \<and> buf = frame p)"
  by (auto simp: wire_response_encode_def frame_ok_def frame_def split: option.split)

text \<open>
  A request that was encoded reads back from the pipe as the same request, whatever
  follows it, given that the serializer's output deserializes to its input.
\<close>

theorem wire_request_round_trip:
  assumes "\<forall>m p. ser m = Some p \<longrightarrow> deser p = Some m"
    and "wire_request_encode ser m = Inr buf"
  shows "try_io (read_message (buf @ rest)) (\<lambda>(p, t). try_io (wire_request_decode deser p) (\<lambda>m. Inr (m, t)))
           = Inr (m, rest)"
proof -
  obtain p where p: "ser m = Some p" "frame_ok p" "buf = frame p"
    using assms(2) by (auto simp: wire_request_encode_Inr)
  then have "deser p = Some m" using assms(1) by blast
  then show ?thesis using p by (simp add: wm.dec_enc wire_request_decode_def)
qed

lemma wire_response_round_trip:
  assumes "\<forall>m p. ser m = Some p \<longrightarrow> deser p = Some m"
    and "wire_response_encode ser m = Inr buf"
  shows "try_io (read_message (buf @ rest)) (\<lambda>(p, t). try_io (wire_response_decode deser p) (\<lambda>m. Inr (m, t)))
           = Inr (m, rest)"
proof -
  obtain p where p: "ser m = Some p" "frame_ok p" "buf = frame p"
    using assms(2) by (auto simp: wire_response_encode_Inr)
  then have "deser p = Some m" using assms(1) by blast
  then show ?thesis using p by (simp add: wm.dec_enc wire_response_decode_def)
qed

end
