(* ===== verification/Utf8.thy ===== *)
theory Utf8
  imports Byte_Codec
begin

text \<open>
  The parts of Rust's string library the sources use: which byte sequences are strings
  (\<open>String::from_utf8\<close>), the replacing conversion \<open>String::from_utf8_lossy\<close>, splitting at a
  separator and the decimal text of a number.  A Rust string is its list of UTF-8 bytes.
\<close>

section \<open>UTF-8\<close>

text \<open>Length of the sequence a first byte announces, 0 for a byte that starts none; the range of the
  second byte, which depends on the first; and how many of the announced bytes follow.\<close>

definition utf8_seq_len :: "u8 \<Rightarrow> nat" where
  "utf8_seq_len b = (if b < 0x80 then 1 else if b < 0xC2 then 0 else if b < 0xE0 then 2
                     else if b < 0xF0 then 3 else if b < 0xF5 then 4 else 0)"

definition is_cont :: "u8 \<Rightarrow> bool" where
  "is_cont c \<longleftrightarrow> 0x80 \<le> c \<and> c < 0xC0"

definition utf8_second_ok :: "u8 \<Rightarrow> u8 \<Rightarrow> bool" where
  "utf8_second_ok b c \<longleftrightarrow> is_cont c \<and> (b = 0xE0 \<longrightarrow> 0xA0 \<le> c) \<and> (b = 0xED \<longrightarrow> c < 0xA0)
                          \<and> (b = 0xF0 \<longrightarrow> 0x90 \<le> c) \<and> (b = 0xF4 \<longrightarrow> c < 0x90)"

definition utf8_run :: "u8 \<Rightarrow> bytes \<Rightarrow> nat" where
  "utf8_run b bs = (case take (utf8_seq_len b - 1) bs of
     [] \<Rightarrow> 0
   | c # cs \<Rightarrow> if utf8_second_ok b c then Suc (length (takeWhile is_cont cs)) else 0)"

fun utf8_valid :: "bytes \<Rightarrow> bool" where
  "utf8_valid [] \<longleftrightarrow> True"
| "utf8_valid (b # bs) \<longleftrightarrow> Suc (utf8_run b bs) = utf8_seq_len b \<and> utf8_valid (drop (utf8_run b bs) bs)"

text \<open>The replacement character, U+FFFD.  A broken sequence is replaced as a whole: the first byte
  and the continuation bytes that still fit it.\<close>

definition REPLACEMENT :: bytes where "REPLACEMENT = [0xEF, 0xBF, 0xBD]"

fun from_utf8_lossy :: "bytes \<Rightarrow> bytes" where
  "from_utf8_lossy [] = []"
| "from_utf8_lossy (b # bs) =
     (if Suc (utf8_run b bs) = utf8_seq_len b then b # take (utf8_run b bs) bs else REPLACEMENT)
     @ from_utf8_lossy (drop (utf8_run b bs) bs)"

lemma utf8_run_le: "utf8_run b bs \<le> length bs"
  by (auto simp: utf8_run_def split: list.split)
     (metis length_Cons length_take min.cobounded1 Suc_le_mono order_trans length_takeWhile_le)

lemma utf8_run_append:
  assumes "Suc (utf8_run b bs) = utf8_seq_len b"
  shows "utf8_run b (bs @ t) = utf8_run b bs"
proof -
  have "utf8_seq_len b - 1 \<le> length bs" using assms utf8_run_le [of b bs] by simp
  then show ?thesis by (simp add: utf8_run_def)
qed

theorem from_utf8_lossy_valid: "utf8_valid s \<Longrightarrow> from_utf8_lossy s = s"
  by (induction s rule: utf8_valid.induct) simp_all

lemma utf8_valid_append: "utf8_valid s \<Longrightarrow> utf8_valid t \<Longrightarrow> utf8_valid (s @ t)"
proof (induction s rule: utf8_valid.induct)
  case (2 b bs)
  then show ?case using utf8_run_append [of b bs t] utf8_run_le [of b bs] by simp
qed simp

lemma utf8_run_take:
  assumes "Suc (utf8_run b bs) = utf8_seq_len b"
  shows "utf8_run b (take (utf8_run b bs) bs) = utf8_run b bs"
  using assms by (simp add: utf8_run_def split: list.splits)

lemma utf8_valid_seq:
  assumes "Suc (utf8_run b bs) = utf8_seq_len b"
  shows "utf8_valid (b # take (utf8_run b bs) bs)"
  using assms utf8_run_take [OF assms] by simp

lemma utf8_valid_replacement: "utf8_valid REPLACEMENT"
  by (simp add: REPLACEMENT_def utf8_run_def utf8_seq_len_def utf8_second_ok_def is_cont_def)

text \<open>The replacing conversion always gives a string.\<close>

lemma utf8_valid_lossy: "utf8_valid (from_utf8_lossy s)"
proof (induction s rule: from_utf8_lossy.induct)
  case (2 b bs)
  show ?case
  proof (cases "Suc (utf8_run b bs) = utf8_seq_len b")
    case True
    then show ?thesis
      using utf8_valid_append [OF utf8_valid_seq [OF True] 2] by simp
  next
    case False
    then show ?thesis
      using utf8_valid_append [OF utf8_valid_replacement 2] by simp
  qed
qed simp

lemma utf8_valid_ascii: "list_all (\<lambda>b. b < 0x80) s \<Longrightarrow> utf8_valid s"
  by (induction s) (simp_all add: utf8_run_def utf8_seq_len_def)

section \<open>Splitting\<close>

text \<open>\<open>str::split\<close> at one byte: the pieces between the separators, never an empty list.\<close>

fun split_at :: "'a \<Rightarrow> 'a list \<Rightarrow> 'a list list" where
  "split_at c [] = [[]]"
| "split_at c (x # xs) =
     (if x = c then [] # split_at c xs
      else case split_at c xs of [] \<Rightarrow> [[x]] | p # ps \<Rightarrow> (x # p) # ps)"

fun join_with :: "'a \<Rightarrow> 'a list list \<Rightarrow> 'a list" where
  "join_with c [] = []"
| "join_with c [p] = p"
| "join_with c (p # q # ps) = p @ c # join_with c (q # ps)"

lemma split_at_not_Nil [simp]: "split_at c xs \<noteq> []"
  by (induction xs) (auto split: list.split)

lemma join_split [simp]: "join_with c (split_at c xs) = xs"
proof (induction xs)
  case (Cons x xs)
  then show ?case by (cases "split_at c xs"; cases "tl (split_at c xs)") simp_all
qed simp

lemma split_at_free: "p \<in> set (split_at c xs) \<Longrightarrow> c \<notin> set p"
  by (induction xs arbitrary: p) (auto split: list.splits if_splits)

lemma split_at_append:
  "c \<notin> set p \<Longrightarrow> split_at c (p @ c # xs) = p # split_at c xs"
  by (induction p) auto

lemma split_at_single: "c \<notin> set p \<Longrightarrow> split_at c p = [p]"
  by (induction p) auto

lemma split_join:
  "ps \<noteq> [] \<Longrightarrow> (\<forall>p \<in> set ps. c \<notin> set p) \<Longrightarrow> split_at c (join_with c ps) = ps"
  by (induction c ps rule: join_with.induct) (simp_all add: split_at_single split_at_append)

text \<open>\<open>str::split_once\<close>, \<open>str::rsplit_once\<close> and \<open>str::splitn\<close> at one byte.\<close>

fun split_once :: "'a \<Rightarrow> 'a list \<Rightarrow> ('a list \<times> 'a list) option" where
  "split_once c [] = None"
| "split_once c (x # xs) =
     (if x = c then Some ([], xs) else map_option (\<lambda>(a, b). (x # a, b)) (split_once c xs))"

fun rsplit_once :: "'a \<Rightarrow> 'a list \<Rightarrow> ('a list \<times> 'a list) option" where
  "rsplit_once c [] = None"
| "rsplit_once c (x # xs) = (case rsplit_once c xs of
     Some (a, b) \<Rightarrow> Some (x # a, b)
   | None \<Rightarrow> if x = c then Some ([], xs) else None)"

fun splitn :: "nat \<Rightarrow> 'a \<Rightarrow> 'a list \<Rightarrow> 'a list list" where
  "splitn 0 c xs = []"
| "splitn (Suc 0) c xs = [xs]"
| "splitn (Suc (Suc n)) c xs = (case split_once c xs of
     Some (a, b) \<Rightarrow> a # splitn (Suc n) c b
   | None \<Rightarrow> [xs])"

lemma split_once_append: "c \<notin> set a \<Longrightarrow> split_once c (a @ c # b) = Some (a, b)"
  by (induction a) auto

lemma split_once_SomeD: "split_once c xs = Some (a, b) \<Longrightarrow> xs = a @ c # b \<and> c \<notin> set a"
  by (induction xs arbitrary: a) (auto split: if_splits)

lemma rsplit_once_None: "rsplit_once c xs = None \<longleftrightarrow> c \<notin> set xs"
  by (induction xs) (auto split: option.split prod.split)

lemma last_split_unique:
  assumes "a @ c # b = a' @ c # b'" "c \<notin> set b" "c \<notin> set b'"
  shows "a = a' \<and> b = b'"
proof -
  have "takeWhile (\<lambda>x. x \<noteq> c) (rev (a @ c # b)) = rev b" if "c \<notin> set b" for a b
    using that by (simp add: takeWhile_append)
  then have "rev b = rev b'" using assms by metis
  then show ?thesis using assms(1) by simp
qed

lemma rsplit_once_SomeD: "rsplit_once c xs = Some (a, b) \<Longrightarrow> xs = a @ c # b \<and> c \<notin> set b"
  by (induction xs arbitrary: a) (auto simp: rsplit_once_None split: option.splits if_splits)

lemma rsplit_once_Some: "rsplit_once c xs = Some (a, b) \<longleftrightarrow> xs = a @ c # b \<and> c \<notin> set b"
proof
  assume xs: "xs = a @ c # b \<and> c \<notin> set b"
  then have "rsplit_once c xs \<noteq> None" by (simp add: rsplit_once_None)
  then obtain a' b' where r: "rsplit_once c xs = Some (a', b')" by auto
  have u: "a' @ c # b' = a @ c # b" "c \<notin> set b'" using rsplit_once_SomeD [OF r] xs by metis+
  have "a' = a \<and> b' = b" using last_split_unique [OF u(1,2)] xs by metis
  then show "rsplit_once c xs = Some (a, b)" using r by metis
qed (rule rsplit_once_SomeD)

lemma splitn_3_def:
  "splitn 3 c xs = (case split_once c xs of
     Some (a, b) \<Rightarrow> a # (case split_once c b of Some (p, q) \<Rightarrow> [p, q] | None \<Rightarrow> [b])
   | None \<Rightarrow> [xs])"
  by (simp add: numeral_3_eq_3 split: option.split)

lemma splitn_3: "c \<notin> set u \<Longrightarrow> c \<notin> set v \<Longrightarrow> splitn 3 c (u @ c # v @ c # w) = [u, v, w]"
  using split_once_append [of c u "v @ c # w"] split_once_append [of c v w] by (simp add: splitn_3_def)

lemma splitn_3D:
  assumes "splitn 3 c xs = [u, v, w]"
  shows "xs = u @ c # v @ c # w \<and> c \<notin> set u \<and> c \<notin> set v"
proof -
  obtain b where b: "split_once c xs = Some (u, b)" "split_once c b = Some (v, w)"
    using assms by (auto simp: splitn_3_def split: option.splits)
  show ?thesis using split_once_SomeD [OF b(1)] split_once_SomeD [OF b(2)] by blast
qed

end
