(* ===== verification/Fuse_Remap.thy ===== *)
theory Fuse_Remap
  imports Fuse_Protocol Utf8 "HOL-Library.Sublist" "HOL-Library.Countable"
begin

text \<open>
  The inode-remapping filesystem of \<open>fuse-pipe/src/server/remap.rs\<close>: it wraps a filesystem handler
  and gives the guest inode numbers that are hashes of paths, so that they mean the same file on
  another host, and file handles that a server restored from a snapshot cannot confuse with the
  handles of the server before it.

  The wrapped handler is a parameter: a function from a request, the caller's supplementary groups
  and its own state to a response and a new state.  The order in which a concurrent map enumerates
  its entries is not specified, so the search of the path table for a path is a parameter too.
  Calls are atomic: every operation takes and returns the whole state.
\<close>

section \<open>State\<close>

type_synonym 'w handler = "volume_request \<Rightarrow> nat list \<Rightarrow> 'w \<Rightarrow> volume_response \<times> 'w"

type_synonym path_finder = "(nat \<rightharpoonup> bytes) \<Rightarrow> bytes \<Rightarrow> nat option"

record remap_fs =
  rf_inner_to_stable :: "nat \<rightharpoonup> nat"
  rf_stable_to_inner :: "nat \<rightharpoonup> nat"
  rf_paths :: "nat \<rightharpoonup> bytes"
  rf_handle_remap :: "nat \<rightharpoonup> nat"
  rf_handle_base :: nat
  rf_max_guest_handle :: nat

definition LEGACY_HANDLE_BASE :: nat where "LEGACY_HANDLE_BASE = 2 ^ 32"
definition MAX_HANDLE_BASE :: nat where "MAX_HANDLE_BASE = 2 ^ 62"

definition remap_new :: remap_fs where
  "remap_new = \<lparr>rf_inner_to_stable = [1 \<mapsto> 1], rf_stable_to_inner = [1 \<mapsto> 1], rf_paths = [1 \<mapsto> []],
                rf_handle_remap = Map.empty, rf_handle_base = 0, rf_max_guest_handle = 0\<rparr>"

section \<open>Stable inode numbers\<close>

definition fnv1a :: "bytes \<Rightarrow> u64" where
  "fnv1a path = foldl (\<lambda>hash byte. (hash XOR ucast byte) * 0x100000001b3) 0xcbf29ce484222325 path"

definition path_hash :: "bytes \<Rightarrow> nat" where
  "path_hash path = (let hash = fnv1a path in unat (if hash < 2 then hash + 2 else hash))"

definition format_path :: "bytes \<Rightarrow> bytes \<Rightarrow> bytes" where
  "format_path parent_path name = (if parent_path = [] then name else parent_path @ SLASH # name)"

definition to_inner :: "remap_fs \<Rightarrow> nat \<Rightarrow> nat option" where
  "to_inner st stable_ino = rf_stable_to_inner st stable_ino"

definition to_stable :: "remap_fs \<Rightarrow> nat \<Rightarrow> nat option" where
  "to_stable st inner = rf_inner_to_stable st inner"

text \<open>The path a stable inode is recorded under, the empty path when it is not.\<close>

definition path_of :: "remap_fs \<Rightarrow> nat \<Rightarrow> bytes" where
  "path_of st stable_ino = (case rf_paths st stable_ino of Some p \<Rightarrow> p | None \<Rightarrow> [])"

text \<open>The first free number after a taken one, within the 9,999 that follow it modulo \<open>2^64\<close>.\<close>

definition find_alternative :: "remap_fs \<Rightarrow> nat \<Rightarrow> nat option" where
  "find_alternative st stable_ino =
     List.find (\<lambda>alt. 2 \<le> alt \<and> rf_stable_to_inner st alt = None)
       (map (\<lambda>i. (stable_ino + i) mod 2 ^ 64) [1..<10000])"

definition register_entry :: "nat \<Rightarrow> bytes \<Rightarrow> nat \<Rightarrow> remap_fs \<Rightarrow> nat option \<times> remap_fs" where
  "register_entry parent_stable name inner_ino st = (case rf_inner_to_stable st inner_ino of
     Some stable_ino \<Rightarrow> (Some stable_ino, st)
   | None \<Rightarrow>
       let path = format_path (path_of st parent_stable) (from_utf8_lossy name);
           stable_ino = path_hash path;
           chosen = (if rf_stable_to_inner st stable_ino \<noteq> None then find_alternative st stable_ino
                     else Some stable_ino)
       in case chosen of
            None \<Rightarrow> (None, st)
          | Some s \<Rightarrow> (Some s, st\<lparr>rf_inner_to_stable := (rf_inner_to_stable st)(inner_ino \<mapsto> s),
                                 rf_stable_to_inner := (rf_stable_to_inner st)(s \<mapsto> inner_ino),
                                 rf_paths := (rf_paths st)(s \<mapsto> path)\<rparr>))"

section \<open>Requests: stable to inner\<close>

definition forget_ino :: "remap_fs \<Rightarrow> nat \<Rightarrow> nat" where
  "forget_ino st ino = (case to_inner st ino of Some inner \<Rightarrow> inner | None \<Rightarrow> ino)"

definition remap_request_inodes :: "remap_fs \<Rightarrow> volume_request \<Rightarrow> volume_request option" where
  "remap_request_inodes st req = (let tr = to_inner st in case req of
     RqGetattr ino \<Rightarrow> do { i \<leftarrow> tr ino; Some (RqGetattr i) }
   | RqReadlink ino \<Rightarrow> do { i \<leftarrow> tr ino; Some (RqReadlink i) }
   | RqStatfs ino \<Rightarrow> do { i \<leftarrow> tr ino; Some (RqStatfs i) }
   | RqSetattr ino a fh c \<Rightarrow> do { i \<leftarrow> tr ino; Some (RqSetattr i a fh c) }
   | RqOpen ino fl c \<Rightarrow> do { i \<leftarrow> tr ino; Some (RqOpen i fl c) }
   | RqRead ino fh off sz c \<Rightarrow> do { i \<leftarrow> tr ino; Some (RqRead i fh off sz c) }
   | RqWrite ino fh off d c \<Rightarrow> do { i \<leftarrow> tr ino; Some (RqWrite i fh off d c) }
   | RqAccess ino m c \<Rightarrow> do { i \<leftarrow> tr ino; Some (RqAccess i m c) }
   | RqOpendir ino fl c \<Rightarrow> do { i \<leftarrow> tr ino; Some (RqOpendir i fl c) }
   | RqSetxattr ino n v fl c \<Rightarrow> do { i \<leftarrow> tr ino; Some (RqSetxattr i n v fl c) }
   | RqGetxattr ino n sz c \<Rightarrow> do { i \<leftarrow> tr ino; Some (RqGetxattr i n sz c) }
   | RqListxattr ino sz c \<Rightarrow> do { i \<leftarrow> tr ino; Some (RqListxattr i sz c) }
   | RqRemovexattr ino n c \<Rightarrow> do { i \<leftarrow> tr ino; Some (RqRemovexattr i n c) }
   | RqReaddir ino off c \<Rightarrow> do { i \<leftarrow> tr ino; Some (RqReaddir i off c) }
   | RqReaddirplus ino fh off c \<Rightarrow> do { i \<leftarrow> tr ino; Some (RqReaddirplus i fh off c) }
   | RqRelease ino fh \<Rightarrow> do { i \<leftarrow> tr ino; Some (RqRelease i fh) }
   | RqFlush ino fh \<Rightarrow> do { i \<leftarrow> tr ino; Some (RqFlush i fh) }
   | RqFsync ino fh ds \<Rightarrow> do { i \<leftarrow> tr ino; Some (RqFsync i fh ds) }
   | RqReleasedir ino fh \<Rightarrow> do { i \<leftarrow> tr ino; Some (RqReleasedir i fh) }
   | RqFsyncdir ino fh ds \<Rightarrow> do { i \<leftarrow> tr ino; Some (RqFsyncdir i fh ds) }
   | RqFallocate ino fh off len mode \<Rightarrow> do { i \<leftarrow> tr ino; Some (RqFallocate i fh off len mode) }
   | RqLseek ino fh off wh \<Rightarrow> do { i \<leftarrow> tr ino; Some (RqLseek i fh off wh) }
   | RqGetlk ino fh l \<Rightarrow> do { i \<leftarrow> tr ino; Some (RqGetlk i fh l) }
   | RqSetlk ino fh l sl \<Rightarrow> do { i \<leftarrow> tr ino; Some (RqSetlk i fh l sl) }
   | RqLookup p n c \<Rightarrow> do { i \<leftarrow> tr p; Some (RqLookup i n c) }
   | RqMkdir p n mode c \<Rightarrow> do { i \<leftarrow> tr p; Some (RqMkdir i n mode c) }
   | RqCreate p n mode fl c \<Rightarrow> do { i \<leftarrow> tr p; Some (RqCreate i n mode fl c) }
   | RqMknod p n mode rdev c \<Rightarrow> do { i \<leftarrow> tr p; Some (RqMknod i n mode rdev c) }
   | RqRmdir p n c \<Rightarrow> do { i \<leftarrow> tr p; Some (RqRmdir i n c) }
   | RqUnlink p n c \<Rightarrow> do { i \<leftarrow> tr p; Some (RqUnlink i n c) }
   | RqSymlink p n t c \<Rightarrow> do { i \<leftarrow> tr p; Some (RqSymlink i n t c) }
   | RqLink ino np nn c \<Rightarrow> do { i \<leftarrow> tr ino; j \<leftarrow> tr np; Some (RqLink i j nn c) }
   | RqRename p n np nn fl c \<Rightarrow> do { i \<leftarrow> tr p; j \<leftarrow> tr np; Some (RqRename i n j nn fl c) }
   | RqCopyFileRange a \<Rightarrow>
       do { i \<leftarrow> tr (ra_ino_in a); j \<leftarrow> tr (ra_ino_out a);
            Some (RqCopyFileRange (a\<lparr>ra_ino_in := i, ra_ino_out := j\<rparr>)) }
   | RqRemapFileRange a \<Rightarrow>
       do { i \<leftarrow> tr (ra_ino_in a); j \<leftarrow> tr (ra_ino_out a);
            Some (RqRemapFileRange (a\<lparr>ra_ino_in := i, ra_ino_out := j\<rparr>)) }
   | RqForget ino n \<Rightarrow> Some (RqForget (forget_ino st ino) n)
   | RqBatchForget inodes \<Rightarrow> Some (RqBatchForget (map (\<lambda>(ino, n). (forget_ino st ino, n)) inodes)))"

section \<open>Responses: inner to stable\<close>

definition remap_entry_response ::
  "nat \<Rightarrow> bytes \<Rightarrow> volume_response \<Rightarrow> remap_fs \<Rightarrow> volume_response \<times> remap_fs" where
  "remap_entry_response parent_stable name response st = (case response of
     RsEntry attr gen ttl \<Rightarrow> (case register_entry parent_stable name (fa_ino attr) st of
         (Some stable_ino, st) \<Rightarrow> (RsEntry (attr\<lparr>fa_ino := stable_ino\<rparr>) gen ttl, st)
       | (None, st) \<Rightarrow> (rs_io_error, st))
   | RsCreated attr gen ttl fh fl \<Rightarrow> (case register_entry parent_stable name (fa_ino attr) st of
         (Some stable_ino, st) \<Rightarrow> (RsCreated (attr\<lparr>fa_ino := stable_ino\<rparr>) gen ttl fh fl, st)
       | (None, st) \<Rightarrow> (rs_io_error, st))
   | _ \<Rightarrow> (response, st))"

definition remap_attr_response :: "remap_fs \<Rightarrow> volume_response \<Rightarrow> volume_response" where
  "remap_attr_response st response = (case response of
     RsAttr attr ttl \<Rightarrow> (case to_stable st (fa_ino attr) of
         Some stable_ino \<Rightarrow> RsAttr (attr\<lparr>fa_ino := stable_ino\<rparr>) ttl
       | None \<Rightarrow> response)
   | _ \<Rightarrow> response)"

text \<open>Replaces the recorded path of a stable inode that has one.\<close>

definition fix_stale_path :: "nat \<Rightarrow> bytes \<Rightarrow> remap_fs \<Rightarrow> remap_fs" where
  "fix_stale_path stable_ino expected_path st = (case rf_paths st stable_ino of
     Some stored_path \<Rightarrow>
       if stored_path \<noteq> expected_path then st\<lparr>rf_paths := (rf_paths st)(stable_ino \<mapsto> expected_path)\<rparr> else st
   | None \<Rightarrow> st)"

definition remap_dir_entry ::
  "nat \<Rightarrow> bytes \<Rightarrow> dir_entry \<Rightarrow> remap_fs \<Rightarrow> dir_entry \<times> remap_fs" where
  "remap_dir_entry dir_stable dir_path entry st =
     (if de_name entry = DOT then (entry\<lparr>de_ino := dir_stable\<rparr>, st)
      else if de_name entry = DOTDOT then
        (case to_stable st (de_ino entry) of
           Some stable_ino \<Rightarrow> (entry\<lparr>de_ino := stable_ino\<rparr>, st)
         | None \<Rightarrow> (entry, st))
      else
        let expected_path = format_path dir_path (from_utf8_lossy (de_name entry))
        in case rf_inner_to_stable st (de_ino entry) of
             Some stable_ino \<Rightarrow> (entry\<lparr>de_ino := stable_ino\<rparr>, fix_stale_path stable_ino expected_path st)
           | None \<Rightarrow> (entry\<lparr>de_ino := path_hash expected_path\<rparr>, st))"

definition remap_dir_entry_plus ::
  "nat \<Rightarrow> bytes \<Rightarrow> dir_entry_plus \<Rightarrow> remap_fs \<Rightarrow> dir_entry_plus \<times> remap_fs" where
  "remap_dir_entry_plus dir_stable dir_path entry st =
     (let set_ino = (\<lambda>n. entry\<lparr>dp_ino := n, dp_attr := (dp_attr entry)\<lparr>fa_ino := n\<rparr>\<rparr>)
      in if dp_name entry = DOT then (set_ino dir_stable, st)
         else if dp_name entry = DOTDOT then
           (case to_stable st (dp_ino entry) of
              Some stable_ino \<Rightarrow> (set_ino stable_ino, st)
            | None \<Rightarrow> (entry, st))
         else
           (case register_entry dir_stable (dp_name entry) (fa_ino (dp_attr entry)) st of
              (Some stable_ino, st) \<Rightarrow>
                (set_ino stable_ino,
                 fix_stale_path stable_ino (format_path dir_path (from_utf8_lossy (dp_name entry))) st)
            | (None, st) \<Rightarrow> (entry, st)))"

text \<open>Runs a state-changing rewrite over the entries in order.\<close>

fun map_entries :: "('e \<Rightarrow> 's \<Rightarrow> 'e \<times> 's) \<Rightarrow> 'e list \<Rightarrow> 's \<Rightarrow> 'e list \<times> 's" where
  "map_entries f [] st = ([], st)"
| "map_entries f (e # es) st =
     (let (e', st) = f e st; (es', st) = map_entries f es st in (e' # es', st))"

definition remap_readdir_response ::
  "nat \<Rightarrow> volume_response \<Rightarrow> remap_fs \<Rightarrow> volume_response \<times> remap_fs" where
  "remap_readdir_response dir_stable response st = (case response of
     RsDirEntries entries \<Rightarrow>
       let (entries, st) = map_entries (remap_dir_entry dir_stable (path_of st dir_stable)) entries st
       in (RsDirEntries entries, st)
   | _ \<Rightarrow> (response, st))"

definition remap_readdirplus_response ::
  "nat \<Rightarrow> volume_response \<Rightarrow> remap_fs \<Rightarrow> volume_response \<times> remap_fs" where
  "remap_readdirplus_response dir_stable response st = (case response of
     RsDirEntriesPlus entries \<Rightarrow>
       let (entries, st) = map_entries (remap_dir_entry_plus dir_stable (path_of st dir_stable)) entries st
       in (RsDirEntriesPlus entries, st)
   | _ \<Rightarrow> (response, st))"

section \<open>Renames\<close>

text \<open>Rewrites every recorded path below one directory to the same path below another.\<close>

definition move_subtree :: "bytes \<Rightarrow> bytes \<Rightarrow> (nat \<rightharpoonup> bytes) \<Rightarrow> (nat \<rightharpoonup> bytes)" where
  "move_subtree old_path new_path paths =
     (\<lambda>ino. map_option (\<lambda>p. if prefix (old_path @ [SLASH]) p
                            then new_path @ [SLASH] @ drop (length (old_path @ [SLASH])) p
                            else p) (paths ino))"

definition RENAME_EXCHANGE :: nat where "RENAME_EXCHANGE = 2"

definition handle_rename_paths ::
  "path_finder \<Rightarrow> nat \<Rightarrow> bytes \<Rightarrow> nat \<Rightarrow> bytes \<Rightarrow> nat \<Rightarrow> remap_fs \<Rightarrow> remap_fs" where
  "handle_rename_paths scan parent_stable name newparent_stable newname flags st =
     (let old_path = format_path (path_of st parent_stable) (from_utf8_lossy name);
          new_path = format_path (path_of st newparent_stable) (from_utf8_lossy newname);
          source_stable = scan (rf_paths st) old_path
      in if flags AND RENAME_EXCHANGE \<noteq> 0 then
           let dest_stable = scan (rf_paths st) new_path;
               paths = (case source_stable of
                          Some src \<Rightarrow> (rf_paths st)(src \<mapsto> new_path) | None \<Rightarrow> rf_paths st);
               paths = (case dest_stable of Some dst \<Rightarrow> paths(dst \<mapsto> old_path) | None \<Rightarrow> paths)
           in st\<lparr>rf_paths := paths\<rparr>
         else
           (case source_stable of
              Some src \<Rightarrow> st\<lparr>rf_paths := move_subtree old_path new_path ((rf_paths st)(src \<mapsto> new_path))\<rparr>
            | None \<Rightarrow> st))"

definition remap_response ::
  "path_finder \<Rightarrow> volume_request \<Rightarrow> volume_response \<Rightarrow> remap_fs \<Rightarrow> volume_response \<times> remap_fs" where
  "remap_response scan original_req response st =
     (if is_error response then (response, st)
      else case original_req of
        RqLookup parent name _ \<Rightarrow> remap_entry_response parent name response st
      | RqMkdir parent name _ _ \<Rightarrow> remap_entry_response parent name response st
      | RqCreate parent name _ _ _ \<Rightarrow> remap_entry_response parent name response st
      | RqMknod parent name _ _ _ \<Rightarrow> remap_entry_response parent name response st
      | RqSymlink parent name _ _ \<Rightarrow> remap_entry_response parent name response st
      | RqLink _ newparent newname _ \<Rightarrow> remap_entry_response newparent newname response st
      | RqGetattr _ \<Rightarrow> (remap_attr_response st response, st)
      | RqSetattr _ _ _ _ \<Rightarrow> (remap_attr_response st response, st)
      | RqReaddir ino _ _ \<Rightarrow> remap_readdir_response ino response st
      | RqReaddirplus ino _ _ _ \<Rightarrow> remap_readdirplus_response ino response st
      | RqRename parent name newparent newname flags _ \<Rightarrow>
          (response, handle_rename_paths scan parent name newparent newname flags st)
      | _ \<Rightarrow> (response, st))"

section \<open>The table\<close>

text \<open>What the JSON text of a table holds, as the parser sees it: no JSON; an object with \<open>paths\<close>, its
  handle base if that is an unsigned number, and the paths if they are a map from numbers to strings;
  or any other value, read as a bare map of paths.  The JSON library is a pair of parameters.  The map
  is the list of its entries in the order of the keys.\<close>

datatype json_table =
    NotJson
  | WithPaths "nat option" "(nat \<times> bytes) list option"
  | BarePaths "(nat \<times> bytes) list option"

definition table_entries :: "(nat \<rightharpoonup> bytes) \<Rightarrow> (nat \<times> bytes) list" where
  "table_entries paths = map (\<lambda>k. (k, the (paths k))) (sorted_list_of_set (dom paths))"

definition serialize_table :: "(json_table \<Rightarrow> bytes) \<Rightarrow> remap_fs \<Rightarrow> bytes" where
  "serialize_table to_string st =
     to_string (WithPaths (Some (max (rf_max_guest_handle st) (rf_handle_base st)))
                          (Some (table_entries (rf_paths st))))"

definition parse_table :: "(bytes \<Rightarrow> json_table) \<Rightarrow> bytes \<Rightarrow> nat \<times> (nat \<times> bytes) list" where
  "parse_table from_str json = (case from_str json of
     NotJson \<Rightarrow> (LEGACY_HANDLE_BASE, [])
   | v \<Rightarrow>
       let (handle_base, paths) = (case v of
             WithPaths base paths \<Rightarrow> (case base of Some b \<Rightarrow> b | None \<Rightarrow> LEGACY_HANDLE_BASE, paths)
           | BarePaths paths \<Rightarrow> (LEGACY_HANDLE_BASE, paths)
           | NotJson \<Rightarrow> (LEGACY_HANDLE_BASE, None))
       in if MAX_HANDLE_BASE < handle_base then (LEGACY_HANDLE_BASE, [])
          else (case paths of Some paths \<Rightarrow> (handle_base, paths) | None \<Rightarrow> (handle_base, [])))"

definition root_cred :: cred where
  "root_cred = \<lparr>c_uid = 0, c_gid = 0, c_pid = 0\<rparr>"

fun walk_components :: "'w handler \<Rightarrow> nat \<Rightarrow> bytes list \<Rightarrow> 'w \<Rightarrow> nat option \<times> 'w" where
  "walk_components inner current_inner [] w = (Some current_inner, w)"
| "walk_components inner current_inner (component # components) w =
     (let (resp, w) = inner (RqLookup current_inner component root_cred) [] w
      in case rs_attr resp of
           Some attr \<Rightarrow> walk_components inner (fa_ino attr) components w
         | None \<Rightarrow> (None, w))"

fun restore_entries :: "'w handler \<Rightarrow> (nat \<times> bytes) list \<Rightarrow> remap_fs \<Rightarrow> 'w \<Rightarrow> remap_fs \<times> 'w" where
  "restore_entries inner [] st w = (st, w)"
| "restore_entries inner ((stable_ino, path) # table) st w =
     (if path = [] then restore_entries inner table st w
      else case walk_components inner 1 (split_at SLASH path) w of
        (Some current_inner, w) \<Rightarrow>
          restore_entries inner table
            (st\<lparr>rf_inner_to_stable := (rf_inner_to_stable st)(current_inner \<mapsto> stable_ino),
                rf_stable_to_inner := (rf_stable_to_inner st)(stable_ino \<mapsto> current_inner),
                rf_paths := (rf_paths st)(stable_ino \<mapsto> path)\<rparr>) w
      | (None, w) \<Rightarrow> restore_entries inner table st w)"

definition restore_from_table ::
  "'w handler \<Rightarrow> (bytes \<Rightarrow> json_table) \<Rightarrow> bytes \<Rightarrow> 'w \<Rightarrow> remap_fs \<times> 'w" where
  "restore_from_table inner from_str json w =
     (let (handle_base, table) = parse_table from_str json
      in restore_entries inner table (remap_new\<lparr>rf_handle_base := max handle_base 1\<rparr>) w)"

section \<open>File handles\<close>

definition is_stale_handle :: "remap_fs \<Rightarrow> nat \<Rightarrow> bool" where
  "is_stale_handle st guest_fh \<longleftrightarrow>
     guest_fh \<noteq> 0 \<and> 0 < rf_handle_base st \<and> guest_fh \<le> rf_handle_base st"

definition guest_handle :: "nat \<Rightarrow> remap_fs \<Rightarrow> nat option \<times> remap_fs" where
  "guest_handle fh st =
     (if fh = 0 then (Some 0, st)
      else case checked_add fh (rf_handle_base st) of
        Some guest_fh \<Rightarrow>
          (Some guest_fh, st\<lparr>rf_max_guest_handle := max (rf_max_guest_handle st) guest_fh\<rparr>)
      | None \<Rightarrow> (None, st))"

definition guest_handle_response :: "volume_response \<Rightarrow> remap_fs \<Rightarrow> volume_response \<times> remap_fs" where
  "guest_handle_response response st = (case response of
     RsOpened fh fl \<Rightarrow> (case guest_handle fh st of
         (Some g, st) \<Rightarrow> (RsOpened g fl, st) | (None, st) \<Rightarrow> (rs_io_error, st))
   | RsOpeneddir fh \<Rightarrow> (case guest_handle fh st of
         (Some g, st) \<Rightarrow> (RsOpeneddir g, st) | (None, st) \<Rightarrow> (rs_io_error, st))
   | RsCreated attr gen ttl fh fl \<Rightarrow> (case guest_handle fh st of
         (Some g, st) \<Rightarrow> (RsCreated attr gen ttl g fl, st) | (None, st) \<Rightarrow> (rs_io_error, st))
   | _ \<Rightarrow> (response, st))"

definition O_WRONLY :: nat where "O_WRONLY = 1"
definition O_RDWR :: nat where "O_RDWR = 2"
definition ENOSYS :: int where "ENOSYS = 38"

text \<open>Opens the inode with the widest access mode that is allowed; a last plain read-only open gives
  the error when none is.\<close>

fun open_widest :: "'w handler \<Rightarrow> nat \<Rightarrow> nat list \<Rightarrow> 'w \<Rightarrow> volume_response \<times> 'w" where
  "open_widest inner inner_ino [] w = inner (RqOpen inner_ino O_RDONLY root_cred) [] w"
| "open_widest inner inner_ino (flags # modes) w =
     (let (resp, w) = inner (RqOpen inner_ino flags root_cred) [] w
      in if is_error resp then open_widest inner inner_ino modes w else (resp, w))"

definition reopened_fh :: "volume_response \<Rightarrow> nat option" where
  "reopened_fh resp = (case resp of
     RsOpened fh _ \<Rightarrow> Some fh | RsOpeneddir fh \<Rightarrow> Some fh | RsCreated _ _ _ fh _ \<Rightarrow> Some fh
   | _ \<Rightarrow> if rs_errno resp = Some ENOSYS then Some 0 else None)"

definition try_reopen_handle ::
  "'w handler \<Rightarrow> nat \<Rightarrow> nat \<Rightarrow> bool \<Rightarrow> remap_fs \<Rightarrow> 'w \<Rightarrow> nat option \<times> remap_fs \<times> 'w" where
  "try_reopen_handle inner stable_ino old_fh is_dir st w = (case rf_handle_remap st old_fh of
     Some new_fh \<Rightarrow> (Some new_fh, st, w)
   | None \<Rightarrow> (case to_inner st stable_ino of
       None \<Rightarrow> (None, st, w)
     | Some inner_ino \<Rightarrow>
         let (resp, w) = (if is_dir then inner (RqOpendir inner_ino 0 root_cred) [] w
                          else open_widest inner inner_ino [O_RDWR, O_RDONLY, O_WRONLY] w)
         in case reopened_fh resp of
              None \<Rightarrow> (None, st, w)
            | Some new_fh \<Rightarrow> (case rf_handle_remap st old_fh of
                Some fh \<Rightarrow>
                  let (_, w) = inner (if is_dir then RqReleasedir inner_ino new_fh
                                      else RqRelease inner_ino new_fh) [] w
                  in (Some fh, st, w)
              | None \<Rightarrow>
                  (Some new_fh, st\<lparr>rf_handle_remap := (rf_handle_remap st)(old_fh \<mapsto> new_fh)\<rparr>, w))))"

definition inner_handle ::
  "'w handler \<Rightarrow> nat \<Rightarrow> nat option \<Rightarrow> bool \<Rightarrow> remap_fs \<Rightarrow> 'w \<Rightarrow> nat option \<times> remap_fs \<times> 'w" where
  "inner_handle inner guest_fh stable_ino is_dir st w =
     (if guest_fh = 0 then (Some 0, st, w)
      else if \<not> is_stale_handle st guest_fh then (Some (guest_fh - rf_handle_base st), st, w)
      else case rf_handle_remap st guest_fh of
        Some inner_fh \<Rightarrow> (Some inner_fh, st, w)
      | None \<Rightarrow> (case stable_ino of
          None \<Rightarrow> (None, st, w)
        | Some ino \<Rightarrow> try_reopen_handle inner ino guest_fh is_dir st w))"

section \<open>Handling a request\<close>

text \<open>The handle a release names, when it is one of the guest's handles from before the restore.\<close>

definition stale_release :: "remap_fs \<Rightarrow> volume_request \<Rightarrow> nat option" where
  "stale_release st request = (case request of
     RqRelease _ fh \<Rightarrow> if is_stale_handle st fh then Some fh else None
   | RqReleasedir _ fh \<Rightarrow> if is_stale_handle st fh then Some fh else None
   | _ \<Rightarrow> None)"

definition translate_fh ::
  "'w handler \<Rightarrow> volume_request \<Rightarrow> volume_request \<Rightarrow> remap_fs \<Rightarrow> 'w \<Rightarrow> volume_request option \<times> remap_fs \<times> 'w" where
  "translate_fh inner request remapped st w = (case rq_fh request of
     None \<Rightarrow> (Some remapped, st, w)
   | Some guest_fh \<Rightarrow>
       (case inner_handle inner guest_fh (rq_ino request) (is_dir_handle_op request) st w of
          (Some inner_fh, st, w) \<Rightarrow> (Some (with_fh remapped inner_fh), st, w)
        | (None, st, w) \<Rightarrow> (None, st, w)))"

definition translate_fh_out ::
  "'w handler \<Rightarrow> volume_request \<Rightarrow> volume_request \<Rightarrow> remap_fs \<Rightarrow> 'w \<Rightarrow> volume_request option \<times> remap_fs \<times> 'w" where
  "translate_fh_out inner request remapped st w = (case rq_fh_out request of
     None \<Rightarrow> (Some remapped, st, w)
   | Some (ino_out, guest_fh) \<Rightarrow>
       (case inner_handle inner guest_fh (Some ino_out) False st w of
          (Some inner_fh, st, w) \<Rightarrow> (Some (with_fh_out remapped inner_fh), st, w)
        | (None, st, w) \<Rightarrow> (None, st, w)))"

definition delegate ::
  "path_finder \<Rightarrow> 'w handler \<Rightarrow> volume_request \<Rightarrow> nat list \<Rightarrow> volume_request \<Rightarrow> remap_fs \<Rightarrow> 'w
     \<Rightarrow> volume_response \<times> remap_fs \<times> 'w" where
  "delegate scan inner request groups remapped st w =
     (let (response, w) = inner remapped groups w;
          (response, st) = guest_handle_response response st;
          (response, st) = remap_response scan request response st
      in (response, st, w))"

definition remap_handle_request ::
  "path_finder \<Rightarrow> 'w handler \<Rightarrow> volume_request \<Rightarrow> nat list \<Rightarrow> remap_fs \<Rightarrow> 'w
     \<Rightarrow> volume_response \<times> remap_fs \<times> 'w" where
  "remap_handle_request scan inner request groups st w = (case remap_request_inodes st request of
     None \<Rightarrow> (rs_io_error, st, w)
   | Some remapped \<Rightarrow> (case stale_release st request of
       Some fh \<Rightarrow> (case rf_handle_remap st fh of
           Some inner_fh \<Rightarrow>
             let (_, w) = inner (with_fh remapped inner_fh) groups w
             in (RsOk, st\<lparr>rf_handle_remap := (rf_handle_remap st)(fh := None)\<rparr>, w)
         | None \<Rightarrow> (RsOk, st, w))
     | None \<Rightarrow> (case translate_fh inner request remapped st w of
           (None, st, w) \<Rightarrow> (rs_error EBADF, st, w)
         | (Some remapped, st, w) \<Rightarrow> (case translate_fh_out inner request remapped st w of
               (None, st, w) \<Rightarrow> (rs_error EBADF, st, w)
             | (Some remapped, st, w) \<Rightarrow> delegate scan inner request groups remapped st w))))"

text \<open>A run of requests, with the responses in order.\<close>

fun remap_serve ::
  "path_finder \<Rightarrow> 'w handler \<Rightarrow> (volume_request \<times> nat list) list \<Rightarrow> remap_fs \<Rightarrow> 'w
     \<Rightarrow> volume_response list \<times> remap_fs \<times> 'w" where
  "remap_serve scan inner [] st w = ([], st, w)"
| "remap_serve scan inner ((request, groups) # rs) st w =
     (let (response, st, w) = remap_handle_request scan inner request groups st w;
          (responses, st, w) = remap_serve scan inner rs st w
      in (response # responses, st, w))"

section \<open>The numbering invariant\<close>

text \<open>The two inode maps are inverse to each other, the root is 1 on both sides, every stable number has
  a recorded path, and the numbers other than the root's avoid the reserved 0 and 1 and fit in 64 bits.\<close>

definition remap_inv :: "remap_fs \<Rightarrow> bool" where
  "remap_inv st \<longleftrightarrow>
     (\<forall>i s. rf_inner_to_stable st i = Some s \<longleftrightarrow> rf_stable_to_inner st s = Some i) \<and>
     rf_inner_to_stable st 1 = Some 1 \<and>
     dom (rf_paths st) = dom (rf_stable_to_inner st) \<and>
     finite (dom (rf_stable_to_inner st)) \<and>
     (\<forall>s \<in> dom (rf_stable_to_inner st). s = 1 \<or> 2 \<le> s \<and> s < 2 ^ 64)"

text \<open>A later state of the same server: no number changes its meaning, and the handle base stays.\<close>

definition remap_ext :: "remap_fs \<Rightarrow> remap_fs \<Rightarrow> bool" where
  "remap_ext st st' \<longleftrightarrow>
     rf_inner_to_stable st \<subseteq>\<^sub>m rf_inner_to_stable st' \<and> rf_stable_to_inner st \<subseteq>\<^sub>m rf_stable_to_inner st' \<and>
     rf_handle_base st' = rf_handle_base st \<and> rf_max_guest_handle st \<le> rf_max_guest_handle st'"

lemma remap_ext_refl [simp]: "remap_ext st st"
  by (simp add: remap_ext_def)

lemma remap_ext_trans [trans]: "remap_ext a b \<Longrightarrow> remap_ext b c \<Longrightarrow> remap_ext a c"
  by (auto simp: remap_ext_def intro: map_le_trans)

lemma remap_new_inv: "remap_inv remap_new"
  by (auto simp: remap_inv_def remap_new_def)

text \<open>What one operation on the state keeps: it leads to a later state, and keeps the invariant.\<close>

definition remap_step :: "remap_fs \<Rightarrow> remap_fs \<Rightarrow> bool" where
  "remap_step st st' \<longleftrightarrow> remap_ext st st' \<and> (remap_inv st \<longrightarrow> remap_inv st')"

lemma remap_step_refl [simp]: "remap_step st st"
  by (simp add: remap_step_def)

lemma remap_step_trans: "remap_step a b \<Longrightarrow> remap_step b c \<Longrightarrow> remap_step a c"
  by (auto simp: remap_step_def intro: remap_ext_trans)

text \<open>Operations that only change recorded paths, without adding or losing one, or the handles.\<close>

lemma remap_step_paths: "dom p = dom (rf_paths st) \<Longrightarrow> remap_step st (st\<lparr>rf_paths := p\<rparr>)"
  by (simp add: remap_step_def remap_ext_def remap_inv_def)

lemma remap_step_handles: "remap_step st (st\<lparr>rf_handle_remap := h\<rparr>)"
  by (simp add: remap_step_def remap_ext_def remap_inv_def)

lemma remap_step_max: "rf_max_guest_handle st \<le> n \<Longrightarrow> remap_step st (st\<lparr>rf_max_guest_handle := n\<rparr>)"
  by (simp add: remap_step_def remap_ext_def remap_inv_def)

lemma path_hash_bounds: "2 \<le> path_hash p" "path_hash p < 2 ^ 64"
proof -
  define h where "h = fnv1a p"
  have "2 \<le> unat (if h < 2 then h + 2 else h)"
  proof (cases "h < 2")
    case True
    then have "unat h < 2" by (simp add: word_less_nat_alt)
    then have "unat (h + 2) = unat h + 2" by (simp add: unat_add_lem [THEN iffD1])
    with True show ?thesis by simp
  next
    case False
    then show ?thesis by (simp add: word_less_nat_alt)
  qed
  then show "2 \<le> path_hash p" unfolding path_hash_def Let_def h_def .
  show "path_hash p < 2 ^ 64" unfolding path_hash_def Let_def by (rule unat_u64_less)
qed

lemma find_alternative_Some:
  "find_alternative st s = Some alt \<Longrightarrow> 2 \<le> alt \<and> alt < 2 ^ 64 \<and> rf_stable_to_inner st alt = None"
  by (auto simp: find_alternative_def find_Some_iff nth_map)

text \<open>Registering an entry finds the number it already has, fails, or gives it a free one.\<close>

lemma register_entry_cases [consumes 1, case_names known full fresh]:
  assumes "register_entry p n i st = (r, st')"
  obtains s where "rf_inner_to_stable st i = Some s" "r = Some s" "st' = st"
  | "rf_inner_to_stable st i = None" "r = None" "st' = st"
      "rf_stable_to_inner st (path_hash (format_path (path_of st p) (from_utf8_lossy n))) \<noteq> None"
  | s where "rf_inner_to_stable st i = None" "r = Some s" "rf_stable_to_inner st s = None"
      "2 \<le> s" "s < 2 ^ 64"
      "st' = st\<lparr>rf_inner_to_stable := (rf_inner_to_stable st)(i \<mapsto> s),
                rf_stable_to_inner := (rf_stable_to_inner st)(s \<mapsto> i),
                rf_paths := (rf_paths st)(s \<mapsto> format_path (path_of st p) (from_utf8_lossy n))\<rparr>"
proof (cases "rf_inner_to_stable st i")
  case (Some s)
  then have "r = Some s" "st' = st" using assms by (simp_all add: register_entry_def)
  then show ?thesis using that(1) Some by blast
next
  case None
  define path where "path = format_path (path_of st p) (from_utf8_lossy n)"
  define chosen where "chosen = (if rf_stable_to_inner st (path_hash path) \<noteq> None
    then find_alternative st (path_hash path) else Some (path_hash path))"
  have eq: "register_entry p n i st = (case chosen of None \<Rightarrow> (None, st)
      | Some s \<Rightarrow> (Some s, st\<lparr>rf_inner_to_stable := (rf_inner_to_stable st)(i \<mapsto> s),
             rf_stable_to_inner := (rf_stable_to_inner st)(s \<mapsto> i), rf_paths := (rf_paths st)(s \<mapsto> path)\<rparr>))"
    unfolding register_entry_def Let_def chosen_def path_def None by simp
  show ?thesis
  proof (cases chosen)
    case None': None
    then show ?thesis using that(2) assms eq None by (auto simp: chosen_def path_def split: if_splits)
  next
    case (Some s)
    then have "2 \<le> s \<and> s < 2 ^ 64 \<and> rf_stable_to_inner st s = None"
      using find_alternative_Some [of st "path_hash path" s] path_hash_bounds [of path]
      by (auto simp: chosen_def split: if_splits)
    moreover have "r = Some s" "st' = st\<lparr>rf_inner_to_stable := (rf_inner_to_stable st)(i \<mapsto> s),
        rf_stable_to_inner := (rf_stable_to_inner st)(s \<mapsto> i), rf_paths := (rf_paths st)(s \<mapsto> path)\<rparr>"
      using assms unfolding eq Some by auto
    ultimately show ?thesis using that(3) [OF None] unfolding path_def by blast
  qed
qed

lemma remap_inv_fresh:
  assumes "remap_inv st" "rf_inner_to_stable st i = None" "rf_stable_to_inner st s = None"
    "2 \<le> s" "s < 2 ^ 64"
  shows "remap_inv (st\<lparr>rf_inner_to_stable := (rf_inner_to_stable st)(i \<mapsto> s),
           rf_stable_to_inner := (rf_stable_to_inner st)(s \<mapsto> i), rf_paths := (rf_paths st)(s \<mapsto> path)\<rparr>)"
proof -
  have inv: "\<And>j t. rf_inner_to_stable st j = Some t \<longleftrightarrow> rf_stable_to_inner st t = Some j"
    using assms(1) by (simp add: remap_inv_def)
  have "i \<noteq> 1" using assms(1,2) by (auto simp: remap_inv_def)
  moreover have "\<And>j t. ((rf_inner_to_stable st)(i \<mapsto> s)) j = Some t
      \<longleftrightarrow> ((rf_stable_to_inner st)(s \<mapsto> i)) t = Some j"
    by (simp add: fun_upd_def) (metis inv assms(2,3) option.distinct(1))
  ultimately show ?thesis using assms(1,4,5) by (simp add: remap_inv_def)
qed

lemma register_entry_step:
  assumes "register_entry p n i st = (r, st')"
  shows "remap_step st st'"
  using assms
proof (cases rule: register_entry_cases)
  case (fresh s)
  then show ?thesis
    using remap_inv_fresh [of st i s]
    by (auto simp: remap_step_def remap_ext_def map_le_def dom_def)
qed simp_all

lemma register_entry_known:
  assumes "register_entry p n i st = (Some s, st')"
  shows "rf_inner_to_stable st' i = Some s"
  using assms by (cases rule: register_entry_cases) simp_all

lemma map_entries_step:
  assumes "\<And>e st e' st'. f e st = (e', st') \<Longrightarrow> remap_step st st'" "map_entries f es st = (es', st')"
  shows "remap_step st st'"
  using assms(2)
proof (induction es arbitrary: st es' st')
  case (Cons e es)
  obtain e1 st1 where e: "f e st = (e1, st1)" by (cases "f e st")
  obtain es2 st2 where es: "map_entries f es st1 = (es2, st2)" by (cases "map_entries f es st1")
  have "st2 = st'" using Cons.prems e es by simp
  then show ?case using Cons.IH [OF es] assms(1) [OF e] remap_step_trans by blast
qed simp

lemma fix_stale_path_step: "remap_step st (fix_stale_path s p st)"
  by (auto simp: fix_stale_path_def split: option.splits if_splits intro!: remap_step_paths)

lemma remap_dir_entry_step: "remap_dir_entry d p e st = (e', st') \<Longrightarrow> remap_step st st'"
  by (auto simp: remap_dir_entry_def Let_def fix_stale_path_step split: if_splits option.splits)

lemma remap_dir_entry_plus_step:
  assumes "remap_dir_entry_plus d p e st = (e', st')"
  shows "remap_step st st'"
proof -
  obtain r st1 where reg: "register_entry d (dp_name e) (fa_ino (dp_attr e)) st = (r, st1)"
    by (cases "register_entry d (dp_name e) (fa_ino (dp_attr e)) st")
  have "st' = st \<or> st' = st1 \<or> (\<exists>s q. st' = fix_stale_path s q st1)"
    using assms reg by (auto simp: remap_dir_entry_plus_def Let_def split: if_splits option.splits)
  then show ?thesis
    using register_entry_step [OF reg] fix_stale_path_step remap_step_trans remap_step_refl by metis
qed

lemma remap_entry_response_step:
  assumes "remap_entry_response p n r st = (r', st')"
  shows "remap_step st st'"
proof -
  have "\<And>i x st1. register_entry p n i st = (x, st1) \<Longrightarrow> remap_step st st1" by (rule register_entry_step)
  then show ?thesis using assms
    by (cases r) (auto simp: remap_entry_response_def split: prod.splits option.splits)
qed

lemma dom_move_subtree [simp]: "dom (move_subtree a b p) = dom p"
  by (auto simp: move_subtree_def)

text \<open>What the code relies on of the search of the path table: it finds a key recorded with that path,
  if there is one.\<close>

definition finds_path :: "path_finder \<Rightarrow> bool" where
  "finds_path scan \<longleftrightarrow>
     (\<forall>m p k. scan m p = Some k \<longrightarrow> m k = Some p) \<and> (\<forall>m p. scan m p = None \<longrightarrow> p \<notin> ran m)"

lemma handle_rename_paths_step:
  assumes "finds_path scan"
  shows "remap_step st (handle_rename_paths scan p n p' n' fl st)"
proof -
  have found: "scan (rf_paths st) q = Some k \<Longrightarrow> k \<in> dom (rf_paths st)" for q k
    using assms by (auto simp: finds_path_def)
  define st' where "st' = handle_rename_paths scan p n p' n' fl st"
  have "st' = st\<lparr>rf_paths := rf_paths st'\<rparr>"
    unfolding st'_def by (simp add: handle_rename_paths_def Let_def split: option.split)
  moreover have "dom (rf_paths st') = dom (rf_paths st)"
    unfolding st'_def
    by (simp add: handle_rename_paths_def Let_def insert_absorb found split: option.split)
  ultimately show ?thesis unfolding st'_def [symmetric] using remap_step_paths [of "rf_paths st'" st] by simp
qed

lemma remap_response_step:
  assumes "finds_path scan" "remap_response scan req r st = (r', st')"
  shows "remap_step st st'"
proof -
  note entry = remap_entry_response_step
  have dir: "remap_readdir_response d r st = (r', st') \<Longrightarrow> remap_step st st'" for d
    using map_entries_step [of "remap_dir_entry d (path_of st d)"] remap_dir_entry_step
    by (cases r) (fastforce simp: remap_readdir_response_def split: prod.splits)+
  have plus: "remap_readdirplus_response d r st = (r', st') \<Longrightarrow> remap_step st st'" for d
    using map_entries_step [of "remap_dir_entry_plus d (path_of st d)"] remap_dir_entry_plus_step
    by (cases r) (fastforce simp: remap_readdirplus_response_def split: prod.splits)+
  show ?thesis
    using assms(2) handle_rename_paths_step [OF assms(1), of st]
    by (cases req) (auto simp: remap_response_def dest: entry dir plus split: if_splits)
qed

lemma guest_handle_step: "guest_handle fh st = (r, st') \<Longrightarrow> remap_step st st'"
  by (auto simp: guest_handle_def remap_step_max split: if_splits option.splits)

lemma guest_handle_response_step:
  assumes "guest_handle_response r st = (r', st')"
  shows "remap_step st st'"
proof -
  have "\<And>fh x st1. guest_handle fh st = (x, st1) \<Longrightarrow> remap_step st st1" by (rule guest_handle_step)
  then show ?thesis using assms
    by (cases r) (auto simp: guest_handle_response_def split: prod.splits option.splits)
qed

lemma try_reopen_handle_step:
  "try_reopen_handle inner s fh d st w = (r, st', w') \<Longrightarrow> remap_step st st'"
  by (auto simp: try_reopen_handle_def Let_def remap_step_handles split: option.splits prod.splits)

lemma inner_handle_step:
  "inner_handle inner fh s d st w = (r, st', w') \<Longrightarrow> remap_step st st'"
  by (auto simp: inner_handle_def dest: try_reopen_handle_step split: option.splits if_splits)

lemma translate_fh_step:
  "translate_fh inner req rm st w = (r, st', w') \<Longrightarrow> remap_step st st'"
  by (auto simp: translate_fh_def dest: inner_handle_step split: option.splits prod.splits)

lemma translate_fh_out_step:
  "translate_fh_out inner req rm st w = (r, st', w') \<Longrightarrow> remap_step st st'"
  by (auto simp: translate_fh_out_def dest: inner_handle_step split: option.splits prod.splits)

lemma delegate_step:
  assumes "finds_path scan" "delegate scan inner req groups rm st w = (r, st', w')"
  shows "remap_step st st'"
proof -
  obtain r1 w1 where i: "inner rm groups w = (r1, w1)" by (cases "inner rm groups w")
  obtain r2 st2 where g: "guest_handle_response r1 st = (r2, st2)" by (cases "guest_handle_response r1 st")
  have "remap_response scan req r2 st2 = (r, st')"
    using assms(2) i g by (auto simp: delegate_def split: prod.splits)
  then show ?thesis
    using guest_handle_response_step [OF g] remap_response_step [OF assms(1)] remap_step_trans by blast
qed

lemma remap_handle_request_step:
  assumes "finds_path scan" "remap_handle_request scan inner req groups st w = (r, st', w')"
  shows "remap_step st st'"
proof (cases "remap_request_inodes st req")
  case None
  then show ?thesis using assms(2) by (simp add: remap_handle_request_def)
next
  case (Some rm)
  obtain r1 st1 w1 where t1: "translate_fh inner req rm st w = (r1, st1, w1)" by (rule prod_cases3)
  obtain r2 st2 w2 where t2: "translate_fh_out inner req (the r1) st1 w1 = (r2, st2, w2)" by (rule prod_cases3)
  have steps: "remap_step st st1" "remap_step st1 st2"
    using translate_fh_step [OF t1] translate_fh_out_step [OF t2] .
  have "(\<exists>h. st' = st\<lparr>rf_handle_remap := h\<rparr>) \<or> st' = st \<or> st' = st1 \<or> st' = st2
      \<or> delegate scan inner req groups (the r2) st2 w2 = (r, st', w')"
    using assms(2) Some t1 t2
    by (auto simp: remap_handle_request_def split: option.splits prod.splits)
  then show ?thesis
    using steps delegate_step [OF assms(1)] remap_step_trans remap_step_handles remap_step_refl by metis
qed

lemma remap_serve_step:
  assumes "finds_path scan" "remap_serve scan inner rs st w = (out, st', w')"
  shows "remap_step st st'"
  using assms(2)
proof (induction rs arbitrary: st w out)
  case (Cons rg rs)
  obtain r st1 w1 where h: "remap_handle_request scan inner (fst rg) (snd rg) st w = (r, st1, w1)"
    by (rule prod_cases3)
  obtain out2 where "remap_serve scan inner rs st1 w1 = (out2, st', w')"
    using Cons.prems h by (cases rg) (auto split: prod.splits)
  then show ?case
    using Cons.IH remap_handle_request_step [OF assms(1) h] remap_step_trans by blast
qed simp

section \<open>Inode numbers keep their meaning\<close>

text \<open>
  Claim C11.  From the first request on, whatever the guest asks and whatever the wrapped filesystem
  answers, the stable and the inner inode numbers stay in one-to-one correspondence with the root as 1,
  and a number once given never changes its meaning: every mapping of an earlier moment is one of every
  later moment.
\<close>

theorem remap_numbering:
  assumes "finds_path scan"
    and "remap_serve scan inner rs remap_new w = (out, st, w1)"
    and "remap_serve scan inner rs' st w1 = (out', st', w2)"
  shows "remap_inv st' \<and> rf_stable_to_inner st \<subseteq>\<^sub>m rf_stable_to_inner st' \<and>
         rf_inner_to_stable st \<subseteq>\<^sub>m rf_inner_to_stable st'"
  using remap_serve_step [OF assms(1,2)] remap_serve_step [OF assms(1,3)] remap_new_inv
  by (simp add: remap_step_def remap_ext_def)

lemma remap_inv_inverse:
  "remap_inv st \<Longrightarrow> rf_inner_to_stable st i = Some s \<longleftrightarrow> rf_stable_to_inner st s = Some i"
  by (simp add: remap_inv_def)

lemma remap_ext_lookup: "remap_ext st st' \<Longrightarrow> rf_stable_to_inner st s = Some i \<Longrightarrow> rf_stable_to_inner st' s = Some i"
  by (auto simp: remap_ext_def map_le_def dom_def)

text \<open>A request without handles goes straight to the wrapped filesystem.\<close>

lemma remap_handle_request_plain:
  assumes "remap_request_inodes st req = Some rm" "rq_fh req = None" "rq_fh_out req = None"
    "stale_release st req = None"
  shows "remap_handle_request scan inner req groups st w = delegate scan inner req groups rm st w"
  using assms by (simp add: remap_handle_request_def translate_fh_def translate_fh_out_def)

text \<open>
  Claim C13.  A looked-up name is bound to its file: when the wrapped filesystem finds the entry, the
  guest gets the same attributes under a stable number (or an I/O error and no change, if no number is
  free), and every later request for that number, after any other traffic, reaches exactly the inode
  the wrapped filesystem found.
\<close>

theorem lookup_stays_bound:
  assumes "finds_path scan" "remap_inv st"
    and "rf_stable_to_inner st parent = Some ip"
    and "inner (RqLookup ip name c) groups w = (RsEntry b gen ttl, w1)"
    and "remap_handle_request scan inner (RqLookup parent name c) groups st w = (r, st1, w')"
    and "remap_serve scan inner rs st1 w' = (out, st2, w2)"
  shows "w' = w1 \<and> (r = rs_io_error \<and> st1 = st \<or>
           (\<exists>s. r = RsEntry (b\<lparr>fa_ino := s\<rparr>) gen ttl \<and>
                remap_request_inodes st2 (RqGetattr s) = Some (RqGetattr (fa_ino b))))"
proof -
  have "remap_handle_request scan inner (RqLookup parent name c) groups st w
      = delegate scan inner (RqLookup parent name c) groups (RqLookup ip name c) st w"
    by (rule remap_handle_request_plain)
       (simp_all add: remap_request_inodes_def to_inner_def assms(3) rq_fh_def rq_fh_out_def stale_release_def)
  then have d: "w' = w1" "remap_entry_response parent name (RsEntry b gen ttl) st = (r, st1)"
    using assms(4,5)
    by (auto simp: delegate_def guest_handle_response_def remap_response_def is_error_def split: prod.splits)
  obtain x st' where reg: "register_entry parent name (fa_ino b) st = (x, st')" by (rule prod.exhaust)
  show ?thesis
  proof (cases x)
    case None
    then show ?thesis using d reg by (auto simp: remap_entry_response_def elim: register_entry_cases)
  next
    case (Some s)
    then have r: "r = RsEntry (b\<lparr>fa_ino := s\<rparr>) gen ttl" "st1 = st'"
      using d reg by (auto simp: remap_entry_response_def)
    have "rf_stable_to_inner st' s = Some (fa_ino b)"
      using register_entry_known [of parent name "fa_ino b" st s st'] reg register_entry_step [OF reg]
        assms(2) Some remap_inv_inverse [of st'] by (simp add: remap_step_def)
    then have "rf_stable_to_inner st2 s = Some (fa_ino b)"
      using remap_serve_step [OF assms(1,6)] r remap_ext_lookup by (auto simp: remap_step_def)
    then have "remap_request_inodes st2 (RqGetattr s) = Some (RqGetattr (fa_ino b))"
      by (simp add: remap_request_inodes_def to_inner_def)
    then show ?thesis using d(1) r(1) by blast
  qed
qed

text \<open>
  Claim C18.  A request that names an inode the server never gave out is refused with an I/O error; the
  wrapped filesystem is not called and nothing changes.  Only forgetting is best effort.
\<close>

theorem unknown_inode_refused:
  assumes "rq_ino req = Some s" "rf_stable_to_inner st s = None" "\<not> is_no_reply req"
  shows "remap_handle_request scan inner req groups st w = (rs_io_error, st, w)"
proof -
  have "remap_request_inodes st req = None"
    using assms by (cases req) (simp_all add: remap_request_inodes_def to_inner_def rq_ino_def is_no_reply_def)
  then show ?thesis by (simp add: remap_handle_request_def)
qed

text \<open>When no number is free: the 9,999 numbers after the path's own are all taken (or reserved).\<close>

lemma find_alternative_None:
  "find_alternative st h = None \<Longrightarrow> 1 \<le> i \<Longrightarrow> i < 10000 \<Longrightarrow>
     (h + i) mod 2 ^ 64 < 2 \<or> (h + i) mod 2 ^ 64 \<in> dom (rf_stable_to_inner st)"
  unfolding find_alternative_def find_None_iff by force

lemma mod_shift_eq: "(h + i) mod M = (h + j) mod M \<Longrightarrow> i \<le> j \<Longrightarrow> j < M \<Longrightarrow> i = (j :: nat)"
  using mod_eq_dvd_iff_nat [of "h + i" "h + j" M] by (auto dest: dvd_imp_le)

lemma mod_shift_inj: "m \<le> M \<Longrightarrow> inj_on (\<lambda>i. (h + i) mod M) {..<m :: nat}"
proof (rule inj_onI)
  fix i j assume "m \<le> M" "i \<in> {..<m}" "j \<in> {..<m}" "(h + i) mod M = (h + j) mod M"
  then show "i = j" using mod_shift_eq [of h i M j] mod_shift_eq [of h j M i] by (cases "i \<le> j") auto
qed

text \<open>
  Claim C17.  A name is only refused for want of a number when at least 9,998 numbers are in use:
  below that, registering an entry always succeeds.
\<close>

theorem register_entry_succeeds:
  assumes "finite (dom (rf_stable_to_inner st))" "card (dom (rf_stable_to_inner st)) < 9998"
  shows "\<exists>s. fst (register_entry parent name inner_ino st) = Some s"
proof (rule ccontr)
  assume "\<not> ?thesis"
  then obtain st' where reg: "register_entry parent name inner_ino st = (None, st')"
    by (cases "register_entry parent name inner_ino st") auto
  define h where "h = path_hash (format_path (path_of st parent) (from_utf8_lossy name))"
  define f where "f = (\<lambda>i. (h + i) mod 2 ^ 64)"
  have taken: "h \<in> dom (rf_stable_to_inner st)" and none: "find_alternative st h = None"
    using reg by (auto simp: register_entry_def h_def Let_def split: option.splits if_splits)
  have h: "f 0 = h" using path_hash_bounds by (simp add: f_def h_def)
  have "f i \<in> {0, 1} \<union> dom (rf_stable_to_inner st)" if "i < 10000" for i
  proof (cases "i = 0")
    case False
    then show ?thesis using find_alternative_None [OF none, of i] that by (auto simp: f_def)
  qed (use h taken in simp)
  then have "f ` {..<10000} \<subseteq> {0, 1} \<union> dom (rf_stable_to_inner st)" by (simp add: image_subset_iff)
  then have "card (f ` {..<10000}) \<le> card ({0, 1} \<union> dom (rf_stable_to_inner st))"
    using assms(1) by (intro card_mono) auto
  moreover have "inj_on f {..<10000}" unfolding f_def by (rule mod_shift_inj) simp
  then have "card (f ` {..<10000}) = 10000" by (simp add: card_image)
  moreover have "card ({0, 1} \<union> dom (rf_stable_to_inner st)) \<le> 2 + card (dom (rf_stable_to_inner st))"
    using card_Un_le [of "{0, 1}" "dom (rf_stable_to_inner st)"] by simp
  ultimately show False using assms(2) by linarith
qed

section \<open>File handles across a snapshot\<close>

text \<open>The handle a response gives the guest; 0 is no handle.\<close>

definition rs_given_fh :: "volume_response \<Rightarrow> nat option" where
  "rs_given_fh r = (case r of
     RsOpened fh _ \<Rightarrow> if fh = 0 then None else Some fh
   | RsOpeneddir fh \<Rightarrow> if fh = 0 then None else Some fh
   | RsCreated _ _ _ fh _ \<Rightarrow> if fh = 0 then None else Some fh
   | _ \<Rightarrow> None)"

definition given_handles :: "volume_response list \<Rightarrow> nat set" where
  "given_handles rs = {h. \<exists>r \<in> set rs. rs_given_fh r = Some h}"

lemma given_handles_simps [simp]:
  "given_handles [] = {}"
  "given_handles (r # rs) = (case rs_given_fh r of Some h \<Rightarrow> {h} | None \<Rightarrow> {}) \<union> given_handles rs"
  by (auto simp: given_handles_def split: option.split)

lemma guest_handle_given:
  assumes "guest_handle fh st = (Some g, st')" "g \<noteq> 0"
  shows "g = fh + rf_handle_base st \<and> rf_handle_base st < g \<and> g \<le> rf_max_guest_handle st'"
  using assms by (auto simp: guest_handle_def split: if_splits option.splits)

lemma guest_handle_response_given:
  assumes "guest_handle_response r st = (r', st')" "rs_given_fh r' = Some h"
  shows "rf_handle_base st < h \<and> h \<le> rf_max_guest_handle st' \<and> rf_handle_base st' = rf_handle_base st"
proof -
  obtain fh st1 where g: "guest_handle fh st = (Some h, st1)" "st' = st1" "h \<noteq> 0"
    using assms
    by (cases r) (auto simp: guest_handle_response_def rs_given_fh_def rs_io_error_def
        split: prod.splits option.splits if_splits)
  then show ?thesis
    using guest_handle_given [OF g(1,3)] guest_handle_step [OF g(1)]
    by (auto simp: remap_step_def remap_ext_def)
qed

lemma remap_entry_response_given:
  "remap_entry_response p n r st = (r', st') \<Longrightarrow> rs_given_fh r' = Some h \<Longrightarrow> rs_given_fh r = Some h"
  by (cases r) (auto simp: remap_entry_response_def rs_given_fh_def rs_io_error_def
      split: prod.splits option.splits if_splits)

lemma remap_response_result:
  assumes "remap_response scan req r st = (r', st')"
  shows "r' = r \<or> r' = remap_attr_response st r \<or> (\<exists>p n. remap_entry_response p n r st = (r', st'))
    \<or> (\<exists>d. remap_readdir_response d r st = (r', st')) \<or> (\<exists>d. remap_readdirplus_response d r st = (r', st'))"
  using assms by (cases req; cases "is_error r"; simp add: remap_response_def; blast)

lemma remap_response_given:
  assumes "remap_response scan req r st = (r', st')" "rs_given_fh r' = Some h"
  shows "rs_given_fh r = Some h"
proof -
  have attr: "rs_given_fh (remap_attr_response st r) = Some h \<Longrightarrow> rs_given_fh r = Some h"
    by (cases r) (auto simp: remap_attr_response_def rs_given_fh_def split: option.splits)
  have dir: "remap_readdir_response d r st = (r', st') \<Longrightarrow> rs_given_fh r = Some h" for d
    using assms(2) by (cases r) (auto simp: remap_readdir_response_def rs_given_fh_def split: prod.splits)
  have plus: "remap_readdirplus_response d r st = (r', st') \<Longrightarrow> rs_given_fh r = Some h" for d
    using assms(2) by (cases r) (auto simp: remap_readdirplus_response_def rs_given_fh_def split: prod.splits)
  show ?thesis
    using remap_response_result [OF assms(1)] assms(2) attr dir plus remap_entry_response_given by blast
qed

lemma delegate_given:
  assumes "finds_path scan" "delegate scan inner req groups rm st w = (r, st', w')" "rs_given_fh r = Some h"
  shows "rf_handle_base st < h \<and> h \<le> rf_max_guest_handle st'"
proof -
  obtain r1 w1 where i: "inner rm groups w = (r1, w1)" by (rule prod.exhaust)
  obtain r2 st2 where g: "guest_handle_response r1 st = (r2, st2)" by (rule prod.exhaust)
  have resp: "remap_response scan req r2 st2 = (r, st')"
    using assms(2) i g by (auto simp: delegate_def split: prod.splits)
  show ?thesis
    using guest_handle_response_given [OF g remap_response_given [OF resp assms(3)]]
      remap_response_step [OF assms(1) resp]
    by (auto simp: remap_step_def remap_ext_def)
qed

lemma remap_handle_request_given:
  assumes "finds_path scan" "remap_handle_request scan inner req groups st w = (r, st', w')"
    "rs_given_fh r = Some h"
  shows "rf_handle_base st < h \<and> h \<le> rf_max_guest_handle st'"
proof -
  obtain rm where rm: "remap_request_inodes st req = Some rm" "stale_release st req = None"
    using assms(2,3)
    by (auto simp: remap_handle_request_def rs_given_fh_def rs_io_error_def split: option.splits prod.splits)
  obtain r1 st1 w1 where t1: "translate_fh inner req rm st w = (r1, st1, w1)" by (rule prod_cases3)
  obtain r2 st2 w2 where t2: "translate_fh_out inner req (the r1) st1 w1 = (r2, st2, w2)" by (rule prod_cases3)
  have "delegate scan inner req groups (the r2) st2 w2 = (r, st', w')"
    using assms(2,3) rm t1 t2
    by (auto simp: remap_handle_request_def rs_given_fh_def rs_error_def split: option.splits)
  moreover have "rf_handle_base st2 = rf_handle_base st"
    using translate_fh_step [OF t1] translate_fh_out_step [OF t2] by (simp add: remap_step_def remap_ext_def)
  ultimately show ?thesis using delegate_given [OF assms(1) _ assms(3)] by metis
qed

text \<open>The handles a run gives out lie above the server's base and at or below its recorded maximum.\<close>

lemma remap_serve_given:
  assumes "finds_path scan" "remap_serve scan inner rs st w = (out, st', w')" "h \<in> given_handles out"
  shows "rf_handle_base st < h \<and> h \<le> rf_max_guest_handle st'"
  using assms(2,3)
proof (induction rs arbitrary: st w out)
  case (Cons rg rs)
  obtain r st1 w1 where h: "remap_handle_request scan inner (fst rg) (snd rg) st w = (r, st1, w1)"
    by (rule prod_cases3)
  obtain out2 where o2: "remap_serve scan inner rs st1 w1 = (out2, st', w')" "out = r # out2"
    using Cons.prems(1) h by (cases rg) (auto split: prod.splits)
  note e1 = remap_handle_request_step [OF assms(1) h]
  note e2 = remap_serve_step [OF assms(1) o2(1)]
  show ?case
  proof (cases "rs_given_fh r = Some h")
    case True
    then show ?thesis using remap_handle_request_given [OF assms(1) h] e2
      by (auto simp: remap_step_def remap_ext_def)
  next
    case False
    then have "h \<in> given_handles out2" using Cons.prems(2) o2(2) by (auto split: option.splits)
    then show ?thesis using Cons.IH [OF o2(1)] e1 by (simp add: remap_step_def remap_ext_def)
  qed
qed simp

text \<open>What the code relies on of the JSON library: a table it wrote reads back.\<close>

definition reads_back :: "(json_table \<Rightarrow> bytes) \<Rightarrow> (bytes \<Rightarrow> json_table) \<Rightarrow> bool" where
  "reads_back to_string from_str \<longleftrightarrow>
     (\<forall>base es. sorted_wrt (<) (map fst es) \<longrightarrow>
        from_str (to_string (WithPaths (Some base) (Some es))) = WithPaths (Some base) (Some es))"

lemma sorted_table_entries: "sorted_wrt (<) (map fst (table_entries m))"
  by (simp add: table_entries_def comp_def)

lemma parse_serialize:
  assumes "reads_back to_string from_str"
    "rf_max_guest_handle st \<le> MAX_HANDLE_BASE" "rf_handle_base st \<le> MAX_HANDLE_BASE"
  shows "parse_table from_str (serialize_table to_string st)
           = (max (rf_max_guest_handle st) (rf_handle_base st), table_entries (rf_paths st))"
proof -
  have "\<not> MAX_HANDLE_BASE < max (rf_max_guest_handle st) (rf_handle_base st)" using assms(2,3) by simp
  then show ?thesis
    using assms(1) sorted_table_entries [of "rf_paths st"]
    by (simp add: parse_table_def serialize_table_def reads_back_def)
qed

lemma restore_entries_base: "rf_handle_base (fst (restore_entries inner t st w)) = rf_handle_base st"
  by (induction inner t st w rule: restore_entries.induct) (auto split: prod.splits option.splits)

text \<open>
  Claim C12.  A snapshot never lets two file handles share a number.  A server gives out handles, its
  table is written and read back by another server, and that server gives out handles: none of the
  second's handles is one of the first's, and the second takes every handle of the first for a stale
  one.  The JSON library is assumed to read back what it wrote, and the first server's handles to be
  below the bound the table format allows.
\<close>

theorem snapshot_handles_disjoint:
  assumes "finds_path scan" "reads_back to_string from_str"
    and "remap_serve scan inner rs st0 w0 = (out, st, w1)"
    and "rf_max_guest_handle st \<le> MAX_HANDLE_BASE" "rf_handle_base st \<le> MAX_HANDLE_BASE"
    and "restore_from_table inner' from_str (serialize_table to_string st) v0 = (st', v1)"
    and "remap_serve scan inner' rs' st' v1 = (out', st'', v2)"
  shows "given_handles out \<inter> given_handles out' = {} \<and> (\<forall>h \<in> given_handles out. is_stale_handle st'' h)"
proof -
  let ?b = "max (rf_max_guest_handle st) (rf_handle_base st)"
  have "st' = fst (restore_entries inner' (table_entries (rf_paths st))
                     (remap_new\<lparr>rf_handle_base := max ?b 1\<rparr>) v0)"
    using assms(6) unfolding restore_from_table_def parse_serialize [OF assms(2,4,5)] by simp
  then have "rf_handle_base st' = max ?b 1" by (simp add: restore_entries_base)
  moreover have "rf_handle_base st'' = rf_handle_base st'"
    using remap_serve_step [OF assms(1,7)] by (simp add: remap_step_def remap_ext_def)
  ultimately show ?thesis
    using remap_serve_given [OF assms(1,3)] remap_serve_given [OF assms(1,7)]
    by (fastforce simp: is_stale_handle_def)
qed

text \<open>
  A handle stays tied to the open file it was given for: when the wrapped filesystem opens an
  inode as handle \<open>fh\<close>, the guest's number for it is translated back to exactly \<open>fh\<close> by every later
  state of the server, without another call to the wrapped filesystem.
\<close>

theorem opened_handle_bound:
  assumes "finds_path scan" "rf_stable_to_inner st ino = Some i"
    and "inner (RqOpen i flags c) groups w = (RsOpened fh fl, w1)"
    and "remap_handle_request scan inner (RqOpen ino flags c) groups st w = (RsOpened g fl', st1, w')"
    and "remap_serve scan inner rs st1 w' = (out, st2, w2)"
  shows "inner_handle inner g ino' is_dir st2 w2 = (Some fh, st2, w2)"
proof -
  have "remap_handle_request scan inner (RqOpen ino flags c) groups st w
      = delegate scan inner (RqOpen ino flags c) groups (RqOpen i flags c) st w"
    by (rule remap_handle_request_plain)
       (simp_all add: remap_request_inodes_def to_inner_def assms(2) rq_fh_def rq_fh_out_def stale_release_def)
  then have g: "guest_handle fh st = (Some g, st1)"
    using assms(3,4)
    by (auto simp: delegate_def guest_handle_response_def remap_response_def is_error_def rs_io_error_def
        split: prod.splits option.splits if_splits)
  have base: "rf_handle_base st2 = rf_handle_base st"
    using remap_serve_step [OF assms(1,5)] guest_handle_step [OF g] by (simp add: remap_step_def remap_ext_def)
  show ?thesis
  proof (cases "g = 0")
    case True
    then have "fh = 0" using g by (auto simp: guest_handle_def split: if_splits option.splits)
    then show ?thesis using True by (simp add: inner_handle_def)
  next
    case False
    then have "g = fh + rf_handle_base st" "rf_handle_base st < g"
      using guest_handle_given [OF g False] by simp_all
    then show ?thesis using base by (simp add: inner_handle_def is_stale_handle_def)
  qed
qed

text \<open>What an inner handle for a stale guest handle was: the answer to an open of the inode the request
  names, issued by this server.\<close>

definition opened_by :: "'w handler \<Rightarrow> nat \<Rightarrow> bool \<Rightarrow> nat \<Rightarrow> bool" where
  "opened_by inner i is_dir fh \<longleftrightarrow>
     (\<exists>v. reopened_fh (fst (if is_dir then inner (RqOpendir i 0 root_cred) [] v
                            else open_widest inner i [O_RDWR, O_RDONLY, O_WRONLY] v)) = Some fh)"

text \<open>
  Claim C14.  A handle from before the restore is never passed on by its number.  The first request that
  carries it opens the inode the request names and uses that open's handle, which is remembered; every
  later one uses the remembered handle.
\<close>

theorem stale_handle_reopened:
  assumes "is_stale_handle st g" "rf_handle_remap st g = None"
    and "inner_handle inner g (Some s) is_dir st w = (Some fh, st', w')"
  shows "(\<exists>i. rf_stable_to_inner st s = Some i \<and> opened_by inner i is_dir fh) \<and>
         inner_handle inner g s' is_dir' st' v = (Some fh, st', v)"
proof -
  have g: "g \<noteq> 0" using assms(1) by (simp add: is_stale_handle_def)
  have re: "try_reopen_handle inner s g is_dir st w = (Some fh, st', w')"
    using assms g by (simp add: inner_handle_def)
  then obtain i where i: "rf_stable_to_inner st s = Some i"
    using assms(2) by (auto simp: try_reopen_handle_def to_inner_def split: option.splits)
  obtain resp w1 where o: "(if is_dir then inner (RqOpendir i 0 root_cred) [] w
      else open_widest inner i [O_RDWR, O_RDONLY, O_WRONLY] w) = (resp, w1)" by (rule prod.exhaust)
  have fh: "reopened_fh resp = Some fh" "st' = st\<lparr>rf_handle_remap := (rf_handle_remap st)(g \<mapsto> fh)\<rparr>"
    using re unfolding try_reopen_handle_def assms(2) to_inner_def i option.case o Let_def prod.case
    by (auto split: option.splits)
  have "opened_by inner i is_dir fh"
    unfolding opened_by_def by (rule exI [of _ w]) (simp only: o fst_conv fh(1))
  moreover have "is_stale_handle st' g" using assms(1) fh(2) by (simp add: is_stale_handle_def)
  ultimately show ?thesis using i fh(2) g by (simp add: inner_handle_def)
qed

section \<open>Inode numbers across a snapshot\<close>

text \<open>A wrapped filesystem whose lookups answer the same from every state resolves each path to one
  inode, or to none.\<close>

definition resolves :: "'w handler \<Rightarrow> (bytes \<Rightarrow> nat option) \<Rightarrow> bool" where
  "resolves inner resolve \<longleftrightarrow>
     (\<forall>path w. path \<noteq> [] \<longrightarrow> fst (walk_components inner 1 (split_at SLASH path) w) = resolve path)"

lemma resolves_walk:
  assumes "resolves inner resolve" "path \<noteq> []"
  obtains w' where "walk_components inner 1 (split_at SLASH path) w = (resolve path, w')"
  using assms by (metis resolves_def prod.collapse)

lemma restore_entries_lookup:
  assumes "resolves inner resolve" "distinct (map fst t)"
  shows "rf_stable_to_inner (fst (restore_entries inner t st w)) s =
           (case map_of t s of
              Some p \<Rightarrow> if p = [] \<or> resolve p = None then rf_stable_to_inner st s else resolve p
            | None \<Rightarrow> rf_stable_to_inner st s)"
  using assms(2)
proof (induction t arbitrary: st w)
  case (Cons sp t)
  obtain s0 p where sp: "sp = (s0, p)" by (rule prod.exhaust)
  have s0: "map_of t s0 = None" using Cons.prems sp by (simp add: map_of_eq_None_iff)
  show ?case
  proof (cases "p = []")
    case True
    then show ?thesis using Cons sp s0 by simp
  next
    case False
    obtain w' where "walk_components inner 1 (split_at SLASH p) w = (resolve p, w')"
      using resolves_walk [OF assms(1) False] .
    then show ?thesis using Cons sp s0 False by (cases "resolve p") (simp_all split: option.split)
  qed
qed simp

lemma restore_entries_inv:
  assumes "resolves inner resolve" "distinct (map fst t)" "remap_inv st"
    and "\<forall>s p. (s, p) \<in> set t \<and> p \<noteq> [] \<longrightarrow> 2 \<le> s \<and> s < 2 ^ 64 \<and> rf_stable_to_inner st s = None"
    and "\<forall>s p i. (s, p) \<in> set t \<and> p \<noteq> [] \<and> resolve p = Some i \<longrightarrow> rf_inner_to_stable st i = None"
    and "\<forall>s p s' p' i. (s, p) \<in> set t \<and> (s', p') \<in> set t \<and> p \<noteq> [] \<and> p' \<noteq> [] \<and>
           resolve p = Some i \<and> resolve p' = Some i \<longrightarrow> s = s'"
  shows "remap_inv (fst (restore_entries inner t st w))"
  using assms(2-6)
proof (induction t arbitrary: st w)
  case (Cons sp t)
  obtain s p where sp: "sp = (s, p)" by (rule prod.exhaust)
  note IH = Cons.IH and prems = Cons.prems [unfolded sp]
  have tail: "distinct (map fst t)" "s \<notin> fst ` set t" using prems(1) by simp_all
  show ?case
  proof (cases "p = [] \<or> resolve p = None")
    case True
    have "remap_inv (fst (restore_entries inner t st v))" for v
    proof (rule IH [OF tail(1) prems(2)])
      show "\<forall>s p. (s, p) \<in> set t \<and> p \<noteq> [] \<longrightarrow> 2 \<le> s \<and> s < 2 ^ 64 \<and> rf_stable_to_inner st s = None"
        using prems(3) by (meson list.set_intros(2))
      show "\<forall>s p i. (s, p) \<in> set t \<and> p \<noteq> [] \<and> resolve p = Some i \<longrightarrow> rf_inner_to_stable st i = None"
        using prems(4) by (meson list.set_intros(2))
      show "\<forall>s p s' p' i. (s, p) \<in> set t \<and> (s', p') \<in> set t \<and> p \<noteq> [] \<and> p' \<noteq> [] \<and>
          resolve p = Some i \<and> resolve p' = Some i \<longrightarrow> s = s'"
        using prems(5) by (meson list.set_intros(2))
    qed
    moreover have "\<exists>v. restore_entries inner ((s, p) # t) st w = restore_entries inner t st v"
    proof (cases "p = []")
      case False
      then obtain v where "walk_components inner 1 (split_at SLASH p) w = (resolve p, v)"
        using resolves_walk [OF assms(1)] by blast
      then show ?thesis using True False by auto
    qed auto
    ultimately show ?thesis using sp by auto
  next
    case False
    then obtain i where i: "p \<noteq> []" "resolve p = Some i" by auto
    define st1 where "st1 = st\<lparr>rf_inner_to_stable := (rf_inner_to_stable st)(i \<mapsto> s),
      rf_stable_to_inner := (rf_stable_to_inner st)(s \<mapsto> i), rf_paths := (rf_paths st)(s \<mapsto> p)\<rparr>"
    obtain v where "walk_components inner 1 (split_at SLASH p) w = (resolve p, v)"
      using resolves_walk [OF assms(1) i(1)] .
    then have eq: "restore_entries inner ((s, p) # t) st w = restore_entries inner t st1 v"
      using i by (simp add: st1_def)
    have s: "2 \<le> s \<and> s < 2 ^ 64 \<and> rf_stable_to_inner st s = None" "rf_inner_to_stable st i = None"
      using prems(3,4) i by auto
    then have inv1: "remap_inv st1" unfolding st1_def using prems(2) by (intro remap_inv_fresh) auto
    have other: "s' \<noteq> s \<and> (p' \<noteq> [] \<longrightarrow> resolve p' \<noteq> Some i)" if in_t: "(s', p') \<in> set t" for s' p'
    proof -
      have "s' \<noteq> s" using tail(2) in_t by (metis fst_conv image_eqI)
      then show ?thesis using prems(5) [rule_format, of s p s' p' i] i in_t by auto
    qed
    have "remap_inv (fst (restore_entries inner t st1 v))"
    proof (rule IH [OF tail(1) inv1])
      show "\<forall>s p. (s, p) \<in> set t \<and> p \<noteq> [] \<longrightarrow> 2 \<le> s \<and> s < 2 ^ 64 \<and> rf_stable_to_inner st1 s = None"
        using prems(3) other by (auto simp: st1_def)
      show "\<forall>s p i. (s, p) \<in> set t \<and> p \<noteq> [] \<and> resolve p = Some i \<longrightarrow> rf_inner_to_stable st1 i = None"
        using prems(4) other by (auto simp: st1_def)
      show "\<forall>s p s' p' i. (s, p) \<in> set t \<and> (s', p') \<in> set t \<and> p \<noteq> [] \<and> p' \<noteq> [] \<and>
          resolve p = Some i \<and> resolve p' = Some i \<longrightarrow> s = s'"
        using prems(5) by (meson list.set_intros(2))
    qed
    then show ?thesis using sp eq by simp
  qed
qed simp

lemma map_of_table_entries: "finite (dom m) \<Longrightarrow> map_of (table_entries m) = m"
proof
  fix x assume "finite (dom m)"
  then show "map_of (table_entries m) x = m x"
    by (cases "m x") (auto simp: table_entries_def map_of_map_restrict restrict_map_def)
qed

lemma set_table_entries: "finite (dom m) \<Longrightarrow> (s, p) \<in> set (table_entries m) \<longleftrightarrow> m s = Some p"
  by (force simp: table_entries_def)

lemma distinct_table_entries: "distinct (map fst (table_entries m))"
  by (simp add: table_entries_def comp_def)

text \<open>
  Claim C10.  Inode numbers survive a move to another host.  A server's table is written and read back
  over a filesystem whose lookups resolve each recorded path to a file of its own, or to none: the new
  server translates every number the guest knows to the inode its path has on the new host, refuses the
  numbers whose paths are gone, and again has a one-to-one correspondence.
\<close>

theorem restore_keeps_numbers:
  assumes "reads_back to_string from_str" "resolves inner resolve"
    and "remap_inv st" "rf_paths st 1 = Some []"
    and "rf_max_guest_handle st \<le> MAX_HANDLE_BASE" "rf_handle_base st \<le> MAX_HANDLE_BASE"
    and "\<forall>p \<in> ran (rf_paths st). p \<noteq> [] \<longrightarrow> resolve p \<noteq> Some 1"
    and "\<forall>s s' p p'. rf_paths st s = Some p \<and> rf_paths st s' = Some p' \<and> p \<noteq> [] \<and> p' \<noteq> [] \<and>
           resolve p \<noteq> None \<and> resolve p = resolve p' \<longrightarrow> s = s'"
    and "restore_from_table inner from_str (serialize_table to_string st) w = (st', w')"
  shows "remap_inv st' \<and> (\<forall>s p. rf_paths st s = Some p \<and> p \<noteq> [] \<longrightarrow> to_inner st' s = resolve p)"
proof -
  let ?t = "table_entries (rf_paths st)"
  let ?st0 = "remap_new\<lparr>rf_handle_base := max (max (rf_max_guest_handle st) (rf_handle_base st)) 1\<rparr>"
  have st': "st' = fst (restore_entries inner ?t ?st0 w)"
    using assms(9) unfolding restore_from_table_def parse_serialize [OF assms(1,5,6)] by simp
  have fin: "finite (dom (rf_paths st))" using assms(3) by (simp add: remap_inv_def)
  have range: "2 \<le> s \<and> s < 2 ^ 64" if "rf_paths st s = Some p" "p \<noteq> []" for s p
  proof -
    have "s \<in> dom (rf_stable_to_inner st)" "s \<noteq> 1" using that assms(3,4) by (auto simp: remap_inv_def)
    then show ?thesis using assms(3) by (auto simp: remap_inv_def)
  qed
  have inv0: "remap_inv ?st0" using remap_new_inv by (simp add: remap_inv_def)
  have "remap_inv st'"
    unfolding st'
  proof (rule restore_entries_inv [OF assms(2) distinct_table_entries inv0])
    show "\<forall>s p. (s, p) \<in> set ?t \<and> p \<noteq> [] \<longrightarrow> 2 \<le> s \<and> s < 2 ^ 64 \<and> rf_stable_to_inner ?st0 s = None"
      using range by (fastforce simp: set_table_entries [OF fin] remap_new_def)
    show "\<forall>s p i. (s, p) \<in> set ?t \<and> p \<noteq> [] \<and> resolve p = Some i \<longrightarrow> rf_inner_to_stable ?st0 i = None"
      using assms(7) by (fastforce simp: set_table_entries [OF fin] remap_new_def ran_def)
    show "\<forall>s p s' p' i. (s, p) \<in> set ?t \<and> (s', p') \<in> set ?t \<and> p \<noteq> [] \<and> p' \<noteq> [] \<and>
        resolve p = Some i \<and> resolve p' = Some i \<longrightarrow> s = s'"
      using assms(8) by (simp add: set_table_entries [OF fin])
  qed
  moreover have "to_inner st' s = resolve p" if "rf_paths st s = Some p" "p \<noteq> []" for s p
    using that range [OF that] restore_entries_lookup [OF assms(2) distinct_table_entries, of "rf_paths st" ?st0 w s]
    by (simp add: st' to_inner_def map_of_table_entries [OF fin] remap_new_def split: if_splits)
  ultimately show ?thesis by blast
qed

section \<open>Recorded paths under renames\<close>

text \<open>Where a path leads after the file or directory at one path moved to another.\<close>

definition rebase :: "bytes \<Rightarrow> bytes \<Rightarrow> bytes \<Rightarrow> bytes" where
  "rebase old_path new_path p =
     (if p = old_path then new_path
      else if prefix (old_path @ [SLASH]) p then new_path @ drop (length old_path) p else p)"

lemma move_subtree_rebase:
  "m s \<noteq> Some old_path \<Longrightarrow> move_subtree old_path new_path m s = map_option (rebase old_path new_path) (m s)"
  by (cases "m s") (auto simp: move_subtree_def rebase_def prefix_def)

text \<open>A path recorded for one inode only is what the search for it finds.\<close>

lemma finds_unique:
  assumes "finds_path scan" "m k = Some p" "\<forall>k'. m k' = Some p \<longrightarrow> k' = k"
  shows "scan m p = Some k"
proof (cases "scan m p")
  case None
  then have "p \<notin> ran m" using assms(1) unfolding finds_path_def by blast
  then show ?thesis using assms(2) by (blast intro: ranI)
next
  case (Some k')
  then have "m k' = Some p" using assms(1) unfolding finds_path_def by blast
  then show ?thesis using assms(3) Some by blast
qed

text \<open>
  Claim C15.  A plain rename keeps the recorded paths true: when the renamed path is recorded for one
  inode, that inode gets the new path, every inode recorded below it moves along with its remainder of
  the path, and all others keep theirs.
\<close>

theorem rename_moves_subtree:
  assumes "finds_path scan" "flags AND RENAME_EXCHANGE = 0"
    and "old = format_path (path_of st parent) (from_utf8_lossy name)"
    and "new = format_path (path_of st newparent) (from_utf8_lossy newname)"
    and "rf_paths st src = Some old" "\<forall>s. rf_paths st s = Some old \<longrightarrow> s = src"
    and "\<not> prefix (old @ [SLASH]) new"
  shows "rf_paths (handle_rename_paths scan parent name newparent newname flags st) s
           = map_option (rebase old new) (rf_paths st s)"
proof -
  have "scan (rf_paths st) old = Some src" using finds_unique assms(1,5,6) by blast
  then have "rf_paths (handle_rename_paths scan parent name newparent newname flags st)
      = move_subtree old new ((rf_paths st)(src \<mapsto> new))"
    using assms(2) by (simp add: handle_rename_paths_def assms(3,4) [symmetric])
  moreover have "move_subtree old new ((rf_paths st)(src \<mapsto> new)) s
      = map_option (rebase old new) (rf_paths st s)"
  proof (cases "s = src")
    case True
    then show ?thesis using assms(5,7) by (simp add: move_subtree_def rebase_def)
  next
    case False
    then have "rf_paths st s \<noteq> Some old" using assms(6) by blast
    then show ?thesis using False by (simp add: move_subtree_rebase)
  qed
  ultimately show ?thesis by simp
qed

text \<open>Where a path leads after the files or directories at two paths changed places.\<close>

definition exchanged :: "bytes \<Rightarrow> bytes \<Rightarrow> bytes \<Rightarrow> bytes" where
  "exchanged old new p = (if p = old \<or> prefix (old @ [SLASH]) p then rebase old new p else rebase new old p)"

text \<open>
  Claim C16.  An exchange of two entries that have nothing recorded below them, as two files have, keeps the
  path table true: every inode is afterwards recorded with the path at which its file is, that is, the two
  entries with each other's path and every other inode with the path it had.
\<close>

theorem exchange_swaps_two_paths:
  assumes "finds_path scan" "flags AND RENAME_EXCHANGE \<noteq> 0" "old \<noteq> new"
    and "old = format_path (path_of st parent) (from_utf8_lossy name)"
    and "new = format_path (path_of st newparent) (from_utf8_lossy newname)"
    and "rf_paths st src = Some old" "\<forall>s. rf_paths st s = Some old \<longrightarrow> s = src"
    and "rf_paths st dst = Some new" "\<forall>s. rf_paths st s = Some new \<longrightarrow> s = dst"
    and "\<forall>p \<in> ran (rf_paths st). \<not> prefix (old @ [SLASH]) p \<and> \<not> prefix (new @ [SLASH]) p"
  shows "rf_paths (handle_rename_paths scan parent name newparent newname flags st) s
           = map_option (exchanged old new) (rf_paths st s)"
proof -
  have "scan (rf_paths st) old = Some src" "scan (rf_paths st) new = Some dst"
    using finds_unique assms(1,6-9) by blast+
  then have "rf_paths (handle_rename_paths scan parent name newparent newname flags st)
      = (rf_paths st)(src \<mapsto> new, dst \<mapsto> old)"
    using assms(2) by (simp add: handle_rename_paths_def Let_def assms(4,5) [symmetric])
  moreover have "s = dst \<longleftrightarrow> rf_paths st s = Some new" "s = src \<longleftrightarrow> rf_paths st s = Some old"
    using assms(6-9) by blast+
  moreover have "\<not> prefix (old @ [SLASH]) p" "\<not> prefix (new @ [SLASH]) p" if "rf_paths st s = Some p" for p
    using assms(10) that by (blast intro: ranI)+
  ultimately show ?thesis using assms(3) by (cases "rf_paths st s") (auto simp: exchanged_def rebase_def)
qed

section \<open>Examples\<close>

text \<open>A search that takes the least of the inodes recorded with the path; a filesystem with one file
  \<open>a\<close> in its root, inode 7, which it opens as handle 3; and an encoding of tables as text.\<close>

definition least_path :: path_finder where
  "least_path m p = (if p \<in> ran m then Some (LEAST k. m k = Some p) else None)"

lemma finds_least_path: "finds_path least_path"
  by (auto simp: finds_path_def least_path_def ran_def split: if_splits intro: LeastI)

definition one_file_fs :: "unit handler" where
  "one_file_fs r groups w = (case r of
     RqLookup p n _ \<Rightarrow> (if p = 1 \<and> n = [97] then RsEntry (file_attr_new 7) 0 0 else rs_not_found, w)
   | RqOpen i _ _ \<Rightarrow> (if i = 7 then RsOpened 3 0 else rs_not_found, w)
   | _ \<Rightarrow> (RsOk, w))"

instance json_table :: countable
  by countable_datatype

definition table_to_text :: "json_table \<Rightarrow> bytes" where
  "table_to_text t = replicate (to_nat t) 0"

definition table_of_text :: "bytes \<Rightarrow> json_table" where
  "table_of_text s = from_nat (length s)"

lemma table_text_reads_back: "reads_back table_to_text table_of_text"
  by (simp add: reads_back_def table_to_text_def table_of_text_def)

lemma one_file_resolves:
  "resolves one_file_fs (\<lambda>p. fst (walk_components one_file_fs 1 (split_at SLASH p) ()))"
  by (simp add: resolves_def)

theorem remap_numbering_witness:
  "\<exists>out st w1 out' st' w2.
     remap_serve least_path one_file_fs [(RqLookup 1 [97] root_cred, [])] remap_new () = (out, st, w1) \<and>
     remap_serve least_path one_file_fs [(RqUnlink 1 [97] root_cred, [])] st w1 = (out', st', w2) \<and>
     remap_inv st' \<and> rf_stable_to_inner st \<subseteq>\<^sub>m rf_stable_to_inner st' \<and>
     rf_inner_to_stable st \<subseteq>\<^sub>m rf_inner_to_stable st'"
proof -
  obtain out st w1 where a:
    "remap_serve least_path one_file_fs [(RqLookup 1 [97] root_cred, [])] remap_new () = (out, st, w1)"
    by (rule prod_cases3)
  obtain out' st' w2 where b:
    "remap_serve least_path one_file_fs [(RqUnlink 1 [97] root_cred, [])] st w1 = (out', st', w2)"
    by (rule prod_cases3)
  show ?thesis using a b remap_numbering [OF finds_least_path a b] by blast
qed

theorem lookup_stays_bound_witness:
  "\<exists>r st1. remap_handle_request least_path one_file_fs (RqLookup 1 [97] root_cred) [] remap_new () = (r, st1, ()) \<and>
     (\<exists>st2. snd (remap_serve least_path one_file_fs [(RqUnlink 1 [97] root_cred, [])] st1 ()) = (st2, ()) \<and>
        (r = rs_io_error \<and> st1 = remap_new \<or>
          (\<exists>s. r = RsEntry ((file_attr_new 7)\<lparr>fa_ino := s\<rparr>) 0 0 \<and>
               remap_request_inodes st2 (RqGetattr s) = Some (RqGetattr (fa_ino (file_attr_new 7))))))"
proof -
  obtain r st1 w1 where a:
    "remap_handle_request least_path one_file_fs (RqLookup 1 [97] root_cred) [] remap_new () = (r, st1, w1)"
    by (rule prod_cases3)
  obtain out st2 w2 where b:
    "remap_serve least_path one_file_fs [(RqUnlink 1 [97] root_cred, [])] st1 w1 = (out, st2, w2)"
    by (rule prod_cases3)
  have "rf_stable_to_inner remap_new 1 = Some 1" by (simp add: remap_new_def)
  moreover have "one_file_fs (RqLookup 1 [97] root_cred) [] () = (RsEntry (file_attr_new 7) 0 0, ())"
    by (simp add: one_file_fs_def)
  ultimately show ?thesis
    using a b lookup_stays_bound [OF finds_least_path remap_new_inv _ _ a b] by auto
qed

theorem unknown_inode_refused_witness:
  "remap_handle_request least_path one_file_fs (RqGetattr 5) [] remap_new () = (rs_io_error, remap_new, ())"
  by (rule unknown_inode_refused [where s = 5]) (simp_all add: rq_ino_def remap_new_def is_no_reply_def)

theorem register_entry_succeeds_witness:
  "\<exists>s. fst (register_entry 1 [97] 7 remap_new) = Some s"
  by (rule register_entry_succeeds) (simp_all add: remap_new_def)

text \<open>A state with the file \<open>a\<close> recorded as number 50, over the one-file filesystem.\<close>

definition one_file_state :: "nat \<Rightarrow> remap_fs" where
  "one_file_state base = \<lparr>rf_inner_to_stable = [1 \<mapsto> 1, 7 \<mapsto> 50], rf_stable_to_inner = [1 \<mapsto> 1, 50 \<mapsto> 7],
     rf_paths = [1 \<mapsto> [], 50 \<mapsto> [97]], rf_handle_remap = Map.empty, rf_handle_base = base,
     rf_max_guest_handle = 0\<rparr>"

lemma one_file_state_inv: "remap_inv (one_file_state base)"
  by (auto simp: remap_inv_def one_file_state_def)

lemma one_file_open:
  "remap_handle_request least_path one_file_fs (RqOpen 50 0 root_cred) [] (one_file_state base) ()
     = delegate least_path one_file_fs (RqOpen 50 0 root_cred) [] (RqOpen 7 0 root_cred) (one_file_state base) ()"
  by (rule remap_handle_request_plain)
     (simp_all add: remap_request_inodes_def to_inner_def one_file_state_def rq_fh_def rq_fh_out_def
        stale_release_def)

lemma one_file_open_result:
  "remap_handle_request least_path one_file_fs (RqOpen 50 0 root_cred) [] (one_file_state 10) ()
     = (RsOpened 13 0, (one_file_state 10)\<lparr>rf_max_guest_handle := 13\<rparr>, ())"
  unfolding one_file_open
  by (simp add: delegate_def one_file_fs_def guest_handle_response_def guest_handle_def
      one_file_state_def checked_add_def u64_max_def remap_response_def is_error_def)

theorem stale_handle_reopened_witness:
  "\<exists>st' w'. inner_handle one_file_fs 4 (Some 50) False (one_file_state 10) () = (Some 3, st', w') \<and>
     (\<exists>i. rf_stable_to_inner (one_file_state 10) 50 = Some i \<and> opened_by one_file_fs i False 3) \<and>
     inner_handle one_file_fs 4 None True st' () = (Some 3, st', ())"
proof -
  have stale: "is_stale_handle (one_file_state 10) 4" "rf_handle_remap (one_file_state 10) 4 = None"
    by (simp_all add: is_stale_handle_def one_file_state_def)
  obtain st' where re: "inner_handle one_file_fs 4 (Some 50) False (one_file_state 10) () = (Some 3, st', ())"
    by (simp add: inner_handle_def is_stale_handle_def one_file_state_def try_reopen_handle_def
        to_inner_def one_file_fs_def reopened_fh_def is_error_def)
  show ?thesis using re stale_handle_reopened [OF stale re] by blast
qed

theorem snapshot_handles_disjoint_witness:
  "\<exists>out st w1 st' v1 out' st'' v2.
     remap_serve least_path one_file_fs [(RqOpen 50 0 root_cred, [])] (one_file_state 10) () = (out, st, w1) \<and>
     given_handles out = {13} \<and>
     restore_from_table one_file_fs table_of_text (serialize_table table_to_text st) () = (st', v1) \<and>
     remap_serve least_path one_file_fs [(RqOpen 50 0 root_cred, [])] st' v1 = (out', st'', v2) \<and>
     given_handles out \<inter> given_handles out' = {} \<and> (\<forall>h \<in> given_handles out. is_stale_handle st'' h)"
proof -
  define st where "st = (one_file_state 10)\<lparr>rf_max_guest_handle := 13\<rparr>"
  have a: "remap_serve least_path one_file_fs [(RqOpen 50 0 root_cred, [])] (one_file_state 10) ()
      = ([RsOpened 13 0], st, ())"
    by (simp add: one_file_open_result st_def)
  have bounds: "rf_max_guest_handle st \<le> MAX_HANDLE_BASE" "rf_handle_base st \<le> MAX_HANDLE_BASE"
    by (simp_all add: st_def one_file_state_def MAX_HANDLE_BASE_def)
  obtain st' v1 where b:
    "restore_from_table one_file_fs table_of_text (serialize_table table_to_text st) () = (st', v1)"
    by (rule prod.exhaust)
  obtain out' st'' v2 where c:
    "remap_serve least_path one_file_fs [(RqOpen 50 0 root_cred, [])] st' v1 = (out', st'', v2)"
    by (rule prod_cases3)
  have "given_handles [RsOpened 13 0] = {13}" by (simp add: rs_given_fh_def)
  then show ?thesis
    using a b c snapshot_handles_disjoint [OF finds_least_path table_text_reads_back a bounds b c] by blast
qed

theorem restore_keeps_numbers_witness:
  "\<exists>st' w'. restore_from_table one_file_fs table_of_text (serialize_table table_to_text (one_file_state 10)) () = (st', w') \<and>
     remap_inv st' \<and> to_inner st' 50 = Some 7"
proof -
  let ?resolve = "\<lambda>p. fst (walk_components one_file_fs 1 (split_at SLASH p) ())"
  obtain st' w' where r:
    "restore_from_table one_file_fs table_of_text (serialize_table table_to_text (one_file_state 10)) () = (st', w')"
    by (rule prod.exhaust)
  have a: "?resolve [97] = Some 7" by (simp add: one_file_fs_def SLASH_def rs_attr_def file_attr_new_def)
  have "rf_paths (one_file_state 10) 50 = Some [97]" by (simp add: one_file_state_def)
  moreover have "remap_inv st' \<and>
      (\<forall>s p. rf_paths (one_file_state 10) s = Some p \<and> p \<noteq> [] \<longrightarrow> to_inner st' s = ?resolve p)"
  proof (rule restore_keeps_numbers [OF table_text_reads_back one_file_resolves one_file_state_inv _ _ _ _ _ r])
    show "rf_paths (one_file_state 10) 1 = Some []" "rf_max_guest_handle (one_file_state 10) \<le> MAX_HANDLE_BASE"
      "rf_handle_base (one_file_state 10) \<le> MAX_HANDLE_BASE"
      by (simp_all add: one_file_state_def MAX_HANDLE_BASE_def)
    show "\<forall>p \<in> ran (rf_paths (one_file_state 10)). p \<noteq> [] \<longrightarrow> ?resolve p \<noteq> Some 1"
      using a by (auto simp: ran_def one_file_state_def split: if_splits)
    show "\<forall>s s' p p'. rf_paths (one_file_state 10) s = Some p \<and> rf_paths (one_file_state 10) s' = Some p' \<and>
        p \<noteq> [] \<and> p' \<noteq> [] \<and> ?resolve p \<noteq> None \<and> ?resolve p = ?resolve p' \<longrightarrow> s = s'"
      by (auto simp: one_file_state_def split: if_splits)
  qed
  ultimately show ?thesis using r a by fastforce
qed

text \<open>A directory \<open>d\<close> with a file \<open>d/a\<close>, and a file \<open>e\<close>.\<close>

definition tree_state :: remap_fs where
  "tree_state = remap_new\<lparr>rf_paths := [1 \<mapsto> [], 50 \<mapsto> [100], 51 \<mapsto> [100, 47, 97], 52 \<mapsto> [101]]\<rparr>"

theorem rename_moves_subtree_witness:
  "rf_paths (handle_rename_paths least_path 1 [100] 1 [102] 0 tree_state) 51 = Some [102, 47, 97]"
proof -
  have "rf_paths (handle_rename_paths least_path 1 [100] 1 [102] 0 tree_state) 51
      = map_option (rebase [100] [102]) (rf_paths tree_state 51)"
    by (rule rename_moves_subtree [OF finds_least_path, where src = 50])
       (simp_all add: utf8_run_def utf8_seq_len_def format_path_def path_of_def tree_state_def)
  then show ?thesis by (simp add: tree_state_def rebase_def SLASH_def)
qed

theorem exchange_swaps_two_paths_witness:
  "rf_paths (handle_rename_paths least_path 50 [97] 1 [101] 2 tree_state) 51 = Some [101] \<and>
   rf_paths (handle_rename_paths least_path 50 [97] 1 [101] 2 tree_state) 52 = Some [100, 47, 97] \<and>
   rf_paths (handle_rename_paths least_path 50 [97] 1 [101] 2 tree_state) 50 = Some [100]"
proof -
  have "rf_paths (handle_rename_paths least_path 50 [97] 1 [101] 2 tree_state) s
      = map_option (exchanged [100, 47, 97] [101]) (rf_paths tree_state s)" for s
    by (rule exchange_swaps_two_paths [OF finds_least_path, where src = 51 and dst = 52])
       (auto simp: utf8_run_def utf8_seq_len_def format_path_def path_of_def tree_state_def RENAME_EXCHANGE_def SLASH_def
         ran_def split: if_splits)
  then show ?thesis by (simp add: tree_state_def exchanged_def rebase_def SLASH_def)
qed

text \<open>
  A directory that is exchanged while something is recorded below it is the case the statement leaves out:
  the table is then no longer true.  Here \<open>d\<close>, which holds \<open>d/a\<close>, changes places with \<open>e\<close>; the inode of
  the file keeps the path \<open>d/a\<close>, although the file is at \<open>e/a\<close>.
\<close>

lemma exchange_leaves_descendants:
  "rf_paths (handle_rename_paths least_path 1 [100] 1 [101] 2 tree_state) 51 = Some [100, 47, 97] \<and>
   exchanged [100] [101] [100, 47, 97] = [101, 47, 97]"
proof -
  have f: "least_path (rf_paths tree_state) [100] = Some 50" "least_path (rf_paths tree_state) [101] = Some 52"
    by (rule finds_unique [OF finds_least_path]; simp add: tree_state_def)+
  have p: "format_path (path_of tree_state 1) (from_utf8_lossy [100]) = [100]"
    "format_path (path_of tree_state 1) (from_utf8_lossy [101]) = [101]"
    by (simp_all add: utf8_run_def utf8_seq_len_def format_path_def path_of_def tree_state_def)
  have "rf_paths (handle_rename_paths least_path 1 [100] 1 [101] 2 tree_state) = (rf_paths tree_state)(50 \<mapsto> [101], 52 \<mapsto> [100])"
    unfolding handle_rename_paths_def Let_def p f by (simp add: RENAME_EXCHANGE_def)
  then show ?thesis by (simp add: tree_state_def exchanged_def rebase_def SLASH_def)
qed

end
