(* ===== verification/Exec_Proto.thy ===== *)
theory Exec_Proto
  imports Framing Utf8
begin

text \<open>
  The exec protocol shared by the host client and the guest (\<open>exec-proto/src/lib.rs\<close>): typed,
  length-prefixed frames, the reader that takes a payload in chunks, the pre-ACK rejection line and the
  restore-completion frame.  A string is its UTF-8 bytes; the JSON library is a parameter.
\<close>

section \<open>Frames\<close>

definition EXEC_MAX_MESSAGE_SIZE :: nat where "EXEC_MAX_MESSAGE_SIZE = 1024 * 1024"

datatype message_type = MtData | MtExit | MtErrorMsg | MtStdin | MtStdinEof | MtStderr | MtResize | MtStdinWindow

definition message_type_u8 :: "message_type \<Rightarrow> u8" where
  "message_type_u8 t = (case t of MtData \<Rightarrow> 1 | MtExit \<Rightarrow> 2 | MtErrorMsg \<Rightarrow> 3 | MtStdin \<Rightarrow> 4 | MtStdinEof \<Rightarrow> 5
     | MtStderr \<Rightarrow> 6 | MtResize \<Rightarrow> 7 | MtStdinWindow \<Rightarrow> 8)"

definition from_u8_opt :: "u8 \<Rightarrow> message_type option" where
  "from_u8_opt v = (if v = 1 then Some MtData else if v = 2 then Some MtExit else if v = 3 then Some MtErrorMsg
     else if v = 4 then Some MtStdin else if v = 5 then Some MtStdinEof else if v = 6 then Some MtStderr
     else if v = 7 then Some MtResize else if v = 8 then Some MtStdinWindow else None)"

definition message_type_from_u8 :: "u8 \<Rightarrow> message_type io" where
  "message_type_from_u8 v = (case from_u8_opt v of Some t \<Rightarrow> Inr t | None \<Rightarrow> Inl InvalidData)"

record tty_size =
  ts_rows :: u16
  ts_cols :: u16

definition to_payload :: "tty_size \<Rightarrow> bytes" where
  "to_payload sz = be_bytes 2 (unat (ts_rows sz)) @ be_bytes 2 (unat (ts_cols sz))"

datatype message =
    MsgData bytes
  | MsgExit u32
  | MsgError bytes
  | MsgStdin bytes
  | MsgStdinEof
  | MsgStderr bytes
  | MsgResize tty_size
  | MsgStdinWindow u32

text \<open>The length is written as 32 bits, whatever the payload.\<close>

definition encode_frame :: "message_type \<Rightarrow> bytes \<Rightarrow> bytes" where
  "encode_frame msg_type payload = message_type_u8 msg_type # be_bytes 4 (length payload) @ payload"

definition message_parts :: "message \<Rightarrow> message_type \<times> bytes" where
  "message_parts m = (case m of
     MsgData data \<Rightarrow> (MtData, data)
   | MsgExit code \<Rightarrow> (MtExit, be_bytes 4 (unat code))
   | MsgError msg \<Rightarrow> (MtErrorMsg, msg)
   | MsgStdin data \<Rightarrow> (MtStdin, data)
   | MsgStdinEof \<Rightarrow> (MtStdinEof, [])
   | MsgStderr data \<Rightarrow> (MtStderr, data)
   | MsgResize sz \<Rightarrow> (MtResize, to_payload sz)
   | MsgStdinWindow n \<Rightarrow> (MtStdinWindow, be_bytes 4 (unat n)))"

definition message_encode :: "message \<Rightarrow> bytes" where
  "message_encode m = (case message_parts m of (t, payload) \<Rightarrow> encode_frame t payload)"

definition validate_len :: "nat \<Rightarrow> nat io" where
  "validate_len len = (if EXEC_MAX_MESSAGE_SIZE < len then Inl InvalidData else Inr len)"

text \<open>The payload is read in chunks of at most 8 KiB.\<close>

definition READ_CHUNK :: nat where "READ_CHUNK = 8192"

function read_payload :: "nat \<Rightarrow> bytes \<Rightarrow> bytes \<Rightarrow> (bytes \<times> bytes) io" where
  "read_payload remaining payload reader =
     (if remaining = 0 then Inr (payload, reader)
      else let to_read = min remaining READ_CHUNK
           in try_io (read_exact to_read reader) (\<lambda>(chunk, reader).
                read_payload (remaining - to_read) (payload @ chunk) reader))"
  by auto
termination by (relation "measure fst") (simp_all add: READ_CHUNK_def)

declare read_payload.simps [simp del]

definition from_parts :: "message_type \<Rightarrow> bytes \<Rightarrow> message io" where
  "from_parts msg_type payload = (case msg_type of
     MtData \<Rightarrow> Inr (MsgData payload)
   | MtExit \<Rightarrow> if length payload \<noteq> 4 then Inl InvalidData else Inr (MsgExit (word_of_nat (of_be payload)))
   | MtErrorMsg \<Rightarrow> if utf8_valid payload then Inr (MsgError payload) else Inl InvalidData
   | MtStdin \<Rightarrow> Inr (MsgStdin payload)
   | MtStdinEof \<Rightarrow> if payload \<noteq> [] then Inl InvalidData else Inr MsgStdinEof
   | MtStderr \<Rightarrow> Inr (MsgStderr payload)
   | MtResize \<Rightarrow> (case payload of
         [r0, r1, c0, c1] \<Rightarrow> Inr (MsgResize \<lparr>ts_rows = word_of_nat (of_be [r0, r1]), ts_cols = word_of_nat (of_be [c0, c1])\<rparr>)
       | _ \<Rightarrow> Inl InvalidData)
   | MtStdinWindow \<Rightarrow>
       if length payload = 4 then Inr (MsgStdinWindow (word_of_nat (of_be payload))) else Inl InvalidData)"

definition message_read_from :: "bytes \<Rightarrow> (message \<times> bytes) io" where
  "message_read_from reader =
     try_io (read_exact 1 reader) (\<lambda>(type_buf, reader).
     try_io (message_type_from_u8 (hd type_buf)) (\<lambda>msg_type.
     try_io (read_exact 4 reader) (\<lambda>(len_buf, reader).
     try_io (validate_len (of_be len_buf)) (\<lambda>len.
     try_io (read_payload len [] reader) (\<lambda>(payload, reader).
     try_io (from_parts msg_type payload) (\<lambda>m. Inr (m, reader)))))))"

text \<open>The direct writers give the same frames.\<close>

definition write_data :: "bytes \<Rightarrow> bytes \<Rightarrow> bytes" where
  "write_data writer data = writer @ encode_frame MtData data"

definition write_stderr :: "bytes \<Rightarrow> bytes \<Rightarrow> bytes" where
  "write_stderr writer data = writer @ encode_frame MtStderr data"

definition write_exit :: "bytes \<Rightarrow> u32 \<Rightarrow> bytes" where
  "write_exit writer code = writer @ encode_frame MtExit (be_bytes 4 (unat code))"

definition write_error :: "bytes \<Rightarrow> bytes \<Rightarrow> bytes" where
  "write_error writer msg = writer @ encode_frame MtErrorMsg msg"

definition write_stdin :: "bytes \<Rightarrow> bytes \<Rightarrow> bytes" where
  "write_stdin writer data = writer @ encode_frame MtStdin data"

definition write_stdin_eof :: "bytes \<Rightarrow> bytes" where
  "write_stdin_eof writer = writer @ encode_frame MtStdinEof []"

definition write_resize :: "bytes \<Rightarrow> tty_size \<Rightarrow> bytes" where
  "write_resize writer sz = writer @ encode_frame MtResize (to_payload sz)"

lemma direct_writers:
  "write_data w d = w @ message_encode (MsgData d)" "write_stderr w d = w @ message_encode (MsgStderr d)"
  "write_exit w c = w @ message_encode (MsgExit c)" "write_error w d = w @ message_encode (MsgError d)"
  "write_stdin w d = w @ message_encode (MsgStdin d)" "write_stdin_eof w = w @ message_encode MsgStdinEof"
  "write_resize w sz = w @ message_encode (MsgResize sz)"
  by (simp_all add: write_data_def write_stderr_def write_exit_def write_error_def write_stdin_def
      write_stdin_eof_def write_resize_def message_encode_def message_parts_def)

section \<open>Rejection and restore completion\<close>

text \<open>The rejection line: the JSON library turns an object with a type and a text into a line and back.\<close>

definition ERROR_KIND :: string where "ERROR_KIND = ''error''"

definition rejection_line :: "(string \<times> bytes \<Rightarrow> bytes) \<Rightarrow> bytes \<Rightarrow> bytes" where
  "rejection_line to_string reason = to_string (ERROR_KIND, reason)"

definition parse_rejection :: "(bytes \<Rightarrow> (string \<times> bytes) option) \<Rightarrow> bytes \<Rightarrow> bytes option" where
  "parse_rejection from_slice line = (case from_slice line of
     None \<Rightarrow> None
   | Some (kind, data) \<Rightarrow> if kind = ERROR_KIND then Some data else None)"

definition RESTORE_COMPLETE_PREFIX :: string where "RESTORE_COMPLETE_PREFIX = ''restore-complete:''"
definition RESTORE_COMPLETE_MAX_FRAME_BYTES :: nat where "RESTORE_COMPLETE_MAX_FRAME_BYTES = 2048"

definition restore_complete_frame :: "string \<Rightarrow> string \<Rightarrow> string" where
  "restore_complete_frame epoch telemetry =
     (let frame = (if telemetry = [] then RESTORE_COMPLETE_PREFIX @ epoch @ [CHR 0x0A]
                   else RESTORE_COMPLETE_PREFIX @ epoch @ '' '' @ telemetry @ [CHR 0x0A])
      in if length frame \<le> RESTORE_COMPLETE_MAX_FRAME_BYTES then frame
         else RESTORE_COMPLETE_PREFIX @ epoch @ '' {}'' @ [CHR 0x0A])"

section \<open>The frames are self-delimiting\<close>

text \<open>Chunked reading is reading the payload in one piece.\<close>

lemma read_payload_exact:
  "read_payload n acc s = try_io (read_exact n s) (\<lambda>(p, t). Inr (acc @ p, t))"
proof (induction n acc s rule: read_payload.induct)
  case (1 n acc s)
  show ?case
  proof (cases "n = 0")
    case True
    then show ?thesis by (simp add: read_payload.simps read_exact_def)
  next
    case False
    let ?k = "min n READ_CHUNK"
    show ?thesis
    proof (cases "length s < ?k")
      case True
      then show ?thesis using False by (subst read_payload.simps) (simp add: read_exact_def)
    next
      case k: False
      then have r: "read_exact ?k s = Inr (take ?k s, drop ?k s)" by (simp only: read_exact_def if_False)
      have "read_payload n acc s = read_payload (n - ?k) (acc @ take ?k s) (drop ?k s)"
        using False by (subst read_payload.simps) (simp add: Let_def r)
      also have "\<dots> = try_io (read_exact (n - ?k) (drop ?k s)) (\<lambda>(p, t). Inr ((acc @ take ?k s) @ p, t))"
        by (rule 1 [OF False refl])
      also have "\<dots> = try_io (read_exact n s) (\<lambda>(p, t). Inr (acc @ p, t))"
      proof (cases "length s < n")
        case False
        then have "n - ?k \<le> length (drop ?k s)" by simp
        moreover have "take ?k s @ take (n - ?k) (drop ?k s) = take n s"
          by (metis le_add_diff_inverse min.cobounded1 take_add)
        ultimately show ?thesis using False by (simp add: read_exact_def)
      qed (use k in \<open>simp add: read_exact_def\<close>)
      finally show ?thesis .
    qed
  qed
qed

text \<open>A message the protocol carries: its payload is within the limit, and an error text is a string.\<close>

definition message_ok :: "message \<Rightarrow> bool" where
  "message_ok m \<longleftrightarrow> length (snd (message_parts m)) \<le> EXEC_MAX_MESSAGE_SIZE \<and>
     (case m of MsgError s \<Rightarrow> utf8_valid s | _ \<Rightarrow> True)"

lemma from_u8_opt_round_trip [simp]: "from_u8_opt (message_type_u8 t) = Some t"
  by (cases t) (simp_all add: from_u8_opt_def message_type_u8_def)

lemma word_of_be_round_trip:
  "2 ^ LENGTH('a) = (256 :: nat) ^ n \<Longrightarrow> word_of_nat (of_be (be_bytes n (unat w))) = (w :: 'a :: len word)"
  using unsigned_less [of w, where 'a = nat] by (simp add: of_be_round_trip)

lemma from_parts_round_trip:
  assumes "message_ok m"
  shows "from_parts (fst (message_parts m)) (snd (message_parts m)) = Inr m"
proof (cases m)
  case (MsgResize sz)
  have "word_of_nat (of_be (be_bytes 2 (unat w))) = w" for w :: u16 by (rule word_of_be_round_trip) simp
  then show ?thesis using MsgResize by (simp add: message_parts_def from_parts_def to_payload_def be_bytes_2)
qed (use assms in \<open>simp_all add: message_parts_def from_parts_def message_ok_def word_of_be_round_trip\<close>)

lemma message_read_type:
  "message_read_from (message_type_u8 t # s) =
     try_io (read_exact 4 s) (\<lambda>(len_buf, reader).
     try_io (validate_len (of_be len_buf)) (\<lambda>len.
     try_io (read_exact len reader) (\<lambda>(payload, reader).
     try_io (from_parts t payload) (\<lambda>m. Inr (m, reader)))))"
  by (simp add: message_read_from_def read_exact_def message_type_from_u8_def read_payload_exact)
     (simp add: try_io_def split: sum.split)

lemma message_read_header:
  assumes "length p \<le> EXEC_MAX_MESSAGE_SIZE"
  shows "message_read_from (message_type_u8 t # be_bytes 4 (length p) @ s) =
     try_io (read_exact (length p) s) (\<lambda>(payload, reader). try_io (from_parts t payload) (\<lambda>m. Inr (m, reader)))"
proof -
  have "of_be (be_bytes 4 (length p)) = length p"
    using assms by (intro of_be_round_trip) (simp add: EXEC_MAX_MESSAGE_SIZE_def)
  then show ?thesis
    using assms by (simp add: message_read_type read_exact_append validate_len_def)
qed

lemma message_encode_parts:
  "message_encode m = message_type_u8 (fst (message_parts m)) # be_bytes 4 (length (snd (message_parts m))) @ snd (message_parts m)"
  by (simp add: message_encode_def encode_frame_def split: prod.split)

interpretation ex: frame_codec message_encode message_read_from message_ok
proof
  fix m s assume ok: "message_ok m"
  then show "message_read_from (message_encode m @ s) = Inr (m, s)"
    by (simp add: message_encode_parts message_read_header message_ok_def read_exact_append
        from_parts_round_trip [OF ok])
next
  fix m p assume ok: "message_ok m" and p: "strict_prefix p (message_encode m)"
  define t where "t = message_type_u8 (fst (message_parts m))"
  define d where "d = snd (message_parts m)"
  show "message_read_from p = Inl UnexpectedEof"
  proof (cases p)
    case Nil
    then show ?thesis by (simp add: message_read_from_def read_exact_def)
  next
    case (Cons b q)
    then have q: "b = t" "strict_prefix q (be_bytes 4 (length d) @ d)"
      using p by (simp_all add: message_encode_parts t_def d_def)
    from strict_prefix_appendD [OF q(2)] show ?thesis
    proof
      assume "strict_prefix q (be_bytes 4 (length d))"
      then show ?thesis using Cons q(1) by (simp add: t_def message_read_type read_exact_cut)
    next
      assume "\<exists>r. q = be_bytes 4 (length d) @ r \<and> strict_prefix r d"
      then show ?thesis using Cons q(1) ok
        by (auto simp: t_def d_def message_read_header message_ok_def read_exact_cut)
    qed
  qed
next
  fix s m t assume "message_read_from s = Inr (m, t)"
  then show "length t < length s"
    by (auto simp: message_read_from_def try_io_Inr read_exact_Inr read_payload_exact split: prod.splits)
qed

text \<open>
  Claim C20.  The exec stream is exact: the frames one side writes, cut off anywhere by a dying
  connection, are read by the other side as exactly those messages in order and then an end of file.
\<close>

theorem exec_stream_exact:
  assumes "list_all message_ok ms" and "message_ok m" and "strict_prefix part (message_encode m)"
  shows "decode_stream message_read_from (Suc (length (concat (map message_encode ms) @ part)))
           (concat (map message_encode ms) @ part) = Some (ms, UnexpectedEof)"
  using assms by (intro ex.stream_cut) simp_all

theorem exec_stream_exact_witness:
  "decode_stream message_read_from (Suc (length (concat (map message_encode [MsgStdin [104], MsgExit 7]) @ [5, 0])))
     (concat (map message_encode [MsgStdin [104], MsgExit 7]) @ [5, 0])
   = Some ([MsgStdin [104], MsgExit 7], UnexpectedEof)"
proof (rule exec_stream_exact)
  show "list_all message_ok [MsgStdin [104], MsgExit 7]" "message_ok MsgStdinEof"
    by (simp_all add: message_ok_def message_parts_def EXEC_MAX_MESSAGE_SIZE_def)
  show "strict_prefix [5, 0] (message_encode MsgStdinEof)"
    by (simp add: message_encode_parts message_parts_def message_type_u8_def be_bytes_4 strict_prefix_def)
qed

text \<open>
  Claim C21.  Every frame the reader accepts is within the size limit and well formed: what it returns
  satisfies the conditions under which messages are written, so it can be forwarded unchanged.
\<close>

theorem exec_read_message_ok:
  assumes "message_read_from s = Inr (m, t)"
  shows "message_ok m"
proof -
  obtain mt p where p: "from_parts mt p = Inr m" "length p \<le> EXEC_MAX_MESSAGE_SIZE"
    using assms
    by (auto simp: message_read_from_def try_io_Inr read_exact_Inr read_payload_exact validate_len_def
        split: prod.splits if_splits)
  then show ?thesis
    by (cases mt) (auto simp: from_parts_def message_ok_def message_parts_def to_payload_def
        EXEC_MAX_MESSAGE_SIZE_def split: if_splits list.splits)
qed

theorem exec_read_message_ok_witness: "message_read_from [5, 0, 0, 0, 0] = Inr (MsgStdinEof, []) \<and> message_ok MsgStdinEof"
proof -
  have r: "message_read_from [5, 0, 0, 0, 0] = Inr (MsgStdinEof, [])"
    using ex.dec_enc [of MsgStdinEof "[]"]
    by (simp add: message_encode_parts message_parts_def message_type_u8_def be_bytes_4 message_ok_def)
  show ?thesis using r exec_read_message_ok [OF r] by blast
qed

lemma rejection_round_trip:
  "(\<And>v. from_slice (to_string v) = Some v) \<Longrightarrow> parse_rejection from_slice (rejection_line to_string reason) = Some reason"
  by (simp add: parse_rejection_def rejection_line_def)

text \<open>
  Claim C22.  Telemetry never costs a restored guest its acknowledgement: for every epoch of at most
  2,027 bytes the completion frame is within the consumer's cap, and it carries the epoch followed by
  the whole telemetry or by an empty object, never a part of it.
\<close>

theorem restore_complete_frame_within_cap:
  assumes "length epoch \<le> 2027"
  shows "length (restore_complete_frame epoch telemetry) \<le> RESTORE_COMPLETE_MAX_FRAME_BYTES \<and>
    restore_complete_frame epoch telemetry \<in>
      {RESTORE_COMPLETE_PREFIX @ epoch @ (if telemetry = [] then [] else '' '' @ telemetry) @ [CHR 0x0A],
       RESTORE_COMPLETE_PREFIX @ epoch @ '' {}'' @ [CHR 0x0A]}"
  using assms
  by (simp add: restore_complete_frame_def Let_def RESTORE_COMPLETE_PREFIX_def RESTORE_COMPLETE_MAX_FRAME_BYTES_def)

theorem restore_complete_frame_within_cap_witness:
  "length (restore_complete_frame ''e'' (replicate 3000 CHR ''x'')) \<le> RESTORE_COMPLETE_MAX_FRAME_BYTES"
proof -
  have "length ''e'' \<le> 2027" by simp
  from restore_complete_frame_within_cap [OF this] show ?thesis by blast
qed

end
