(* ===== verification/Base64_Url.thy ===== *)
theory Base64_Url
  imports Byte_Codec
begin

text \<open>
  Base64url without padding, as \<open>src/fleet/coord/admission.rs\<close> writes and reads it (\<open>b64url\<close> and
  \<open>b64url_decode\<close>).  Shifts and disjunctions of disjoint bits are written as arithmetic; the reader's
  accumulator is 32 bits wide and drops what is shifted out of it.
\<close>

definition b64_char :: "nat \<Rightarrow> u8" where
  "b64_char i = (if i < 26 then word_of_nat (65 + i) else if i < 52 then word_of_nat (97 + (i - 26))
     else if i < 62 then word_of_nat (48 + (i - 52)) else if i = 62 then 45 else 95)"

definition b64_value :: "u8 \<Rightarrow> nat option" where
  "b64_value c =
     (if 65 \<le> c \<and> c \<le> 90 then Some (unat c - 65) else if 97 \<le> c \<and> c \<le> 122 then Some (unat c - 97 + 26)
      else if 48 \<le> c \<and> c \<le> 57 then Some (unat c - 48 + 52) else if c = 45 then Some 62
      else if c = 95 then Some 63 else None)"

text \<open>The characters of one chunk of up to three bytes, one more than it has bytes.\<close>

definition b64_chunk :: "bytes \<Rightarrow> bytes" where
  "b64_chunk c =
     (let byte = (\<lambda>i. if i < length c then unat (c ! i) else 0);
          n = byte 0 * 65536 + byte 1 * 256 + byte 2
      in map (\<lambda>i. b64_char (n div 2 ^ (18 - 6 * i) mod 64)) [0..<length c + 1])"

fun b64url :: "bytes \<Rightarrow> bytes" where
  "b64url (a # b # c # bs) = b64_chunk [a, b, c] @ b64url bs"
| "b64url [] = []"
| "b64url bs = b64_chunk bs"

fun b64url_decode_loop :: "nat \<Rightarrow> nat \<Rightarrow> bytes \<Rightarrow> bytes \<Rightarrow> bytes option" where
  "b64url_decode_loop acc bits out [] = Some out"
| "b64url_decode_loop acc bits out (c # cs) = (case b64_value c of
     None \<Rightarrow> None
   | Some v \<Rightarrow>
       let acc = (acc * 64) mod 2 ^ 32 + v; bits = bits + 6
       in if 8 \<le> bits then b64url_decode_loop acc (bits - 8) (out @ [word_of_nat (acc div 2 ^ (bits - 8))]) cs
          else b64url_decode_loop acc bits out cs)"

definition b64url_decode :: "bytes \<Rightarrow> bytes option" where
  "b64url_decode s = b64url_decode_loop 0 0 [] s"

lemma b64_value_char [simp]:
  assumes "i < 64"
  shows "b64_value (b64_char i) = Some i"
proof -
  have u: "unat (word_of_nat n :: u8) = n" if "n < 256" for n
    using that by (simp add: unat_of_nat)
  consider "i < 26" | "26 \<le> i" "i < 52" | "52 \<le> i" "i < 62" | "i = 62" | "i = 63" using assms by linarith
  then show ?thesis
    by cases (auto simp: b64_char_def b64_value_def word_le_nat_alt u simp del: of_nat_add of_nat_diff)
qed

text \<open>The bits the reader uses are those of the last two values.\<close>

lemma acc_low:
  assumes "v < 64" "m dvd 2 ^ 26"
  shows "((a * 64) mod 2 ^ 32 + v) mod (64 * m) = (a mod m * 64 + v :: nat)"
proof -
  have "(a * 64) mod 2 ^ 32 = (a mod 2 ^ 26) * 64" using mult_mod_left [of a "2 ^ 26" 64] by simp
  then have "((a * 64) mod 2 ^ 32 + v) mod (64 * m) = ((a mod 2 ^ 26) * 64 + v) mod (64 * m)" by simp
  also have "\<dots> = ((a mod 2 ^ 26) mod m) * 64 + v"
    using assms(1) mod_mult2_eq [of "(a mod 2 ^ 26) * 64 + v" 64 m] by simp
  also have "(a mod 2 ^ 26) mod m = a mod m" using assms(2) by (simp add: mod_mod_cancel)
  finally show ?thesis .
qed

text \<open>One step of the reader, and the value it has of the last two characters.\<close>

definition b64_push :: "nat \<Rightarrow> nat \<Rightarrow> nat" where
  "b64_push acc v = (acc * 64) mod 2 ^ 32 + v"

lemma push_mod_64: "v < 64 \<Longrightarrow> b64_push a v mod 64 = v"
  using acc_low [of v 1 a] by (simp add: b64_push_def)

lemma div_mod_shift: "x div m mod n = x mod (m * n) div (m :: nat)"
  by (cases "m = 0") (simp_all add: mod_mult2_eq)

lemma push_out:
  assumes "v < 64" "a mod 64 = u"
  shows "b64_push a v div 16 mod 256 = u * 4 + v div 16"
    "b64_push a v div 4 mod 256 = u mod 16 * 16 + v div 4"
    "b64_push a v mod 256 = u mod 4 * 64 + v"
proof -
  have dvd: "64 dvd (2 :: nat) ^ 26" "16 dvd (2 :: nat) ^ 26" "4 dvd (2 :: nat) ^ 26" by simp_all
  have "a mod 16 = u mod 16" "a mod 4 = u mod 4"
    using assms(2) mod_mod_cancel [of 16 64 a] mod_mod_cancel [of 4 64 a] by simp_all
  then have low: "b64_push a v mod (16 * 256) = u * 64 + v" "b64_push a v mod (4 * 256) = u mod 16 * 64 + v"
    "b64_push a v mod 256 = u mod 4 * 64 + v"
    using acc_low [OF assms(1) dvd(1), of a] acc_low [OF assms(1) dvd(2), of a]
      acc_low [OF assms(1) dvd(3), of a] assms(2)
    unfolding b64_push_def [symmetric] by simp_all
  have "(w * 64 + v) div 16 = w * 4 + v div 16" "(w * 64 + v) div 4 = w * 16 + v div 4" for w by presburger+
  then show "b64_push a v div 16 mod 256 = u * 4 + v div 16"
    "b64_push a v div 4 mod 256 = u mod 16 * 16 + v div 4"
    unfolding div_mod_shift low by simp_all
  show "b64_push a v mod 256 = u mod 4 * 64 + v" by (rule low(3))
qed

lemma byte_of_mod: "word_of_nat x = (word_of_nat (x mod 256) :: u8)"
  by (simp add: word_unat_eq_iff unat_of_nat)

lemma decode_cons:
  "v < 64 \<Longrightarrow> b64url_decode_loop acc bits out (b64_char v # cs) =
     (if 2 \<le> bits then b64url_decode_loop (b64_push acc v) (bits - 2)
                         (out @ [word_of_nat (b64_push acc v div 2 ^ (bits - 2) mod 256)]) cs
      else b64url_decode_loop (b64_push acc v) (bits + 6) out cs)"
  by (simp add: Let_def b64_push_def byte_of_mod [symmetric])

text \<open>The four characters of a chunk, one by one.\<close>

lemma decode_first:
  "v < 64 \<Longrightarrow> b64url_decode_loop acc 0 out (b64_char v # cs) = b64url_decode_loop (b64_push acc v) 6 out cs"
  using decode_cons [of v acc 0 out cs] by simp

lemma decode_next:
  assumes "v < 64" "acc mod 64 = u"
  shows "b64url_decode_loop acc 6 out (b64_char v # cs)
      = b64url_decode_loop (b64_push acc v) 4 (out @ [word_of_nat (u * 4 + v div 16)]) cs"
    "b64url_decode_loop acc 4 out (b64_char v # cs)
      = b64url_decode_loop (b64_push acc v) 2 (out @ [word_of_nat (u mod 16 * 16 + v div 4)]) cs"
    "b64url_decode_loop acc 2 out (b64_char v # cs)
      = b64url_decode_loop (b64_push acc v) 0 (out @ [word_of_nat (u mod 4 * 64 + v)]) cs"
proof -
  define a where "a = b64_push acc v"
  note o = push_out [OF assms, folded a_def]
  show "b64url_decode_loop acc 6 out (b64_char v # cs)
      = b64url_decode_loop (b64_push acc v) 4 (out @ [word_of_nat (u * 4 + v div 16)]) cs"
    using decode_cons [OF assms(1), of acc 6 out cs] o(1) unfolding a_def [symmetric] by simp
  show "b64url_decode_loop acc 4 out (b64_char v # cs)
      = b64url_decode_loop (b64_push acc v) 2 (out @ [word_of_nat (u mod 16 * 16 + v div 4)]) cs"
    using decode_cons [OF assms(1), of acc 4 out cs] o(2) unfolding a_def [symmetric] by simp
  show "b64url_decode_loop acc 2 out (b64_char v # cs)
      = b64url_decode_loop (b64_push acc v) 0 (out @ [word_of_nat (u mod 4 * 64 + v)]) cs"
    using decode_cons [OF assms(1), of acc 2 out cs] o(3) unfolding a_def [symmetric] by simp
qed

text \<open>A chunk's characters carry its bits.\<close>

lemma split_24_bits:
  fixes x y z :: nat
  assumes "x < 256" "y < 256" "z < 256"
  defines "n \<equiv> x * 65536 + y * 256 + z"
  shows "n div 262144 mod 64 = x div 4" "n div 4096 mod 64 = x mod 4 * 16 + y div 16"
    "n div 64 mod 64 = y mod 16 * 4 + z div 64" "n mod 64 = z mod 64"
proof -
  define x1 x0 where "x1 = x div 4" "x0 = x mod 4"
  define y1 y0 where "y1 = y div 16" "y0 = y mod 16"
  define z1 z0 where "z1 = z div 64" "z0 = z mod 64"
  have x: "x = x1 * 4 + x0" "x1 < 64" "x0 < 4" using assms(1) by (auto simp: x1_x0_def)
  have y: "y = y1 * 16 + y0" "y1 < 16" "y0 < 16" using assms(2) by (auto simp: y1_y0_def)
  have z: "z = z1 * 64 + z0" "z1 < 4" "z0 < 64" using assms(3) by (auto simp: z1_z0_def)
  have n: "n = ((x1 * 64 + (x0 * 16 + y1)) * 64 + (y0 * 4 + z1)) * 64 + z0"
    by (simp add: n_def x(1) y(1) z(1))
  have small: "x0 * 16 + y1 < 64" "y0 * 4 + z1 < 64" using x y z by linarith+
  have d: "(a * 64 + b) div 64 = a" "(a * 64 + b) mod 64 = b" if "b < 64" for a b :: nat
    using that by simp_all
  have div1: "n div 64 = (x1 * 64 + (x0 * 16 + y1)) * 64 + (y0 * 4 + z1)"
    unfolding n by (rule d(1)) (rule z(3))
  have div2: "n div 4096 = x1 * 64 + (x0 * 16 + y1)"
    using d(1) [OF small(2)] div1 div_mult2_eq [of n 64 64] by simp
  have div3: "n div 262144 = x1"
    using d(1) [OF small(1)] div2 div_mult2_eq [of n 4096 64] by simp
  show "n div 262144 mod 64 = x div 4" using div3 x(2) by (simp add: x1_x0_def)
  show "n div 4096 mod 64 = x mod 4 * 16 + y div 16"
    unfolding div2 d(2) [OF small(1)] by (simp only: x1_x0_def y1_y0_def)
  show "n div 64 mod 64 = y mod 16 * 4 + z div 64"
    unfolding div1 d(2) [OF small(2)] by (simp only: y1_y0_def z1_z0_def)
  show "n mod 64 = z mod 64" unfolding n d(2) [OF z(3)] by (simp only: z1_z0_def)
qed

lemma b64_chunk_sextets:
  assumes "x = unat a" "y = (case bs of b # _ \<Rightarrow> unat b | [] \<Rightarrow> 0)" "z = (case bs of [b, c] \<Rightarrow> unat c | _ \<Rightarrow> 0)"
    "length bs \<le> 2"
  shows "b64_chunk (a # bs) = take (length bs + 2) (map b64_char
           [x div 4, x mod 4 * 16 + y div 16, y mod 16 * 4 + z div 64, z mod 64])"
proof -
  define n where "n = x * 65536 + y * 256 + z"
  have i: "[0..<4] = [0, 1, 2, 3 :: nat]" "[0..<3] = [0, 1, 2 :: nat]" "[0..<2] = [0, 1 :: nat]"
    by (simp_all add: upt_rec)
  have "x < 256" "y < 256" "z < 256" using assms unat_u8_less by (auto split: list.split)
  note s = split_24_bits [OF this, folded n_def]
  consider "bs = []" | b where "bs = [b]" | b c where "bs = [b, c]"
    using assms(4) by (cases bs; cases "tl bs"; simp)
  then have "b64_chunk (a # bs) = take (length bs + 2) (map b64_char
      [n div 262144 mod 64, n div 4096 mod 64, n div 64 mod 64, n mod 64])"
    by cases (simp_all add: b64_chunk_def Let_def i n_def assms(1-3))
  then show ?thesis unfolding s .
qed

text \<open>Decoding a chunk gives its bytes back.\<close>

lemma decode_chunk:
  assumes "length bs \<le> 2"
  shows "\<exists>acc' bits. b64url_decode_loop acc 0 out (b64_chunk (a # bs) @ cs) =
           b64url_decode_loop acc' bits (out @ a # bs) cs \<and> (length bs = 2 \<longrightarrow> bits = 0)"
proof -
  define x y z where "x = unat a" "y = (case bs of b # _ \<Rightarrow> unat b | [] \<Rightarrow> 0)"
    "z = (case bs of [b, c] \<Rightarrow> unat c | _ \<Rightarrow> 0)"
  note xyz = x_y_z_def
  define v0 v1 v2 v3 where "v0 = x div 4" "v1 = x mod 4 * 16 + y div 16" "v2 = y mod 16 * 4 + z div 64" "v3 = z mod 64"
  note v = v0_v1_v2_v3_def
  have r: "x < 256" "y < 256" "z < 256" using unat_u8_less by (auto simp: xyz split: list.split)
  have small: "v0 < 64" "v1 < 64" "v2 < 64" "v3 < 64" using r unfolding v by linarith+
  have "v1 div 16 = x mod 4" "v1 mod 16 = y div 16" "v2 div 4 = y mod 16" "v2 mod 4 = z div 64"
    using r unfolding v by (simp_all add: div_less_iff_less_mult)
  then have sums: "v0 * 4 + v1 div 16 = x" "v1 mod 16 * 16 + v2 div 4 = y" "v2 mod 4 * 64 + v3 = z"
    using v(1,4) by simp_all
  define a1 a2 a3 where "a1 = b64_push acc v0" "a2 = b64_push a1 v1" "a3 = b64_push a2 v2"
  note a = a1_a2_a3_def
  have m: "a1 mod 64 = v0" "a2 mod 64 = v1" "a3 mod 64 = v2"
    unfolding a using small by (simp_all only: push_mod_64)
  note steps = decode_first [OF small(1), of acc] decode_next(1) [OF small(2) m(1)] decode_next(2) [OF small(3) m(2)]
    decode_next(3) [OF small(4) m(3)]
  have chunk: "b64_chunk (a # bs) = take (length bs + 2) (map b64_char [v0, v1, v2, v3])"
    unfolding v by (rule b64_chunk_sextets [OF xyz assms])
  consider "bs = []" | b where "bs = [b]" | b c where "bs = [b, c]"
    using assms by (cases bs; cases "tl bs"; simp)
  then show ?thesis
  proof cases
    case 1
    then have "b64url_decode_loop acc 0 out (b64_chunk (a # bs) @ cs) = b64url_decode_loop a2 4 (out @ a # bs) cs"
      using chunk steps sums by (simp add: a(1) [symmetric] a(2) [symmetric] a(3) [symmetric] xyz del: b64url_decode_loop.simps of_nat_add of_nat_mult)
    then show ?thesis using 1 by auto
  next
    case (2 b)
    then have "b64url_decode_loop acc 0 out (b64_chunk (a # bs) @ cs) = b64url_decode_loop a3 2 (out @ a # bs) cs"
      using chunk steps sums by (simp add: a(1) [symmetric] a(2) [symmetric] a(3) [symmetric] xyz del: b64url_decode_loop.simps of_nat_add of_nat_mult)
    then show ?thesis using 2 by auto
  next
    case (3 b c)
    then have "b64url_decode_loop acc 0 out (b64_chunk (a # bs) @ cs)
        = b64url_decode_loop (b64_push a3 v3) 0 (out @ a # bs) cs"
      using chunk steps sums by (simp add: a(1) [symmetric] a(2) [symmetric] a(3) [symmetric] xyz del: b64url_decode_loop.simps of_nat_add of_nat_mult)
    then show ?thesis by auto
  qed
qed

lemma b64url_decode_loop_round_trip: "b64url_decode_loop acc 0 out (b64url bs) = Some (out @ bs)"
proof (induction bs arbitrary: acc out rule: b64url.induct)
  case (1 a b c bs)
  then show ?case using decode_chunk [of "[b, c]" acc out a "b64url bs"] by auto
qed (use decode_chunk [of "[]" _ _ _ "[]"] decode_chunk [of "[_]" _ _ _ "[]"] in auto)

theorem b64url_round_trip: "b64url_decode (b64url bs) = Some bs"
  by (simp add: b64url_decode_def b64url_decode_loop_round_trip)

end
