(* ===== verification/Decimal.thy ===== *)
theory Decimal
  imports Byte_Codec
begin

text \<open>
  Decimal text, as Rust's formatting writes an unsigned number and \<open>str::parse\<close> reads one: an optional
  plus sign, at least one digit, digits only, and a value within the type's maximum.  Texts are lists
  of ASCII bytes.
\<close>

definition ascii :: "string \<Rightarrow> bytes" where
  "ascii s = map of_char s"

definition digit :: "nat \<Rightarrow> u8" where
  "digit d = word_of_nat (48 + d)"

definition digit_value :: "u8 \<Rightarrow> nat option" where
  "digit_value b = (if 48 \<le> b \<and> b \<le> 57 then Some (unat b - 48) else None)"

fun to_decimal :: "nat \<Rightarrow> bytes" where
  "to_decimal n = (if n < 10 then [digit n] else to_decimal (n div 10) @ [digit (n mod 10)])"

declare to_decimal.simps [simp del]

fun digits_value :: "nat \<Rightarrow> bytes \<Rightarrow> nat option" where
  "digits_value acc [] = Some acc"
| "digits_value acc (b # bs) = (case digit_value b of Some d \<Rightarrow> digits_value (10 * acc + d) bs | None \<Rightarrow> None)"

definition PLUS :: u8 where "PLUS = 43"

definition parse_unsigned :: "nat \<Rightarrow> bytes \<Rightarrow> nat option" where
  "parse_unsigned max_value s =
     (let digits = (case s of b # bs \<Rightarrow> if b = PLUS then bs else s | [] \<Rightarrow> [])
      in if digits = [] then None
         else case digits_value 0 digits of
           Some v \<Rightarrow> if v \<le> max_value then Some v else None
         | None \<Rightarrow> None)"

lemma unat_digit: "d < 10 \<Longrightarrow> unat (digit d) = 48 + d"
  unfolding digit_def unat_of_nat by simp

lemma digit_value_digit [simp]: "d < 10 \<Longrightarrow> digit_value (digit d) = Some d"
  by (simp add: digit_value_def word_le_nat_alt unat_digit)

lemma digits_value_append:
  "digits_value acc (xs @ ys) = Option.bind (digits_value acc xs) (\<lambda>a. digits_value a ys)"
  by (induction xs arbitrary: acc) (auto split: option.split)

lemma digits_value_to_decimal: "digits_value 0 (to_decimal n) = Some n"
proof (induction n rule: to_decimal.induct)
  case (1 n)
  then show ?case
    by (cases "n < 10") (simp_all add: to_decimal.simps [of n] digits_value_append)
qed

lemma to_decimal_digits: "b \<in> set (to_decimal n) \<Longrightarrow> \<exists>d < 10. b = digit d"
proof (induction n rule: to_decimal.induct)
  case (1 n)
  show ?case
  proof (cases "n < 10")
    case True
    then show ?thesis using 1(2) by (auto simp: to_decimal.simps [of n])
  next
    case False
    then have "b \<in> set (to_decimal (n div 10)) \<or> b = digit (n mod 10)"
      using 1(2) by (auto simp: to_decimal.simps [of n])
    then show ?thesis using 1(1) [OF False] by (auto intro: exI [of _ "n mod 10"])
  qed
qed

lemma to_decimal_not_Nil [simp]: "to_decimal n \<noteq> []"
  by (simp add: to_decimal.simps)

lemma to_decimal_range: "b \<in> set (to_decimal n) \<Longrightarrow> 48 \<le> unat b \<and> unat b \<le> 57"
  using to_decimal_digits [of b n] by (auto simp: unat_digit)

lemma to_decimal_free: "unat c < 48 \<or> 57 < unat c \<Longrightarrow> c \<notin> set (to_decimal n)"
  using to_decimal_range [of c n] by auto

text \<open>What a number is printed as reads back.\<close>

lemma parse_unsigned_to_decimal:
  assumes "n \<le> max_value"
  shows "parse_unsigned max_value (to_decimal n) = Some n"
proof -
  have "PLUS \<notin> set (to_decimal n)" by (rule to_decimal_free) (simp add: PLUS_def)
  then have "(case to_decimal n of b # bs \<Rightarrow> if b = PLUS then bs else to_decimal n | [] \<Rightarrow> []) = to_decimal n"
    by (cases "to_decimal n") auto
  then show ?thesis using assms by (simp add: parse_unsigned_def Let_def digits_value_to_decimal)
qed

lemma parse_unsigned_le: "parse_unsigned max_value s = Some n \<Longrightarrow> n \<le> max_value"
  by (auto simp: parse_unsigned_def Let_def split: if_splits option.splits)

end
