(* ===== verification/Coord_Admission.thy ===== *)
theory Coord_Admission
  imports Base64_Url Decimal Utf8 "HOL-Library.AList" "HOL-Library.Multiset"
begin

text \<open>
  Who receives direct streams (\<open>src/fleet/coord/admission.rs\<close>): the seats of a coordinator, the body
  direct tokens renderers check, and the admission message.  The keyed hash (HMAC-SHA256), the playback
  signature, the JSON text of its claims and the random ticket of a new seat are parameters; instants
  and durations are natural numbers.  The map of held seats is an association list.
\<close>

section \<open>Direct tokens\<close>

type_synonym 'k keyed_hash = "'k \<Rightarrow> bytes \<Rightarrow> bytes"

definition DOT_BYTE :: u8 where "DOT_BYTE = 46"

definition DIRECT_TOKEN_SECS :: nat where "DIRECT_TOKEN_SECS = 600"
definition PLAYBACK_TOKEN_SECS :: nat where "PLAYBACK_TOKEN_SECS = 3600"

definition admit_mac :: "'k keyed_hash \<Rightarrow> 'k \<Rightarrow> bytes \<Rightarrow> bytes" where
  "admit_mac hmac key body = b64url (hmac key body)"

definition direct_token :: "'k keyed_hash \<Rightarrow> 'k \<Rightarrow> bytes \<Rightarrow> nat \<Rightarrow> bytes" where
  "direct_token hmac key viewer expiry =
     (let body = ascii ''v1'' @ DOT_BYTE # to_decimal expiry @ DOT_BYTE # viewer
      in body @ DOT_BYTE # admit_mac hmac key body)"

definition direct_token_valid :: "'k keyed_hash \<Rightarrow> 'k list \<Rightarrow> bytes \<Rightarrow> nat \<Rightarrow> bool" where
  "direct_token_valid hmac keys token now = (case rsplit_once DOT_BYTE token of
     None \<Rightarrow> False
   | Some (body, mac) \<Rightarrow> (case splitn 3 DOT_BYTE body of
       [version, expiry, viewer] \<Rightarrow>
         version = ascii ''v1'' \<and>
         (case parse_unsigned u64_max expiry of
            None \<Rightarrow> False
          | Some expiry \<Rightarrow>
              \<not> (expiry < now \<or> viewer = []) \<and>
              list_ex (\<lambda>k. case b64url_decode mac of
                         None \<Rightarrow> False
                       | Some mac \<Rightarrow> mac = hmac k body) keys)
     | _ \<Rightarrow> False))"

section \<open>Seats\<close>

datatype admitted = Seat bytes | Late

record seat =
  seat_open :: nat
  seat_closed_at :: "nat option"

record seats =
  seats_capacity :: "nat option"
  seats_grace :: nat
  seats_held :: "(bytes \<times> seat) list"

definition SEAT_GRACE :: nat where "SEAT_GRACE = 60"

definition seats_new :: "nat option \<Rightarrow> seats" where
  "seats_new capacity = \<lparr>seats_capacity = capacity, seats_grace = SEAT_GRACE, seats_held = []\<rparr>"

definition seats_with_grace :: "nat \<Rightarrow> seats \<Rightarrow> seats" where
  "seats_with_grace grace st = st\<lparr>seats_grace := grace\<rparr>"

text \<open>A seat is kept while it is open and for the grace after it closed; the difference of two instants
  is zero when the second is not later.\<close>

definition seat_kept :: "nat \<Rightarrow> nat \<Rightarrow> seat \<Rightarrow> bool" where
  "seat_kept grace now s \<longleftrightarrow>
     0 < seat_open s \<or> (case seat_closed_at s of None \<Rightarrow> True | Some c \<Rightarrow> now - c < grace)"

definition seats_expire :: "nat \<Rightarrow> seats \<Rightarrow> seats" where
  "seats_expire now st = st\<lparr>seats_held := filter (\<lambda>(_, s). seat_kept (seats_grace st) now s) (seats_held st)\<rparr>"

definition has_free_seat :: "seats \<Rightarrow> bool" where
  "has_free_seat st = (case seats_capacity st of None \<Rightarrow> True | Some c \<Rightarrow> length (seats_held st) < c)"

definition seats_admit :: "bytes option \<Rightarrow> bytes \<Rightarrow> nat \<Rightarrow> seats \<Rightarrow> admitted \<times> seats" where
  "seats_admit ticket fresh now st =
     (let st = seats_expire now st;
          known = (case ticket of
                     Some t \<Rightarrow> map_option (\<lambda>s. (t, s)) (map_of (seats_held st) t)
                   | None \<Rightarrow> None)
      in case known of
           Some (t, s) \<Rightarrow>
             (Seat t, st\<lparr>seats_held := AList.update t
                          (s\<lparr>seat_open := seat_open s + 1, seat_closed_at := None\<rparr>) (seats_held st)\<rparr>)
         | None \<Rightarrow>
             if \<not> has_free_seat st then (Late, st)
             else (Seat fresh, st\<lparr>seats_held := AList.update fresh
                          \<lparr>seat_open = 1, seat_closed_at = None\<rparr> (seats_held st)\<rparr>))"

definition seats_release :: "bytes \<Rightarrow> nat \<Rightarrow> seats \<Rightarrow> seats" where
  "seats_release ticket now st = seats_expire now (case map_of (seats_held st) ticket of
     None \<Rightarrow> st
   | Some s \<Rightarrow>
       let s = s\<lparr>seat_open := seat_open s - 1\<rparr>;
           s = (if seat_open s = 0 then s\<lparr>seat_closed_at := Some now\<rparr> else s)
       in st\<lparr>seats_held := AList.update ticket s (seats_held st)\<rparr>)"

definition seats_free :: "nat \<Rightarrow> seats \<Rightarrow> bool \<times> seats" where
  "seats_free now st = (let st = seats_expire now st in (has_free_seat st, st))"

definition seats_count :: "nat \<Rightarrow> seats \<Rightarrow> nat \<times> seats" where
  "seats_count now st = (let st = seats_expire now st in (length (seats_held st), st))"

section \<open>The admission message\<close>

record 'k playback_signer =
  ps_channel_arn :: bytes
  ps_playback_url :: bytes
  ps_key :: 'k

datatype 'k playback = Signed "'k playback_signer" | Open bytes

record token =
  tk_value :: bytes
  tk_expires_at :: nat

record admission =
  ad_seat :: "bytes option"
  ad_locked :: bool
  ad_reason :: "bytes option"
  ad_direct :: "token option"
  ad_broadcast :: "token option"
  ad_seat_free :: bool
  ad_capacity :: "nat option"

definition LATE_REASON :: bytes where
  "LATE_REASON = ascii ''Direct streams are full, so you are watching the broadcast.''"

text \<open>The claims' JSON text and the signature, which may fail, are parameters.\<close>

definition playback_token ::
  "(bytes \<Rightarrow> nat \<Rightarrow> bytes option \<Rightarrow> bytes) \<Rightarrow> ('k \<Rightarrow> bytes \<Rightarrow> bytes option) \<Rightarrow> 'k playback_signer
     \<Rightarrow> bytes option \<Rightarrow> nat \<Rightarrow> bytes option" where
  "playback_token claims_json sign s origin expiry =
     (let header = b64url (ascii ''{\"alg\":\"ES384\",\"typ\":\"JWT\"}'');
          payload = b64url (claims_json (ps_channel_arn s) expiry origin);
          signing_input = header @ DOT_BYTE # payload
      in map_option (\<lambda>sig. signing_input @ DOT_BYTE # b64url sig) (sign (ps_key s) signing_input))"

definition playback_url ::
  "(bytes \<Rightarrow> nat \<Rightarrow> bytes option \<Rightarrow> bytes) \<Rightarrow> ('k \<Rightarrow> bytes \<Rightarrow> bytes option) \<Rightarrow> 'k playback_signer
     \<Rightarrow> bytes option \<Rightarrow> nat \<Rightarrow> bytes option" where
  "playback_url claims_json sign s origin expiry =
     (let sep = (if 63 \<in> set (ps_playback_url s) then ascii ''&'' else ascii ''?'')
      in map_option (\<lambda>tok. ps_playback_url s @ sep @ ascii ''token='' @ tok)
           (playback_token claims_json sign s origin expiry))"

record ('a, 'k) gate =
  gt_seats :: seats
  gt_key :: 'a
  gt_playback :: "'k playback option"

definition broadcast_token ::
  "(bytes \<Rightarrow> nat \<Rightarrow> bytes option \<Rightarrow> bytes) \<Rightarrow> ('k \<Rightarrow> bytes \<Rightarrow> bytes option) \<Rightarrow> 'k playback option
     \<Rightarrow> bytes option \<Rightarrow> nat \<Rightarrow> token option" where
  "broadcast_token claims_json sign playback origin now_s = (case playback of
     None \<Rightarrow> None
   | Some (Open url) \<Rightarrow> Some \<lparr>tk_value = url, tk_expires_at = u64_max\<rparr>
   | Some (Signed s) \<Rightarrow>
       if origin = None then None
       else let expiry = now_s + PLAYBACK_TOKEN_SECS
            in map_option (\<lambda>v. \<lparr>tk_value = v, tk_expires_at = expiry * 1000\<rparr>)
                 (playback_url claims_json sign s origin expiry))"

definition gate_message ::
  "'a keyed_hash \<Rightarrow> (bytes \<Rightarrow> nat \<Rightarrow> bytes option \<Rightarrow> bytes) \<Rightarrow> ('k \<Rightarrow> bytes \<Rightarrow> bytes option) \<Rightarrow> admitted
     \<Rightarrow> bytes \<Rightarrow> bytes option \<Rightarrow> nat \<Rightarrow> nat \<Rightarrow> ('a, 'k) gate \<Rightarrow> admission \<times> ('a, 'k) gate" where
  "gate_message hmac claims_json sign admitted viewer origin now_ms now g =
     (let now_s = now_ms div 1000;
          broadcast = broadcast_token claims_json sign (gt_playback g) origin now_s
      in case admitted of
           Seat ticket \<Rightarrow>
             let expiry = now_s + DIRECT_TOKEN_SECS
             in (\<lparr>ad_seat = Some ticket, ad_locked = False, ad_reason = None,
                  ad_direct = Some \<lparr>tk_value = direct_token hmac (gt_key g) viewer expiry,
                                    tk_expires_at = expiry * 1000\<rparr>,
                  ad_broadcast = broadcast, ad_seat_free = False,
                  ad_capacity = seats_capacity (gt_seats g)\<rparr>, g)
         | Late \<Rightarrow>
             let (free, st) = seats_free now (gt_seats g)
             in (\<lparr>ad_seat = None, ad_locked = True, ad_reason = Some LATE_REASON, ad_direct = None,
                  ad_broadcast = broadcast, ad_seat_free = free,
                  ad_capacity = seats_capacity (gt_seats g)\<rparr>, g\<lparr>gt_seats := st\<rparr>))"

section \<open>Tokens: what holds of a valid one\<close>

lemma b64_char_not_dot: "i < 64 \<Longrightarrow> b64_char i \<noteq> DOT_BYTE"
  using b64_value_char [of i] by (auto simp: DOT_BYTE_def b64_value_def)

lemma b64_chunk_alphabet: "c \<in> set (b64_chunk bs) \<Longrightarrow> \<exists>i < 64. c = b64_char i"
  unfolding b64_chunk_def Let_def set_map by (elim imageE) (metis mod_less_divisor zero_less_numeral)

lemma b64url_alphabet: "c \<in> set (b64url bs) \<Longrightarrow> \<exists>i < 64. c = b64_char i"
  by (induction bs rule: b64url.induct) (auto dest: b64_chunk_alphabet)

lemma dot_not_in_b64url: "DOT_BYTE \<notin> set (b64url bs)"
  using b64url_alphabet b64_char_not_dot by metis

lemma dot_not_in_decimal: "DOT_BYTE \<notin> set (to_decimal n)"
  by (rule to_decimal_free) (simp add: DOT_BYTE_def)

lemma dot_not_in_version: "DOT_BYTE \<notin> set (ascii ''v1'')"
  by (simp add: ascii_def DOT_BYTE_def)

text \<open>The signed part of a token.\<close>

definition token_body :: "bytes \<Rightarrow> bytes \<Rightarrow> bytes" where
  "token_body expiry viewer = ascii ''v1'' @ DOT_BYTE # expiry @ DOT_BYTE # viewer"

lemma direct_token_parts:
  "direct_token hmac key viewer expiry =
     token_body (to_decimal expiry) viewer @ DOT_BYTE # b64url (hmac key (token_body (to_decimal expiry) viewer))"
  by (simp add: direct_token_def token_body_def admit_mac_def Let_def)

lemma rsplit_direct_token:
  "rsplit_once DOT_BYTE (direct_token hmac key viewer expiry)
     = Some (token_body (to_decimal expiry) viewer, b64url (hmac key (token_body (to_decimal expiry) viewer)))"
  using dot_not_in_b64url by (simp add: rsplit_once_Some direct_token_parts)

lemma splitn_token_body:
  "DOT_BYTE \<notin> set expiry \<Longrightarrow> splitn 3 DOT_BYTE (token_body expiry viewer) = [ascii ''v1'', expiry, viewer]"
  unfolding token_body_def by (rule splitn_3 [OF dot_not_in_version])

lemma direct_token_valid_own:
  assumes "expiry \<le> u64_max"
  shows "direct_token_valid hmac keys (direct_token hmac key viewer expiry) now \<longleftrightarrow>
     now \<le> expiry \<and> viewer \<noteq> [] \<and>
     (\<exists>k \<in> set keys. hmac key (token_body (to_decimal expiry) viewer) = hmac k (token_body (to_decimal expiry) viewer))"
  using assms
  by (auto simp: direct_token_valid_def rsplit_direct_token splitn_token_body [OF dot_not_in_decimal]
      parse_unsigned_to_decimal b64url_round_trip list_ex_iff not_less)

text \<open>
  Claim C39.  A token is accepted only if a holder of one of the keys authorised it: its last field is
  the base64url text of the keyed hash, under one of the keys, of everything before it, and that text
  names a version, an expiry that has not passed and a viewer.
\<close>

theorem direct_token_sound:
  assumes "direct_token_valid hmac keys tok now"
  shows "\<exists>k \<in> set keys. \<exists>expiry_text viewer mac expiry.
     tok = token_body expiry_text viewer @ DOT_BYTE # mac \<and> viewer \<noteq> [] \<and>
     parse_unsigned u64_max expiry_text = Some expiry \<and> now \<le> expiry \<and>
     b64url_decode mac = Some (hmac k (token_body expiry_text viewer))"
proof -
  obtain body mac where r: "rsplit_once DOT_BYTE tok = Some (body, mac)"
    using assms by (auto simp: direct_token_valid_def split: option.splits)
  obtain expiry_text viewer where p: "splitn 3 DOT_BYTE body = [ascii ''v1'', expiry_text, viewer]"
    using assms r by (auto simp: direct_token_valid_def split: list.splits)
  obtain expiry where e: "parse_unsigned u64_max expiry_text = Some expiry"
    using assms r p by (auto simp: direct_token_valid_def split: option.splits)
  obtain k where k: "k \<in> set keys" "b64url_decode mac = Some (hmac k body)" "now \<le> expiry" "viewer \<noteq> []"
    using assms r p e by (auto simp: direct_token_valid_def list_ex_iff split: option.splits)
  have "tok = body @ DOT_BYTE # mac" using rsplit_once_SomeD [OF r] by blast
  moreover have "body = token_body expiry_text viewer"
    using splitn_3D [OF p] by (simp add: token_body_def)
  ultimately show ?thesis using k e by blast
qed

theorem direct_token_sound_witness:
  "direct_token_valid (\<lambda>(k :: u8) m. k # m) [7] (direct_token (\<lambda>k m. k # m) 7 [97] 50) 50 \<and>
   (\<exists>k \<in> set [7 :: u8]. \<exists>expiry_text viewer mac expiry.
     direct_token (\<lambda>k m. k # m) 7 [97] 50 = token_body expiry_text viewer @ DOT_BYTE # mac \<and> viewer \<noteq> [] \<and>
     parse_unsigned u64_max expiry_text = Some expiry \<and> 50 \<le> expiry \<and>
     b64url_decode mac = Some (k # token_body expiry_text viewer))"
proof -
  have v: "direct_token_valid (\<lambda>(k :: u8) m. k # m) [7] (direct_token (\<lambda>k m. k # m) 7 [97] 50) 50"
    by (simp add: direct_token_valid_own u64_max_def)
  show ?thesis using v direct_token_sound [OF v] by blast
qed

text \<open>
  The message a seated viewer gets carries a token that every holder of the gate's key
  accepts until its ten minutes are over and not after; a late viewer's message carries none.  Its
  expiry is the one the message announces.
\<close>

theorem gate_message_token:
  assumes "gate_message hmac claims_json sign adm viewer origin now_ms now g = (msg, g')"
    and "viewer \<noteq> []" "now_ms div 1000 + DIRECT_TOKEN_SECS \<le> u64_max"
  shows "case adm of
      Late \<Rightarrow> ad_direct msg = None
    | Seat _ \<Rightarrow> \<exists>tok. ad_direct msg = Some tok \<and>
        (\<forall>later. direct_token_valid hmac [gt_key g] (tk_value tok) later \<longleftrightarrow> later * 1000 \<le> tk_expires_at tok)"
proof (cases adm)
  case (Seat t)
  define expiry where "expiry = now_ms div 1000 + DIRECT_TOKEN_SECS"
  have "ad_direct msg = Some \<lparr>tk_value = direct_token hmac (gt_key g) viewer expiry, tk_expires_at = expiry * 1000\<rparr>"
    using assms(1) Seat by (auto simp: gate_message_def Let_def expiry_def)
  moreover have "expiry \<le> u64_max" using assms(3) by (simp add: expiry_def)
  ultimately show ?thesis using Seat assms(2) by (simp add: direct_token_valid_own)
next
  case Late
  then show ?thesis using assms(1) by (auto simp: gate_message_def seats_free_def Let_def)
qed

text \<open>A gate with two seats, one of them held, and no broadcast.\<close>

definition demo_gate :: "(u8, u8) gate" where
  "demo_gate = \<lparr>gt_seats = \<lparr>seats_capacity = Some 2, seats_grace = 60,
                  seats_held = [([116], \<lparr>seat_open = 1, seat_closed_at = None\<rparr>)]\<rparr>,
                gt_key = 7, gt_playback = None\<rparr>"

section \<open>Seats and the connections that hold them\<close>

text \<open>The coordinator's world: the seats, the tickets of the seated connections that are open now, and
  the time of the last event.  A connection arrives with or without a ticket, a seated one closes, and
  anyone may ask whether a seat is free.  A new ticket is random, so it is none that is held.\<close>

type_synonym world = "seats \<times> bytes multiset \<times> nat"

inductive seat_step :: "world \<Rightarrow> world \<Rightarrow> bool" where
  arrive_seated:
    "clock \<le> now \<Longrightarrow> fresh \<notin> fst ` set (seats_held st) \<Longrightarrow> seats_admit ticket fresh now st = (Seat t, st') \<Longrightarrow>
     seat_step (st, conns, clock) (st', add_mset t conns, now)"
| arrive_late:
    "clock \<le> now \<Longrightarrow> seats_admit ticket fresh now st = (Late, st') \<Longrightarrow>
     seat_step (st, conns, clock) (st', conns, now)"
| close:
    "clock \<le> now \<Longrightarrow> t \<in># conns \<Longrightarrow>
     seat_step (st, conns, clock) (seats_release t now st, conns - {#t#}, now)"
| ask:
    "clock \<le> now \<Longrightarrow> seat_step (st, conns, clock) (snd (seats_free now st), conns, now)"

text \<open>The invariant: one entry per ticket, a seat's counter is the number of open connections with its
  ticket, it has a closing time exactly when there are none, every open connection's ticket is held,
  and no more seats are held than there are.\<close>

definition seat_ok :: "bytes multiset \<Rightarrow> nat \<Rightarrow> bytes \<Rightarrow> seat \<Rightarrow> bool" where
  "seat_ok conns clock t s \<longleftrightarrow> seat_open s = count conns t \<and>
     (case seat_closed_at s of None \<Rightarrow> 0 < seat_open s | Some c \<Rightarrow> seat_open s = 0 \<and> c \<le> clock)"

definition seats_inv :: "world \<Rightarrow> bool" where
  "seats_inv = (\<lambda>(st, conns, clock).
     distinct (map fst (seats_held st)) \<and>
     (\<forall>t s. map_of (seats_held st) t = Some s \<longrightarrow> seat_ok conns clock t s) \<and>
     set_mset conns \<subseteq> dom (map_of (seats_held st)) \<and>
     (\<forall>c. seats_capacity st = Some c \<longrightarrow> length (seats_held st) \<le> c))"

lemma seats_new_inv: "seats_inv (seats_new capacity, {#}, clock)"
  by (simp add: seats_inv_def seats_new_def)

lemma seats_invD:
  assumes "seats_inv (st, conns, clock)"
  shows "distinct (map fst (seats_held st))"
    "map_of (seats_held st) t = Some s \<Longrightarrow> seat_ok conns clock t s"
    "t \<in># conns \<Longrightarrow> \<exists>s. map_of (seats_held st) t = Some s"
    "seats_capacity st = Some c \<Longrightarrow> length (seats_held st) \<le> c"
  using assms unfolding seats_inv_def prod.case by blast+

lemma seat_ok_later: "seat_ok conns clock t s \<Longrightarrow> clock \<le> now \<Longrightarrow> seat_ok conns now t s"
  by (auto simp: seat_ok_def split: option.splits)

lemma seat_ok_open: "seat_ok conns clock t s \<Longrightarrow> t \<in># conns \<Longrightarrow> 0 < seat_open s"
  by (simp add: seat_ok_def)

lemma map_of_filter_values:
  "distinct (map fst xs) \<Longrightarrow>
     map_of (filter (\<lambda>(_, v). P v) xs) k = (case map_of xs k of Some v \<Rightarrow> if P v then Some v else None | None \<Rightarrow> None)"
  by (induction xs) (auto simp: map_of_eq_None_iff split: option.split)

lemma seats_expire_fields [simp]:
  "seats_capacity (seats_expire now st) = seats_capacity st" "seats_grace (seats_expire now st) = seats_grace st"
  by (simp_all add: seats_expire_def)

lemma seats_expire_held:
  "distinct (map fst (seats_held st)) \<Longrightarrow> map_of (seats_held (seats_expire now st)) t =
     (case map_of (seats_held st) t of Some s \<Rightarrow> if seat_kept (seats_grace st) now s then Some s else None | None \<Rightarrow> None)"
  by (simp add: seats_expire_def map_of_filter_values)

lemma seats_expire_inv:
  assumes inv: "seats_inv (st, conns, clock)" and later: "clock \<le> now"
  shows "seats_inv (seats_expire now st, conns, now)"
proof -
  note held = seats_expire_held [OF seats_invD(1) [OF inv]]
  have d: "distinct (map fst (seats_held (seats_expire now st)))"
    using seats_invD(1) [OF inv] by (simp add: seats_expire_def distinct_map_filter)
  have ok: "seat_ok conns now t s" if "map_of (seats_held (seats_expire now st)) t = Some s" for t s
    using that held seats_invD(2) [OF inv] seat_ok_later [OF _ later] by (auto split: option.splits if_splits)
  have "t \<in> dom (map_of (seats_held (seats_expire now st)))" if t: "t \<in># conns" for t
  proof -
    obtain s where s: "map_of (seats_held st) t = Some s" using seats_invD(3) [OF inv t] by blast
    then have "0 < seat_open s" using seats_invD(2) [OF inv s] seat_ok_open t by blast
    then have "map_of (seats_held (seats_expire now st)) t = Some s"
      unfolding held by (simp add: s seat_kept_def)
    then show ?thesis by (rule domI)
  qed
  moreover have "length (seats_held (seats_expire now st)) \<le> length (seats_held st)"
    by (simp add: seats_expire_def)
  ultimately show ?thesis
    unfolding seats_inv_def prod.case using d ok seats_invD(4) [OF inv] le_trans
    by (intro conjI subsetI allI impI) (simp only: seats_expire_fields; blast)+
qed

lemma length_update:
  "length (AList.update k v xs) = (if k \<in> fst ` set xs then length xs else Suc (length xs))"
  by (induction xs) auto

text \<open>Changing one seat together with the connections that hold it.\<close>

lemma seats_update_inv:
  assumes inv: "seats_inv (st, conns, clock)" and later: "clock \<le> now"
    and ok: "seat_ok conns' now t s"
    and others: "\<And>t'. t' \<noteq> t \<Longrightarrow> count conns' t' = count conns t'"
    and room: "t \<notin> dom (map_of (seats_held st)) \<Longrightarrow> has_free_seat st"
  shows "seats_inv (st\<lparr>seats_held := AList.update t s (seats_held st)\<rparr>, conns', now)"
proof -
  have "seat_ok conns' now t' s'" if "((map_of (seats_held st))(t \<mapsto> s)) t' = Some s'" for t' s'
  proof (cases "t' = t")
    case False
    then have "seat_ok conns now t' s'"
      using that seats_invD(2) [OF inv] seat_ok_later [OF _ later] by auto
    then show ?thesis using others [OF False] by (simp add: seat_ok_def)
  qed (use that ok in simp)
  moreover have "t' \<in> dom ((map_of (seats_held st))(t \<mapsto> s))" if "t' \<in># conns'" for t'
    using that others [of t'] seats_invD(3) [OF inv, of t'] unfolding count_greater_zero_iff [symmetric]
    by (cases "t' = t") auto
  moreover have "length (AList.update t s (seats_held st)) \<le> c" if "seats_capacity st = Some c" for c
    using that room seats_invD(4) [OF inv that]
    by (auto simp: length_update has_free_seat_def dom_map_of_conv_image_fst)
  moreover have "distinct (map fst (AList.update t s (seats_held st)))"
    by (rule distinct_update) (rule seats_invD(1) [OF inv])
  ultimately show ?thesis by (auto simp: seats_inv_def update_conv')
qed

lemma seats_admit_cases [consumes 1, case_names known late new]:
  assumes "seats_admit ticket fresh now st = (r, st')"
  obtains t s where "ticket = Some t" "map_of (seats_held (seats_expire now st)) t = Some s" "r = Seat t"
      "st' = (seats_expire now st)\<lparr>seats_held := AList.update t
                (s\<lparr>seat_open := seat_open s + 1, seat_closed_at := None\<rparr>) (seats_held (seats_expire now st))\<rparr>"
  | "\<not> has_free_seat (seats_expire now st)" "r = Late" "st' = seats_expire now st"
  | "has_free_seat (seats_expire now st)" "r = Seat fresh"
      "st' = (seats_expire now st)\<lparr>seats_held := AList.update fresh
                \<lparr>seat_open = 1, seat_closed_at = None\<rparr> (seats_held (seats_expire now st))\<rparr>"
proof -
  let ?st = "seats_expire now st"
  define known where "known = (case ticket of
      Some t \<Rightarrow> map_option (\<lambda>s. (t, s)) (map_of (seats_held ?st) t) | None \<Rightarrow> None)"
  show ?thesis
  proof (cases known)
    case None
    then have "(r, st') = (if \<not> has_free_seat ?st then (Late, ?st) else (Seat fresh, ?st\<lparr>seats_held :=
        AList.update fresh \<lparr>seat_open = 1, seat_closed_at = None\<rparr> (seats_held ?st)\<rparr>))"
      using assms by (simp add: seats_admit_def known_def Let_def)
    then show ?thesis using that(2,3) by (cases "has_free_seat ?st") auto
  next
    case (Some ts)
    then obtain t s where ts: "ts = (t, s)" "ticket = Some t" "map_of (seats_held ?st) t = Some s"
      by (auto simp: known_def split: option.splits)
    then show ?thesis using that(1) [OF ts(2,3)] assms by (auto simp: seats_admit_def Let_def)
  qed
qed

lemma seats_admit_inv:
  assumes inv: "seats_inv (st, conns, clock)" and later: "clock \<le> now"
    and fresh: "fresh \<notin> fst ` set (seats_held st)"
    and admit: "seats_admit ticket fresh now st = (Seat t, st')"
  shows "seats_inv (st', add_mset t conns, now)"
proof -
  note inv0 = seats_expire_inv [OF inv later]
  show ?thesis
    using admit
  proof (cases rule: seats_admit_cases)
    case (known t' s)
    then have "seat_ok conns now t s" using seats_invD(2) [OF inv0] by simp
    then have ok: "seat_ok (add_mset t conns) now t (s\<lparr>seat_open := seat_open s + 1, seat_closed_at := None\<rparr>)"
      by (simp add: seat_ok_def)
    show ?thesis unfolding known(4) by (intro seats_update_inv [OF inv0 order_refl]) (use ok known in auto)
  next
    case new
    have "fresh \<notin># conns" using seats_invD(3) [OF inv] fresh by (metis domI dom_map_of_conv_image_fst)
    then have "seat_ok (add_mset t conns) now t \<lparr>seat_open = 1, seat_closed_at = None\<rparr>"
      using new by (simp add: seat_ok_def not_in_iff)
    then show ?thesis using new seats_update_inv [OF inv0 order_refl] by auto
  qed simp
qed

lemma seats_release_inv:
  assumes inv: "seats_inv (st, conns, clock)" and later: "clock \<le> now" and t: "t \<in># conns"
  shows "seats_inv (seats_release t now st, conns - {#t#}, now)"
proof -
  obtain s where s: "map_of (seats_held st) t = Some s" using seats_invD(3) [OF inv t] by blast
  define s' where "s' = (let s = s\<lparr>seat_open := seat_open s - 1\<rparr>
    in if seat_open s = 0 then s\<lparr>seat_closed_at := Some now\<rparr> else s)"
  have ok: "seat_ok conns clock t s" "0 < seat_open s"
    using seats_invD(2) [OF inv s] seat_ok_open t by blast+
  have "seat_ok (conns - {#t#}) now t s'"
    using ok later by (auto simp: seat_ok_def s'_def Let_def split: option.splits)
  then have "seats_inv (st\<lparr>seats_held := AList.update t s' (seats_held st)\<rparr>, conns - {#t#}, now)"
    using s by (intro seats_update_inv [OF inv later]) auto
  from seats_expire_inv [OF this order_refl] show ?thesis
    using s by (simp add: seats_release_def s'_def Let_def)
qed

lemma seat_step_inv:
  assumes "seat_step w w'" "seats_inv w"
  shows "seats_inv w'"
  using assms
proof cases
  case (arrive_late clock now ticket fresh st st' conns)
  then show ?thesis using assms(2) seats_expire_inv by (auto elim: seats_admit_cases)
qed (use assms(2) seats_admit_inv seats_release_inv seats_expire_inv in \<open>auto simp: seats_free_def Let_def\<close>)

interpretation seating: kept_by_steps seat_step seats_inv
  by unfold_locales (rule seat_step_inv)

lemmas seat_steps_inv = seating.steps_keep

lemma seats_admit_capacity: "seats_admit ticket fresh now st = (r, st') \<Longrightarrow> seats_capacity st' = seats_capacity st"
  by (auto elim: seats_admit_cases)

lemma seats_release_capacity [simp]: "seats_capacity (seats_release t now st) = seats_capacity st"
  by (simp add: seats_release_def Let_def split: option.split)

lemma seat_step_capacity: "seat_step (st, w) (st', w') \<Longrightarrow> seats_capacity st' = seats_capacity st"
  by (erule seat_step.cases) (auto simp: seats_free_def Let_def dest: seats_admit_capacity)

lemma seat_steps_capacity: "seat_step\<^sup>*\<^sup>* (st, w) (st', w') \<Longrightarrow> seats_capacity st' = seats_capacity st"
proof (induction "(st', w')" arbitrary: st' w' rule: rtranclp_induct)
  case (step y)
  then show ?case by (cases y) (auto dest: seat_step_capacity)
qed simp

text \<open>
  Claim C40.  The seats are never oversubscribed: whatever arrives, closes and reconnects in whatever
  order, at most as many different tickets are in use as there are seats, every open seated connection's
  seat is held, and its counter is exactly the number of open connections that share it.
\<close>

theorem seats_never_oversubscribed:
  assumes "seat_step\<^sup>*\<^sup>* (seats_new (Some c), {#}, t0) (st, conns, clock)"
  shows "card (set_mset conns) \<le> c \<and>
    (\<forall>t \<in># conns. \<exists>s. map_of (seats_held st) t = Some s \<and> seat_open s = count conns t)"
proof -
  have inv: "seats_inv (st, conns, clock)" by (rule seat_steps_inv [OF assms seats_new_inv])
  have cap: "seats_capacity st = Some c" using seat_steps_capacity [OF assms] by (simp add: seats_new_def)
  have "set_mset conns \<subseteq> set (map fst (seats_held st))"
    using inv by (simp add: seats_inv_def dom_map_of_conv_image_fst)
  then have "card (set_mset conns) \<le> card (set (map fst (seats_held st)))"
    by (intro card_mono) simp_all
  also have "\<dots> \<le> length (map fst (seats_held st))" by (rule card_length)
  also have "\<dots> \<le> c" using seats_invD(4) [OF inv cap] by simp
  finally have card: "card (set_mset conns) \<le> c" .
  have "\<exists>s. map_of (seats_held st) t = Some s \<and> seat_open s = count conns t" if "t \<in># conns" for t
    using seats_invD(2,3) [OF inv] that by (fastforce simp: seat_ok_def)
  then show ?thesis using card by blast
qed

theorem seats_never_oversubscribed_witness:
  "\<exists>st. seat_step\<^sup>*\<^sup>* (seats_new (Some 1), {#}, 0) (st, {#[116]#}, 5) \<and> card (set_mset {#[116 :: u8]#}) \<le> 1 \<and>
     (\<forall>t \<in># {#[116]#}. \<exists>s. map_of (seats_held st) t = Some s \<and> seat_open s = count {#[116]#} t)"
proof -
  obtain st where a: "seats_admit None [116] 5 (seats_new (Some 1)) = (Seat [116], st)"
    by (simp add: seats_admit_def seats_new_def seats_expire_def has_free_seat_def)
  have "seat_step (seats_new (Some 1), {#}, 0) (st, add_mset [116] {#}, 5)"
    by (rule seat_step.arrive_seated [OF _ _ a]) (simp_all add: seats_new_def)
  then have r: "seat_step\<^sup>*\<^sup>* (seats_new (Some 1), {#}, 0) (st, {#[116]#}, 5)" by simp
  show ?thesis using r seats_never_oversubscribed [OF r] by blast
qed

text \<open>A seat is safe from its closing on while the grace has not passed.\<close>

definition seat_safe :: "nat \<Rightarrow> bytes \<Rightarrow> seats \<Rightarrow> bool" where
  "seat_safe closed t st \<longleftrightarrow> (\<exists>s. map_of (seats_held st) t = Some s \<and>
     (0 < seat_open s \<or> (case seat_closed_at s of None \<Rightarrow> True | Some c \<Rightarrow> closed \<le> c)))"

lemma seat_step_clock: "seat_step (st, conns, clock) (st', conns', clock') \<Longrightarrow> clock \<le> clock'"
  by (erule seat_step.cases) auto

lemma seat_steps_clock: "seat_step\<^sup>*\<^sup>* (st, conns, clock) (st', conns', clock') \<Longrightarrow> clock \<le> clock'"
proof (induction "(st', conns', clock')" arbitrary: st' conns' clock' rule: rtranclp_induct)
  case (step y)
  then show ?case by (cases y) (auto dest: seat_step_clock)
qed simp

lemma seat_safe_expire:
  assumes "distinct (map fst (seats_held st))" "closed \<le> now" "now < closed + seats_grace st" "seat_safe closed t st"
  shows "seat_safe closed t (seats_expire now st)"
proof -
  obtain s where s: "map_of (seats_held st) t = Some s"
    "0 < seat_open s \<or> (case seat_closed_at s of None \<Rightarrow> True | Some c \<Rightarrow> closed \<le> c)"
    using assms(4) by (auto simp: seat_safe_def)
  then have "seat_kept (seats_grace st) now s"
    using assms(2,3) by (auto simp: seat_kept_def split: option.splits)
  then have "map_of (seats_held (seats_expire now st)) t = Some s"
    using s(1) by (simp only: seats_expire_held [OF assms(1)] option.case if_True)
  then show ?thesis using s(2) by (auto simp: seat_safe_def)
qed

lemma seat_safe_update:
  assumes "seat_safe closed t st" "t' = t \<Longrightarrow> 0 < seat_open s \<or> (case seat_closed_at s of None \<Rightarrow> True | Some c \<Rightarrow> closed \<le> c)"
  shows "seat_safe closed t (st\<lparr>seats_held := AList.update t' s (seats_held st)\<rparr>)"
  using assms by (cases "t' = t") (auto simp: seat_safe_def update_conv')

lemma seats_admit_grace: "seats_admit ticket fresh now st = (r, st') \<Longrightarrow> seats_grace st' = seats_grace st"
  by (auto elim: seats_admit_cases)

lemma seats_release_grace [simp]: "seats_grace (seats_release t now st) = seats_grace st"
  by (simp add: seats_release_def Let_def split: option.split)

lemma seat_safe_step:
  assumes step: "seat_step (st, conns, clock) (st', conns', clock')"
    and inv: "seats_inv (st, conns, clock)" and safe: "seat_safe closed t st"
    and grace: "clock' < closed + seats_grace st" "closed \<le> clock"
  shows "seat_safe closed t st' \<and> seats_grace st' = seats_grace st \<and> closed \<le> clock'"
proof -
  note d = seats_invD(1) [OF inv]
  have after: "closed \<le> clock'" using seat_step_clock [OF step] grace(2) by simp
  have expire: "seat_safe closed t (seats_expire clock' st)" by (rule seat_safe_expire [OF d after grace(1) safe])
  have admit: "seat_safe closed t st'" if "seats_admit ticket fresh clock' st = (r, st')" for ticket fresh r
    using that by (cases rule: seats_admit_cases) (auto intro: seat_safe_update expire)
  have release: "seat_safe closed t (seats_release u clock' st)" if later: "clock \<le> clock'" and u: "u \<in># conns" for u
  proof -
    obtain s where s: "map_of (seats_held st) u = Some s" using seats_invD(3) [OF inv u] by blast
    define s' where "s' = (let s = s\<lparr>seat_open := seat_open s - 1\<rparr>
      in if seat_open s = 0 then s\<lparr>seat_closed_at := Some clock'\<rparr> else s)"
    let ?st = "st\<lparr>seats_held := AList.update u s' (seats_held st)\<rparr>"
    have "seat_safe closed t ?st"
      by (rule seat_safe_update [OF safe]) (use later grace(2) in \<open>auto simp: s'_def Let_def\<close>)
    then have "seat_safe closed t (seats_expire clock' ?st)"
      using d after grace(1) by (intro seat_safe_expire) (auto intro: distinct_update)
    then show ?thesis using s by (simp add: seats_release_def s'_def Let_def)
  qed
  show ?thesis
    using step
  proof cases
    case (arrive_seated fresh ticket u)
    then show ?thesis using admit grace(2) seats_admit_grace by auto
  next
    case (arrive_late ticket fresh)
    then show ?thesis using admit grace(2) seats_admit_grace by auto
  next
    case (close u)
    then show ?thesis using release grace(2) by auto
  next
    case ask
    then show ?thesis using expire grace(2) by (auto simp: seats_free_def Let_def)
  qed
qed

lemma seat_safe_steps:
  assumes "seat_step\<^sup>*\<^sup>* (st, conns, clock) (st', conns', clock')"
    "seats_inv (st, conns, clock)" "seat_safe closed t st" "closed \<le> clock"
  shows "clock' < closed + seats_grace st \<Longrightarrow>
    seat_safe closed t st' \<and> seats_grace st' = seats_grace st \<and> closed \<le> clock' \<and> seats_inv (st', conns', clock')"
  using assms(1)
proof (induction "(st', conns', clock')" arbitrary: st' conns' clock' rule: rtranclp_induct)
  case base
  then show ?case using assms(2-4) by simp
next
  case (step y)
  obtain st1 conns1 clock1 where y: "y = (st1, conns1, clock1)" by (rule prod_cases3)
  then have "clock1 < closed + seats_grace st" using step seat_step_clock by fastforce
  then have IH: "seat_safe closed t st1" "seats_grace st1 = seats_grace st" "closed \<le> clock1" "seats_inv y"
    using step.hyps(3) [OF y] y by auto
  then show ?case
    using seat_safe_step [OF step.hyps(2) [unfolded y]] step.prems seat_step_inv [OF step.hyps(2)] y by auto
qed

text \<open>
  A page that comes back within the grace gets its seat back: after a seated connection
  closed, whatever else happened since and however full the coordinator is, arriving with the ticket
  before the grace is over is answered with that seat.
\<close>

theorem seat_kept_for_grace:
  assumes "seat_step\<^sup>*\<^sup>* (seats_new capacity, {#}, t0) (st, conns, clock)"
    and "t \<in># conns" "clock \<le> closed"
    and "seat_step\<^sup>*\<^sup>* (seats_release t closed st, conns - {#t#}, closed) (st', conns', clock')"
    and "clock' \<le> now" "now < closed + seats_grace st"
  shows "fst (seats_admit (Some t) fresh now st') = Seat t"
proof -
  have inv: "seats_inv (st, conns, clock)" by (rule seat_steps_inv [OF assms(1) seats_new_inv])
  note inv1 = seats_release_inv [OF inv assms(3,2)] and after = seat_steps_clock [OF assms(4)]
  obtain s where s: "map_of (seats_held st) t = Some s" using seats_invD(3) [OF inv assms(2)] by blast
  have "seat_safe closed t (seats_release t closed st)"
  proof -
    define s' where "s' = (let s = s\<lparr>seat_open := seat_open s - 1\<rparr>
      in if seat_open s = 0 then s\<lparr>seat_closed_at := Some closed\<rparr> else s)"
    have "seat_safe closed t (st\<lparr>seats_held := AList.update t s' (seats_held st)\<rparr>)"
      by (auto simp: seat_safe_def update_conv' s'_def Let_def)
    then have "seat_safe closed t (seats_expire closed (st\<lparr>seats_held := AList.update t s' (seats_held st)\<rparr>))"
      using seats_invD(1) [OF inv] assms(5,6) after by (intro seat_safe_expire) (auto intro: distinct_update)
    then show ?thesis using s by (simp add: seats_release_def s'_def Let_def)
  qed
  from seat_safe_steps [OF assms(4) inv1 this order_refl]
  have st': "seat_safe closed t st'" "seats_grace st' = seats_grace st" "seats_inv (st', conns', clock')"
    using assms(5,6) by auto
  have "seat_safe closed t (seats_expire now st')"
    by (rule seat_safe_expire [OF seats_invD(1) [OF st'(3)] _ _ st'(1)]) (use after assms(5,6) st'(2) in auto)
  then obtain s' where "map_of (seats_held (seats_expire now st')) t = Some s'" by (auto simp: seat_safe_def)
  then show ?thesis by (simp add: seats_admit_def Let_def)
qed

text \<open>
  What the page is told agrees with what it would get: asking whether a seat is free answers
  yes exactly when a connection without a ticket that arrives at that moment is seated, and one that
  arrives late finds every seat open or closed for less than the grace.
\<close>

theorem seats_free_agrees:
  "fst (seats_free now st) = (fst (seats_admit None fresh now st) \<noteq> Late) \<and>
   (fst (seats_admit ticket fresh now st) = Late \<longrightarrow>
     (\<exists>c. seats_capacity st = Some c \<and> c \<le> length (filter (\<lambda>(_, s). seat_kept (seats_grace st) now s) (seats_held st))))"
proof
  show "fst (seats_free now st) = (fst (seats_admit None fresh now st) \<noteq> Late)"
    by (simp add: seats_free_def seats_admit_def Let_def)
  show "fst (seats_admit ticket fresh now st) = Late \<longrightarrow>
     (\<exists>c. seats_capacity st = Some c \<and> c \<le> length (filter (\<lambda>(_, s). seat_kept (seats_grace st) now s) (seats_held st)))"
  proof
    assume "fst (seats_admit ticket fresh now st) = Late"
    then obtain st' where "seats_admit ticket fresh now st = (Late, st')" by (metis prod.collapse)
    then have "\<not> has_free_seat (seats_expire now st)" by (cases rule: seats_admit_cases) auto
    then show "\<exists>c. seats_capacity st = Some c \<and> c \<le> length (filter (\<lambda>(_, s). seat_kept (seats_grace st) now s) (seats_held st))"
      by (auto simp: has_free_seat_def seats_expire_def not_less split: option.splits)
  qed
qed

end
