(* ===== verification/Potato_Player.thy ===== *)
theory Potato_Player
  imports Decimal "HOL-Library.Countable"
begin

text \<open>
  The hot potato's player: \<open>fleet/potato/src/lib.rs\<close> (the ball, the proof a player gives and its hash
  chain) and \<open>fleet/potato/src/bin/potato.rs\<close> (the program inside a player VM).  SHA-256 and the bytes
  read from \<open>/dev/urandom\<close> are parameters; sockets, JSON text and the reporter's thread are left out, so
  a handler takes the decoded message and returns the answer, the reports it queues and the new state.
  Colours are 32-bit words and counters 64-bit words, whose sums wrap as in a release build; rounds,
  sequence numbers and times are natural numbers.
\<close>

section \<open>The chain\<close>

type_synonym digest = "bytes \<Rightarrow> bytes"
type_synonym chain = bytes

definition TRAIL_MAX :: nat where "TRAIL_MAX = 16"

definition CHAIN_ZERO :: chain where "CHAIN_ZERO = replicate 32 0"

definition chain_input :: "chain \<Rightarrow> nat \<Rightarrow> nat \<Rightarrow> u32 \<Rightarrow> bytes" where
  "chain_input prev rnd seq colour =
     ascii ''fcvm-potato-v1'' @ prev @ le_bytes 8 rnd @ le_bytes 8 seq @ le_bytes 4 (unat colour)"

definition chain_step :: "digest \<Rightarrow> chain \<Rightarrow> nat \<Rightarrow> nat \<Rightarrow> u32 \<Rightarrow> chain" where
  "chain_step sha256 prev rnd seq colour = sha256 (chain_input prev rnd seq colour)"

definition next_colour :: "u32 \<Rightarrow> u32 \<Rightarrow> u32" where
  "next_colour colour colours = (colour + 1) mod max colours 1"

text \<open>Two lower-case hexadecimal digits for every byte.\<close>

definition hex_digit :: "nat \<Rightarrow> u8" where
  "hex_digit n = (if n < 10 then word_of_nat (48 + n) else word_of_nat (87 + n))"

definition hex_byte :: "u8 \<Rightarrow> bytes" where
  "hex_byte b = [hex_digit (unat b div 16), hex_digit (unat b mod 16)]"

definition chain_hex :: "chain \<Rightarrow> bytes" where
  "chain_hex c = concat (map hex_byte c)"

definition hex_value :: "u8 \<Rightarrow> nat option" where
  "hex_value c =
     (if 48 \<le> c \<and> c \<le> 57 then Some (unat c - 48) else if 97 \<le> c \<and> c \<le> 102 then Some (unat c - 87)
      else if 65 \<le> c \<and> c \<le> 70 then Some (unat c - 55) else None)"

text \<open>\<open>u8::from_str_radix (s, 16)\<close> on two bytes: digits of either case, the first possibly a plus sign.\<close>

definition u8_from_hex :: "u8 \<Rightarrow> u8 \<Rightarrow> u8 option" where
  "u8_from_hex a b =
     (if a = PLUS then map_option word_of_nat (hex_value b)
      else case (hex_value a, hex_value b) of
        (Some x, Some y) \<Rightarrow> Some (word_of_nat (16 * x + y))
      | _ \<Rightarrow> None)"

fun from_hex_pairs :: "bytes \<Rightarrow> bytes option" where
  "from_hex_pairs (a # b # s) = (case u8_from_hex a b of
     None \<Rightarrow> None
   | Some x \<Rightarrow> map_option (Cons x) (from_hex_pairs s))"
| "from_hex_pairs s = (if s = [] then Some [] else None)"

definition chain_from_hex :: "bytes \<Rightarrow> chain option" where
  "chain_from_hex s = (if length s \<noteq> 64 then None else from_hex_pairs s)"

section \<open>The ball\<close>

record potato_proof =
  pf_colour :: u32
  pf_counter :: u64
  pf_chain :: bytes

record ball =
  bl_round :: nat
  bl_seq :: nat
  bl_ring :: "bytes list"
  bl_hold_ms :: nat
  bl_shrink_permille :: nat
  bl_min_hold_ms :: nat
  bl_flight_ms :: nat
  bl_trail :: "u32 list"

definition ball_lap :: "ball \<Rightarrow> nat" where
  "ball_lap b = bl_seq b div max (length (bl_ring b)) 1"

definition shrink :: "nat \<Rightarrow> nat \<Rightarrow> nat \<Rightarrow> nat" where
  "shrink hold permille floor_ms = (let c = hold * min permille 1000 div 1000 in max (hold - c) floor_ms)"

definition thrown :: "u32 \<Rightarrow> ball \<Rightarrow> ball" where
  "thrown colour self =
     (let b = self\<lparr>bl_seq := bl_seq self + 1, bl_trail := bl_trail self @ [colour]\<rparr>;
          b = (if TRAIL_MAX < length (bl_trail b)
               then b\<lparr>bl_trail := drop (length (bl_trail b) - TRAIL_MAX) (bl_trail b)\<rparr> else b)
      in if ball_lap b \<noteq> ball_lap self
         then b\<lparr>bl_hold_ms := shrink (bl_hold_ms self) (bl_shrink_permille self) (bl_min_hold_ms self)\<rparr>
         else b)"

section \<open>The player\<close>

datatype inbound =
    Ball ball
  | Probe
  | Assign nat "u32 option"
  | Pace nat nat
  | Wake "nat option"
  | Stop nat

datatype reply = Reply_Ok | Reply_Refused bytes

datatype report =
    Report_Hello nat u32 potato_proof nat "nat option" "nat option"
  | Report_Caught nat nat nat potato_proof
  | Report_Threw nat nat nat bytes nat rat rat
  | Report_Dropped nat nat nat bytes nat bytes
  | Report_Probe "nat option" potato_proof bool

text \<open>What is written on the connection: a reply, or the report of a probe.\<close>

datatype answer = Answer reply | Answer_Report report

record player =
  pl_player :: "nat option"
  pl_colour :: u32
  pl_colours :: u32
  pl_counter :: u64
  pl_chain :: chain
  pl_last :: "(nat \<times> nat) option"
  pl_pace :: "(nat \<times> nat) option"
  pl_accepting :: bool
  pl_floor :: nat

text \<open>The state \<open>main\<close> starts with.\<close>

definition player_new :: "u32 \<Rightarrow> player" where
  "player_new colours =
     \<lparr>pl_player = None, pl_colour = 0, pl_colours = colours, pl_counter = 0, pl_chain = CHAIN_ZERO,
      pl_last = None, pl_pace = None, pl_accepting = True, pl_floor = 0\<rparr>"

definition player_proof :: "player \<Rightarrow> potato_proof" where
  "player_proof s = \<lparr>pf_colour = pl_colour s, pf_counter = pl_counter s, pf_chain = chain_hex (pl_chain s)\<rparr>"

definition hello :: "nat \<Rightarrow> player \<Rightarrow> nat \<Rightarrow> report" where
  "hello me s connections =
     Report_Hello me (pl_colours s) (player_proof s) connections (map_option fst (pl_last s)) (map_option snd (pl_last s))"

definition first_colour :: "bytes \<Rightarrow> u32 \<Rightarrow> u32" where
  "first_colour urandom colours = word_of_nat (of_le urandom) mod max colours 1"

definition assign_state :: "bytes \<Rightarrow> nat \<Rightarrow> u32 \<Rightarrow> player \<Rightarrow> player" where
  "assign_state urandom me colours s =
     s\<lparr>pl_player := Some me, pl_colours := max colours 1, pl_colour := first_colour urandom (max colours 1)\<rparr>"

text \<open>The state every connection shares, the reporter's end of the channel until it starts, and the
  colours of the environment.\<close>

record shared =
  sh_state :: player
  sh_rx :: bool
  sh_colours :: u32

definition shared_new :: "u32 \<Rightarrow> shared" where
  "shared_new colours = (let c = max colours 1 in \<lparr>sh_state = player_new c, sh_rx = True, sh_colours = c\<rparr>)"

definition assign :: "bytes \<Rightarrow> nat \<Rightarrow> u32 \<Rightarrow> shared \<Rightarrow> bool \<times> report list \<times> shared" where
  "assign urandom me colours sh =
     (if \<not> sh_rx sh then (False, [], sh)
      else let s = assign_state urandom me colours (sh_state sh)
           in (True, [hello me s 1], sh\<lparr>sh_rx := False, sh_state := s\<rparr>))"

text \<open>The locked section of a catch: the step of colour, counter and chain, or why there is none.\<close>

definition catch_ball ::
  "digest \<Rightarrow> ball \<Rightarrow> player \<Rightarrow> (bytes option + u32 \<times> potato_proof \<times> nat option) \<times> player" where
  "catch_ball sha256 ball s =
     (if pl_last s = Some (bl_round ball, bl_seq ball) then (Inl None, s)
      else if bl_round ball < pl_floor s then (Inl (Some (ascii ''that round is over'')), s)
      else if \<not> pl_accepting s then (Inl (Some (ascii ''asleep: it has thrown and not woken since'')), s)
      else let colour = next_colour (pl_colour s) (pl_colours s);
               s = s\<lparr>pl_colour := colour, pl_counter := pl_counter s + 1,
                     pl_chain := chain_step sha256 (pl_chain s) (bl_round ball) (bl_seq ball) colour,
                     pl_last := Some (bl_round ball, bl_seq ball)\<rparr>;
               pace = (case pl_pace s of Some (r, p) \<Rightarrow> if r = bl_round ball then Some p else None | None \<Rightarrow> None)
           in (Inr (colour, player_proof s, pace), s))"

definition catch_hold :: "nat option \<Rightarrow> ball \<Rightarrow> nat" where
  "catch_hold pace ball = (case pace of
     Some p \<Rightarrow> min (bl_hold_ms ball) (max p (bl_min_hold_ms ball))
   | None \<Rightarrow> bl_hold_ms ball)"

text \<open>A ball being held: for how long, the ball as it was caught and the ball that is thrown.\<close>

type_synonym held = "nat \<times> ball \<times> ball"

definition handle ::
  "digest \<Rightarrow> bytes \<Rightarrow> inbound \<Rightarrow> shared \<Rightarrow> answer \<times> report list \<times> held option \<times> shared" where
  "handle sha256 urandom msg sh =
     (let s = sh_state sh; ok = Answer Reply_Ok; refuse = (\<lambda>reason. Answer (Reply_Refused reason))
      in case msg of
        Probe \<Rightarrow> (Answer_Report (Report_Probe (pl_player s) (player_proof s) (pl_accepting s)), [], None, sh)
      | Assign me colours \<Rightarrow>
          let (done, reports, sh) =
                assign urandom me (case colours of Some c \<Rightarrow> c | None \<Rightarrow> sh_colours sh) sh
          in (if done then ok else refuse (ascii ''already assigned''), reports, None, sh)
      | Pace rnd hold_ms \<Rightarrow> (ok, [], None, sh\<lparr>sh_state := s\<lparr>pl_pace := Some (rnd, hold_ms)\<rparr>\<rparr>)
      | Wake rnd \<Rightarrow>
          (ok, [], None,
           sh\<lparr>sh_state := s\<lparr>pl_accepting := True,
                          pl_floor := max (pl_floor s) (case rnd of Some r \<Rightarrow> r | None \<Rightarrow> 0)\<rparr>\<rparr>)
      | Stop rnd \<Rightarrow>
          (ok, [], None,
           sh\<lparr>sh_state := s\<lparr>pl_floor := max (pl_floor s) (min (rnd + 1) u64_max), pl_accepting := False\<rparr>\<rparr>)
      | Ball ball \<Rightarrow>
          (case pl_player s of
             None \<Rightarrow> (refuse (ascii ''not assigned''), [], None, sh)
           | Some me \<Rightarrow>
               if bl_ring ball = [] then (refuse (ascii ''empty ring''), [], None, sh)
               else case catch_ball sha256 ball s of
                 (Inl None, s) \<Rightarrow> (ok, [], None, sh)
               | (Inl (Some reason), s) \<Rightarrow> (refuse reason, [], None, sh)
               | (Inr (colour, proof, pace), s) \<Rightarrow>
                   (ok, [Report_Caught me (bl_round ball) (bl_seq ball) proof],
                    Some (catch_hold pace ball, ball, thrown colour ball), sh\<lparr>sh_state := s\<rparr>)))"

text \<open>What happens when the hold is over: the ball to throw, or the report that its round is over.\<close>

definition end_hold :: "nat \<Rightarrow> ball \<Rightarrow> ball \<Rightarrow> shared \<Rightarrow> ball option \<times> report list \<times> shared" where
  "end_hold me ball nxt sh =
     (let s = sh_state sh
      in if bl_round ball < pl_floor s
         then (None, [Report_Dropped me (bl_round ball) (bl_seq nxt)
                        (bl_ring nxt ! (bl_seq nxt mod length (bl_ring nxt))) 0 (ascii ''the round is over'')], sh)
         else (Some nxt, [], sh\<lparr>sh_state := s\<lparr>pl_accepting := False\<rparr>\<rparr>))"

section \<open>The chain's text\<close>

lemma unat_hex_digit: "n < 16 \<Longrightarrow> unat (hex_digit n) = (if n < 10 then 48 + n else 87 + n)"
  unfolding hex_digit_def if_distrib [of unat] unat_of_nat by simp

lemma hex_value_hex_digit [simp]: "n < 16 \<Longrightarrow> hex_value (hex_digit n) = Some n"
  by (auto simp: hex_value_def word_le_nat_alt unat_hex_digit)

lemma hex_digit_not_plus [simp]: "n < 16 \<Longrightarrow> hex_digit n \<noteq> PLUS"
  using unat_hex_digit [of n] by (auto simp: PLUS_def split: if_splits)

lemma u8_from_hex_byte [simp]: "u8_from_hex (hex_digit (unat b div 16)) (hex_digit (unat b mod 16)) = Some b"
proof -
  have "unat b div 16 < 16" using unat_u8_less [of b] by simp
  then show ?thesis by (simp add: u8_from_hex_def)
qed

lemma from_hex_pairs_chain_hex: "from_hex_pairs (chain_hex c) = Some c"
  by (induction c) (simp_all add: chain_hex_def hex_byte_def)

lemma length_chain_hex [simp]: "length (chain_hex c) = 2 * length c"
  by (induction c) (simp_all add: chain_hex_def hex_byte_def)

lemma chain_from_hex_chain_hex [simp]: "chain_from_hex (chain_hex c) = (if length c = 32 then Some c else None)"
  by (auto simp: chain_from_hex_def from_hex_pairs_chain_hex)

lemma chain_hex_eq_iff [simp]: "chain_hex c = chain_hex d \<longleftrightarrow> c = d"
  using from_hex_pairs_chain_hex by (metis option.inject)

text \<open>The bytes a chain hashes determine the step, for chains of one length.\<close>

lemma le_bytes_eq_iff: "x < 256 ^ n \<Longrightarrow> y < 256 ^ n \<Longrightarrow> le_bytes n x = le_bytes n y \<longleftrightarrow> x = y"
  using of_le_round_trip by metis

lemma unat_u32_less: "unat (w :: u32) < 2 ^ 32"
proof -
  have "unat w < 2 ^ LENGTH(32)" by (rule unsigned_less)
  then show ?thesis by simp
qed

lemma chain_input_eq_iff:
  assumes "length c = length d"
  shows "chain_input c r s a = chain_input d r s b \<longleftrightarrow> c = d \<and> a = b"
proof -
  have "le_bytes 4 (unat a) = le_bytes 4 (unat b) \<longleftrightarrow> a = b"
    using le_bytes_eq_iff [of "unat a" 4 "unat b"] unat_u32_less [of a] unat_u32_less [of b] by (auto intro: unsigned_word_eqI)
  then show ?thesis using assms by (auto simp: chain_input_def)
qed

section \<open>The memory of a player\<close>

text \<open>
  What a player's memory must be after catching a list of balls (the round and number of each), from the
  colour, counter and chain it started with.
\<close>

type_synonym memory = "u32 \<times> u64 \<times> chain"

fun replay :: "digest \<Rightarrow> u32 \<Rightarrow> memory \<Rightarrow> (nat \<times> nat) list \<Rightarrow> memory" where
  "replay sha256 colours m [] = m"
| "replay sha256 colours (colour, counter, ch) ((rnd, seq) # balls) =
     (let c = next_colour colour colours
      in replay sha256 colours (c, counter + 1, chain_step sha256 ch rnd seq c) balls)"

definition memory_of :: "player \<Rightarrow> memory" where
  "memory_of s = (pl_colour s, pl_counter s, pl_chain s)"

lemma replay_append: "replay sha256 colours m (xs @ ys) = replay sha256 colours (replay sha256 colours m xs) ys"
  by (induction sha256 colours m xs rule: replay.induct) (simp_all add: Let_def)

definition memory_proof :: "memory \<Rightarrow> potato_proof" where
  "memory_proof = (\<lambda>(colour, counter, ch). \<lparr>pf_colour = colour, pf_counter = counter, pf_chain = chain_hex ch\<rparr>)"

lemma player_proof_memory: "player_proof s = memory_proof (memory_of s)"
  by (simp add: player_proof_def memory_proof_def memory_of_def)

lemma replay_snoc:
  "replay sha256 colours m (balls @ [(rnd, seq)]) =
     (let (colour, counter, ch) = replay sha256 colours m balls; c = next_colour colour colours
      in (c, counter + 1, chain_step sha256 ch rnd seq c))"
  by (cases "replay sha256 colours m balls") (simp add: replay_append Let_def)

text \<open>The catches a player reports, in order, each with its proof.\<close>

type_synonym catch = "(nat \<times> nat) \<times> potato_proof"

fun catches :: "report list \<Rightarrow> catch list" where
  "catches (Report_Caught me rnd seq proof # rs) = ((rnd, seq), proof) # catches rs"
| "catches (_ # rs) = catches rs"
| "catches [] = []"

text \<open>A player's run: messages arrive and holds end, in any order.\<close>

inductive player_step :: "digest \<Rightarrow> shared \<times> catch list \<Rightarrow> shared \<times> catch list \<Rightarrow> bool" for sha256 where
  message: "handle sha256 urandom msg sh = (ans, reports, held, sh')
     \<Longrightarrow> player_step sha256 (sh, hist) (sh', hist @ catches reports)"
| hold_over: "end_hold me ball nxt sh = (throw, reports, sh')
     \<Longrightarrow> player_step sha256 (sh, hist) (sh', hist @ catches reports)"

inductive_cases player_stepE: "player_step sha256 (sh, hist) w"

text \<open>What a message or the end of a hold does to the player's memory: nothing, the assignment, or a catch.\<close>

definition same_memory :: "shared \<Rightarrow> shared \<Rightarrow> bool" where
  "same_memory sh sh' \<longleftrightarrow>
     sh_rx sh' = sh_rx sh \<and> pl_player (sh_state sh') = pl_player (sh_state sh) \<and>
     pl_colours (sh_state sh') = pl_colours (sh_state sh) \<and> pl_last (sh_state sh') = pl_last (sh_state sh) \<and>
     memory_of (sh_state sh') = memory_of (sh_state sh)"

definition assigned :: "nat \<Rightarrow> shared \<Rightarrow> shared \<Rightarrow> bool" where
  "assigned me sh sh' \<longleftrightarrow>
     sh_rx sh \<and> \<not> sh_rx sh' \<and> pl_player (sh_state sh') = Some me \<and> pl_last (sh_state sh') = pl_last (sh_state sh) \<and>
     pl_counter (sh_state sh') = pl_counter (sh_state sh) \<and> pl_chain (sh_state sh') = pl_chain (sh_state sh)"

definition stepped_by :: "digest \<Rightarrow> nat \<times> nat \<Rightarrow> shared \<Rightarrow> shared \<Rightarrow> bool" where
  "stepped_by sha256 b sh sh' \<longleftrightarrow>
     sh_rx sh' = sh_rx sh \<and> pl_player (sh_state sh) \<noteq> None \<and> pl_player (sh_state sh') = pl_player (sh_state sh) \<and>
     pl_colours (sh_state sh') = pl_colours (sh_state sh) \<and>
     pl_last (sh_state sh) \<noteq> Some b \<and> pl_last (sh_state sh') = Some b \<and>
     memory_of (sh_state sh') = replay sha256 (pl_colours (sh_state sh)) (memory_of (sh_state sh)) [b]"

lemma catch_ball_cases:
  assumes "catch_ball sha256 ball s = (res, s')"
  obtains (refused) why where "res = Inl why" "s' = s"
  | (caught) colour pace where "res = Inr (colour, player_proof s', pace)"
      "pl_last s \<noteq> Some (bl_round ball, bl_seq ball)" "pl_last s' = Some (bl_round ball, bl_seq ball)"
      "pl_player s' = pl_player s" "pl_colours s' = pl_colours s" "pl_accepting s" "pl_floor s \<le> bl_round ball"
      "memory_of s' = replay sha256 (pl_colours s) (memory_of s) [(bl_round ball, bl_seq ball)]"
proof (cases "pl_last s = Some (bl_round ball, bl_seq ball) \<or> bl_round ball < pl_floor s \<or> \<not> pl_accepting s")
  case True
  then have "\<exists>why. res = Inl why \<and> s' = s" using assms by (auto simp: catch_ball_def split: if_splits)
  then show thesis using refused by blast
next
  case False
  then show thesis using assms by (auto simp: catch_ball_def memory_of_def Let_def intro!: caught)
qed

lemma handle_cases:
  assumes "handle sha256 urandom msg sh = (ans, reports, held, sh')"
  obtains (same) "same_memory sh sh'" "catches reports = []"
  | (assign) me where "assigned me sh sh'" "catches reports = []"
  | (catch) b where "stepped_by sha256 b sh sh'" "catches reports = [(b, player_proof (sh_state sh'))]"
proof (cases msg)
  case (Ball ball)
  show thesis
  proof (cases "pl_player (sh_state sh) = None \<or> bl_ring ball = []")
    case True
    then show thesis using assms Ball by (intro same) (auto simp: handle_def same_memory_def Let_def split: option.splits)
  next
    case False
    obtain res s' where c: "catch_ball sha256 ball (sh_state sh) = (res, s')" by fastforce
    from c show thesis
    proof (cases rule: catch_ball_cases)
      case refused
      then show thesis using assms Ball False c
        by (intro same) (auto simp: handle_def same_memory_def Let_def split: option.splits)
    next
      case caught
      then show thesis using assms Ball False c
        by (intro catch [of "(bl_round ball, bl_seq ball)"]) (auto simp: handle_def stepped_by_def Let_def)
    qed
  qed
next
  case (Assign me colours)
  show thesis
  proof (cases "sh_rx sh")
    case True
    then show thesis using assms Assign
      by (intro assign [of me]) (auto simp: handle_def assign_def assign_state_def assigned_def hello_def Let_def)
  next
    case False
    then show thesis using assms Assign
      by (intro same) (auto simp: handle_def assign_def same_memory_def Let_def)
  qed
qed (use assms in \<open>auto simp: handle_def same_memory_def memory_of_def Let_def intro!: same\<close>)

lemma end_hold_same: "end_hold me ball nxt sh = (throw, reports, sh') \<Longrightarrow> same_memory sh sh' \<and> catches reports = []"
  by (auto simp: end_hold_def same_memory_def memory_of_def Let_def split: if_splits)

definition player_inv :: "digest \<Rightarrow> shared \<times> catch list \<Rightarrow> bool" where
  "player_inv sha256 = (\<lambda>(sh, hist).
     let s = sh_state sh; balls = map fst hist in
     sh_rx sh = (pl_player s = None) \<and> (pl_player s = None \<longrightarrow> hist = []) \<and>
     pl_last s = (if hist = [] then None else Some (last balls)) \<and> distinct_adj balls \<and>
     (\<exists>first. memory_of s = replay sha256 (pl_colours s) (first, 0, CHAIN_ZERO) balls \<and>
        map snd hist = map (\<lambda>k. memory_proof (replay sha256 (pl_colours s) (first, 0, CHAIN_ZERO) (take (k + 1) balls)))
                         [0..<length hist]))"

lemma player_inv_new: "player_inv sha256 (shared_new colours, [])"
  by (simp add: player_inv_def shared_new_def player_new_def memory_of_def Let_def)

lemma player_inv_same: "player_inv sha256 (sh, hist) \<Longrightarrow> same_memory sh sh' \<Longrightarrow> player_inv sha256 (sh', hist)"
  by (simp add: player_inv_def same_memory_def Let_def)

lemma player_inv_assigned: "player_inv sha256 (sh, hist) \<Longrightarrow> assigned me sh sh' \<Longrightarrow> player_inv sha256 (sh', hist)"
  by (auto simp: player_inv_def assigned_def memory_of_def Let_def)

lemma player_inv_catch:
  assumes inv: "player_inv sha256 (sh, hist)" and st: "stepped_by sha256 b sh sh'"
  shows "player_inv sha256 (sh', hist @ [(b, player_proof (sh_state sh'))])"
proof -
  define colours where "colours = pl_colours (sh_state sh)"
  define balls where "balls = map fst hist"
  obtain first where m: "memory_of (sh_state sh) = replay sha256 colours (first, 0, CHAIN_ZERO) balls"
    and p: "map snd hist = map (\<lambda>k. memory_proof (replay sha256 colours (first, 0, CHAIN_ZERO) (take (k + 1) balls)))
              [0..<length hist]"
    using inv by (auto simp: player_inv_def colours_def balls_def Let_def)
  have m': "memory_of (sh_state sh') = replay sha256 colours (first, 0, CHAIN_ZERO) (balls @ [b])"
    using st m by (simp add: stepped_by_def colours_def replay_append)
  have len: "length balls = length hist" by (simp add: balls_def)
  have "map snd (hist @ [(b, player_proof (sh_state sh'))]) =
      map (\<lambda>k. memory_proof (replay sha256 colours (first, 0, CHAIN_ZERO) (take (k + 1) (balls @ [b]))))
        [0..<length (hist @ [(b, player_proof (sh_state sh'))])]"
    using p len by (simp add: player_proof_memory m')
  moreover have "distinct_adj (balls @ [b])"
    using inv st by (auto simp: player_inv_def stepped_by_def balls_def distinct_adj_append_iff Let_def split: if_splits)
  moreover have "pl_colours (sh_state sh') = colours" "sh_rx sh' = (pl_player (sh_state sh') = None)"
      "pl_player (sh_state sh') \<noteq> None" "pl_last (sh_state sh') = Some b"
    using inv st by (auto simp: player_inv_def stepped_by_def colours_def Let_def)
  ultimately show ?thesis
    using m' unfolding player_inv_def Let_def prod.case map_append list.map fst_conv balls_def [symmetric] by auto
qed

lemma player_step_inv: "player_step sha256 (sh, hist) w \<Longrightarrow> player_inv sha256 (sh, hist) \<Longrightarrow> player_inv sha256 w"
  by (elim player_stepE)
    (auto elim!: handle_cases dest!: end_hold_same intro: player_inv_same player_inv_assigned player_inv_catch)

interpretation player: kept_by_steps "player_step sha256" "player_inv sha256" for sha256
  by unfold_locales (auto intro: player_step_inv)

lemmas player_steps_inv = player.steps_keep

text \<open>
  Claim C38.  A player's memory is its history: whatever messages arrive and whenever its holds end, its
  colour, counter and chain are what replaying the balls it caught gives from the colour it was assigned,
  and the proof it reports with a catch is the one that replay gives after that catch.  The ball it caught
  last, sent again because its acknowledgement was lost, is acknowledged and nothing else: no report, no
  hold and no change of its state, so it never catches a ball twice in a row.
\<close>

theorem player_memory_is_history:
  assumes "(player_step sha256)\<^sup>*\<^sup>* (shared_new colours, []) (sh, hist)"
  shows "(\<exists>first. let m = (\<lambda>k. replay sha256 (pl_colours (sh_state sh)) (first, 0, CHAIN_ZERO) (take k (map fst hist))) in
       memory_of (sh_state sh) = m (length hist) \<and>
       map snd hist = map (\<lambda>k. memory_proof (m (k + 1))) [0..<length hist]) \<and>
    distinct_adj (map fst hist) \<and>
    (\<forall>urandom ball. hist \<noteq> [] \<and> fst (last hist) = (bl_round ball, bl_seq ball) \<and> bl_ring ball \<noteq> [] \<longrightarrow>
       handle sha256 urandom (Ball ball) sh = (Answer Reply_Ok, [], None, sh))"
proof -
  note inv = player_steps_inv [OF assms player_inv_new]
  have "handle sha256 urandom (Ball ball) sh = (Answer Reply_Ok, [], None, sh)"
    if "hist \<noteq> []" "fst (last hist) = (bl_round ball, bl_seq ball)" "bl_ring ball \<noteq> []" for urandom ball
  proof -
    have "pl_player (sh_state sh) \<noteq> None" "pl_last (sh_state sh) = Some (bl_round ball, bl_seq ball)"
      using inv that(1,2) by (auto simp: player_inv_def Let_def last_map)
    then show ?thesis using that(3) by (auto simp: handle_def catch_ball_def Let_def)
  qed
  then show ?thesis using inv by (auto simp: player_inv_def Let_def)
qed

definition demo_ball :: ball where
  "demo_ball = \<lparr>bl_round = 1, bl_seq = 0, bl_ring = [[97], [98]], bl_hold_ms = 1000, bl_shrink_permille = 100,
     bl_min_hold_ms = 50, bl_flight_ms = 500, bl_trail = []\<rparr>"

lemma demo_player:
  "\<exists>sh. (player_step sha256)\<^sup>*\<^sup>* (shared_new 12, [])
     (sh, [((1, 0), memory_proof (replay sha256 12 (0, 0, CHAIN_ZERO) [(1, 0)]))])"
proof -
  obtain sh1 where a: "handle sha256 [0, 0, 0, 0] (Assign 3 None) (shared_new 12) =
      (Answer Reply_Ok, [hello 3 (sh_state sh1) 1], None, sh1)"
    and s1: "pl_player (sh_state sh1) = Some 3" "memory_of (sh_state sh1) = (0, 0, CHAIN_ZERO)" "pl_last (sh_state sh1) = None"
      "pl_floor (sh_state sh1) = 0" "pl_accepting (sh_state sh1)" "pl_colours (sh_state sh1) = 12"
    by (simp add: handle_def assign_def assign_state_def shared_new_def player_new_def first_colour_def memory_of_def Let_def)
  obtain res s2 where c: "catch_ball sha256 demo_ball (sh_state sh1) = (res, s2)" by fastforce
  from c obtain colour pace where res: "res = Inr (colour, player_proof s2, pace)"
      and m: "memory_of s2 = replay sha256 12 (0, 0, CHAIN_ZERO) [(1, 0)]"
    using s1 c by (cases rule: catch_ball_cases) (auto simp: demo_ball_def catch_ball_def Let_def)
  have "player_step sha256 (shared_new 12, []) (sh1, [] @ catches [hello 3 (sh_state sh1) 1])"
    by (rule player_step.message [OF a])
  moreover have "player_step sha256 (sh1, []) (sh1\<lparr>sh_state := s2\<rparr>, [] @ catches [Report_Caught 3 1 0 (player_proof s2)])"
    using c res s1 by (intro player_step.message [where urandom = "[]" and msg = "Ball demo_ball"])
      (auto simp: handle_def Let_def demo_ball_def)
  ultimately have "(player_step sha256)\<^sup>*\<^sup>* (shared_new 12, []) (sh1\<lparr>sh_state := s2\<rparr>, [((1, 0), player_proof s2)])"
    by (simp add: hello_def)
  then show ?thesis unfolding player_proof_memory m by blast
qed

theorem player_memory_is_history_witness:
  "\<exists>sh hist. hist \<noteq> [] \<and> (player_step (\<lambda>m. m))\<^sup>*\<^sup>* (shared_new 12, []) (sh, hist) \<and> distinct_adj (map fst hist) \<and>
     handle (\<lambda>m. m) [] (Ball demo_ball) sh = (Answer Reply_Ok, [], None, sh)"
proof -
  obtain sh where r: "(player_step (\<lambda>m. m))\<^sup>*\<^sup>* (shared_new 12, [])
     (sh, [((1, 0), memory_proof (replay (\<lambda>m. m) 12 (0, 0, CHAIN_ZERO) [(1, 0)]))])" using demo_player by blast
  have "handle (\<lambda>m. m) [] (Ball demo_ball) sh = (Answer Reply_Ok, [], None, sh)"
    using player_memory_is_history [OF r] by (simp add: demo_ball_def)
  then show ?thesis using r by fastforce
qed

end
