(* ===== verification/Potato_Game.thy ===== *)
theory Potato_Game
  imports Potato_Player "HOL-Library.RBT" "HOL-Library.FSet" "HOL-Library.List_Lexorder"
begin

text \<open>
  The coordinator's side of the hot potato: \<open>fleet/core/src/potato.rs\<close>, the whole game.  A \<open>BTreeMap\<close>
  is a red-black tree, a \<open>BTreeSet\<close> a finite set, a string its bytes.  A reported duration (an \<open>f64\<close> of
  milliseconds) is an exact rational number; sizes, counters and times are natural numbers, whose sums
  are far below the width of their types.  An operation that can panic or loop returns an option, None
  standing for not returning.
\<close>

type_synonym ms = rat
type_synonym stages = "(bytes, ms) rbt"

definition empty_stages :: stages where "empty_stages = RBT.empty"

section \<open>Messages\<close>

record potato_round =
  pr_round :: nat
  pr_ring :: "nat list"
  pr_hold_ms :: nat
  pr_shrink_permille :: nat
  pr_min_hold_ms :: nat
  pr_flight_ms :: nat
  pr_colours :: u32
  pr_pace_ms :: "nat option"

datatype potato_kind =
    Hello potato_proof u32 nat "nat option" "nat option"
  | Caught nat nat potato_proof
  | Threw nat nat nat nat ms ms
  | Dropped nat nat nat nat bytes bytes ms
  | Slept ms stages "ms option"
  | Waking
  | Woke ms stages
  | Listening nat nat ms
  | Failed bytes bytes

record potato_event =
  ev_at :: nat
  ev_player :: nat
  ev_kind :: potato_kind

section \<open>Settings\<close>

record potato_config =
  cf_sizes :: "nat list"
  cf_budget_ms :: nat
  cf_start_floor_ms :: nat
  cf_shrink_permille :: nat
  cf_min_hold_ms :: nat
  cf_flight_ms :: nat
  cf_colours :: u32
  cf_restart_after_ms :: nat
  cf_report_slack_ms :: nat
  cf_faster_interval_ms :: nat
  cf_restart_interval_ms :: nat

definition config_default :: potato_config where
  "config_default =
     \<lparr>cf_sizes = [2, 4, 8, 16, 32, 64, 96], cf_budget_ms = 2000, cf_start_floor_ms = 400,
      cf_shrink_permille = 100, cf_min_hold_ms = 2, cf_flight_ms = 100, cf_colours = 12,
      cf_restart_after_ms = 5000, cf_report_slack_ms = 3000, cf_faster_interval_ms = 2000,
      cf_restart_interval_ms = 10000\<rparr>"

definition start_hold :: "potato_config \<Rightarrow> nat \<Rightarrow> nat" where
  "start_hold cfg n =
     max (max (cf_budget_ms cfg div max (n - 1) 1) (cf_start_floor_ms cfg)) (cf_min_hold_ms cfg)"

section \<open>State\<close>

record potato_drop =
  dr_at :: nat
  dr_round :: nat
  dr_size :: nat
  dr_reason :: bytes
  dr_player :: "nat option"
  dr_thrower :: "nat option"
  dr_seq :: nat
  dr_lap :: nat
  dr_hold_ms :: nat
  dr_stage :: bytes
  dr_stage_ms :: ms
  dr_listening_after_ms :: "ms option"
  dr_sleep_stages :: stages
  dr_wake_stages :: stages
  dr_detail :: bytes

record rung =
  rg_size :: nat
  rg_record_hold_ms :: "nat option"
  rg_record_at :: "nat option"
  rg_broke :: "potato_drop option"
  rg_rounds :: nat

definition rung_new :: "nat \<Rightarrow> rung" where
  "rung_new n = \<lparr>rg_size = n, rg_record_hold_ms = None, rg_record_at = None, rg_broke = None, rg_rounds = 0\<rparr>"

record potato_record =
  rc_value :: rat
  rc_size :: nat
  rc_player :: "nat option"
  rc_at :: nat

record potato_records =
  rs_fastest_cycle_ms :: "potato_record option"
  rs_longest_round :: "potato_record option"

record player_state =
  ps_colour :: u32
  ps_counter :: u64
  ps_chain :: bytes
  ps_phase :: bytes
  ps_since :: nat
  ps_last_sleep_ms :: "ms option"
  ps_last_wake_ms :: "ms option"
  ps_sleep_stages :: stages
  ps_wake_stages :: stages
  ps_ahead :: "potato_proof option"

record flight =
  fl_from :: nat
  fl_to :: nat
  fl_at :: nat

record round_state =
  rd_id :: nat
  rd_size :: nat
  rd_ring :: "nat list"
  rd_started_at :: nat
  rd_start_hold_ms :: nat
  rd_shrink_permille :: nat
  rd_min_hold_ms :: nat
  rd_flight_ms :: nat
  rd_colours :: u32
  rd_pace_ms :: "nat option"
  rd_seq :: "nat option"
  rd_holder :: "nat option"
  rd_last_catch_at :: "nat option"
  rd_flight :: "flight option"
  rd_best_lap_hold_ms :: "nat option"
  rd_verified_through :: "nat option"
  rd_verified_ahead :: "nat fset"
  rd_lap_holds :: "(nat, nat) rbt"

definition lap_hold :: "nat \<Rightarrow> round_state \<Rightarrow> nat" where
  "lap_hold laps r =
     ((\<lambda>h. let c = h * min (rd_shrink_permille r) 1000 div 1000 in max (h - c) (rd_min_hold_ms r)) ^^ min laps 10000)
       (rd_start_hold_ms r)"

definition round_lap :: "round_state \<Rightarrow> nat \<Rightarrow> nat" where
  "round_lap r seq = seq div max (length (rd_ring r)) 1"

definition hold_at :: "round_state \<Rightarrow> nat \<Rightarrow> nat" where
  "hold_at r seq =
     (let h = lap_hold (seq div max (length (rd_ring r)) 1) r
      in case rd_pace_ms r of Some p \<Rightarrow> min h (max p (rd_min_hold_ms r)) | None \<Rightarrow> h)"

definition deadline :: "round_state \<Rightarrow> nat \<Rightarrow> nat option" where
  "deadline r slack_ms = (case (rd_seq r, rd_last_catch_at r) of
     (Some seq, Some at) \<Rightarrow> Some (at + hold_at r seq + rd_flight_ms r + slack_ms)
   | _ \<Rightarrow> None)"

record potato =
  po_ladder :: "rung list"
  po_rung :: nat
  po_records :: potato_records
  po_round_count :: nat
  po_last_drop :: "potato_drop option"
  po_round :: "round_state option"
  po_players :: "(nat, player_state) rbt"
  po_host :: "bytes option"
  po_capacity :: nat
  po_next_round_at :: "nat option"
  po_last_faster_at :: "(bytes, nat) rbt"
  po_last_restart_at :: "(bytes, nat) rbt"

definition potato_default :: potato where
  "potato_default =
     \<lparr>po_ladder = [], po_rung = 0, po_records = \<lparr>rs_fastest_cycle_ms = None, rs_longest_round = None\<rparr>,
      po_round_count = 0, po_last_drop = None, po_round = None, po_players = RBT.empty, po_host = None,
      po_capacity = 0, po_next_round_at = None, po_last_faster_at = RBT.empty, po_last_restart_at = RBT.empty\<rparr>"

datatype potato_intent = Done | Refused bytes

section \<open>The ladder\<close>

fun update_first :: "('a \<Rightarrow> bool) \<Rightarrow> ('a \<Rightarrow> 'a) \<Rightarrow> 'a list \<Rightarrow> 'a list" where
  "update_first P f [] = []"
| "update_first P f (x # xs) = (if P x then f x # xs else x # update_first P f xs)"

definition add_rung :: "nat \<Rightarrow> rung list \<Rightarrow> rung list" where
  "add_rung n ladder = (if list_ex (\<lambda>r. rg_size r = n) ladder then ladder else ladder @ [rung_new n])"

definition ensure_ladder :: "potato_config \<Rightarrow> potato \<Rightarrow> potato" where
  "ensure_ladder cfg g =
     (let ladder = sort_key rg_size (fold add_rung (cf_sizes cfg) (po_ladder g))
      in g\<lparr>po_ladder := ladder, po_rung := (if length ladder \<le> po_rung g then 0 else po_rung g)\<rparr>)"

definition next_rung :: "nat \<Rightarrow> potato \<Rightarrow> nat" where
  "next_rung start g =
     (let n = length (po_ladder g)
      in if n = 0 then 0
         else case find (\<lambda>i. po_capacity g = 0 \<or> rg_size (po_ladder g ! i) \<le> po_capacity g)
                     (map (\<lambda>k. (start + k) mod n) [0..<n]) of
           Some i \<Rightarrow> i
         | None \<Rightarrow> start mod n)"

definition improve_record :: "nat \<Rightarrow> nat \<Rightarrow> rung \<Rightarrow> rung" where
  "improve_record h at g =
     (if (case rg_record_hold_ms g of None \<Rightarrow> True | Some old \<Rightarrow> h < old)
      then g\<lparr>rg_record_hold_ms := Some h, rg_record_at := Some at\<rparr> else g)"

section \<open>The end of a round\<close>

definition drop_rung :: "potato_drop \<Rightarrow> nat option \<Rightarrow> rung \<Rightarrow> rung" where
  "drop_rung d best g =
     (let g = g\<lparr>rg_rounds := rg_rounds g + 1, rg_broke := Some d\<rparr>
      in case best of None \<Rightarrow> g | Some h \<Rightarrow> improve_record h (dr_at d) g)"

definition count_catches :: "nat \<Rightarrow> round_state \<Rightarrow> potato_records \<Rightarrow> potato_records" where
  "count_catches at r rs =
     (let catches = (case rd_verified_through r of None \<Rightarrow> 0 | Some s \<Rightarrow> s + 1)
      in if 0 < catches \<and> (case rs_longest_round rs of None \<Rightarrow> True | Some old \<Rightarrow> rc_value old < of_nat catches)
         then rs\<lparr>rs_longest_round := Some \<lparr>rc_value = of_nat catches, rc_size = rd_size r, rc_player = None, rc_at = at\<rparr>\<rparr>
         else rs)"

definition drop_ball ::
  "nat \<Rightarrow> bytes \<Rightarrow> nat option \<Rightarrow> nat option \<Rightarrow> nat \<Rightarrow> bytes \<Rightarrow> ms \<Rightarrow> bytes \<Rightarrow> potato_config \<Rightarrow> potato \<Rightarrow> potato" where
  "drop_ball at reason who thrower seq stage stage_ms detail cfg g = (case po_round g of
     None \<Rightarrow> g
   | Some r \<Rightarrow>
       let g = g\<lparr>po_round := None\<rparr>;
           known = (case who of Some p \<Rightarrow> RBT.lookup (po_players g) p | None \<Rightarrow> None);
           (sleep_stages, wake_stages) =
             (case known of Some p \<Rightarrow> (ps_sleep_stages p, ps_wake_stages p) | None \<Rightarrow> (empty_stages, empty_stages));
           d = \<lparr>dr_at = at, dr_round = rd_id r, dr_size = rd_size r, dr_reason = reason, dr_player = who,
                dr_thrower = thrower, dr_seq = seq, dr_lap = round_lap r seq, dr_hold_ms = hold_at r seq,
                dr_stage = stage, dr_stage_ms = stage_ms, dr_listening_after_ms = None,
                dr_sleep_stages = sleep_stages, dr_wake_stages = wake_stages, dr_detail = detail\<rparr>;
           g = g\<lparr>po_ladder := update_first (\<lambda>x. rg_size x = rd_size r) (drop_rung d (rd_best_lap_hold_ms r)) (po_ladder g)\<rparr>;
           g = g\<lparr>po_records := count_catches at r (po_records g)\<rparr>;
           g = g\<lparr>po_last_drop := Some d\<rparr>;
           g = g\<lparr>po_rung := next_rung (po_rung g + 1) g\<rparr>
       in g\<lparr>po_next_round_at := Some (at + cf_restart_after_ms cfg)\<rparr>)"

section \<open>Agents and ticks\<close>

definition resumed :: "potato \<Rightarrow> potato" where
  "resumed g = g\<lparr>po_round := None, po_players := RBT.empty, po_host := None, po_capacity := 0, po_next_round_at := None\<rparr>"

definition agent_gone :: "bytes \<Rightarrow> nat \<Rightarrow> potato_config \<Rightarrow> potato \<Rightarrow> potato" where
  "agent_gone host at cfg g =
     (if po_host g \<noteq> Some host then g
      else let g = (case po_round g of
                 None \<Rightarrow> g
               | Some r \<Rightarrow>
                   (drop_ball at (ascii ''host_gone'') None None (case rd_seq r of Some s \<Rightarrow> s | None \<Rightarrow> 0)
                      (ascii ''host'') 0 (ascii ''the host running the players disconnected'') cfg g)
                   \<lparr>po_rung := po_rung g\<rparr>)
           in g\<lparr>po_round := None, po_players := RBT.empty, po_host := None, po_capacity := 0, po_next_round_at := None\<rparr>)"

definition end_quietly :: "potato \<Rightarrow> potato" where
  "end_quietly g = g\<lparr>po_round := None\<rparr>"

definition agent_hello :: "bytes \<Rightarrow> nat \<Rightarrow> nat \<Rightarrow> potato_config \<Rightarrow> potato \<Rightarrow> potato" where
  "agent_hello host players at cfg g =
     (if players = 0 then if po_host g = Some host then agent_gone host at cfg g else g
      else if po_host g \<noteq> None \<and> po_host g \<noteq> Some host then g
      else let g = (if po_host g \<noteq> None then end_quietly g else g);
               g = ensure_ladder cfg g
           in g\<lparr>po_host := Some host, po_capacity := players, po_players := RBT.empty, po_next_round_at := Some (at + 1000)\<rparr>)"

definition order_of :: "potato \<Rightarrow> potato_round option" where
  "order_of g = map_option (\<lambda>r.
     \<lparr>pr_round = rd_id r, pr_ring = rd_ring r, pr_hold_ms = rd_start_hold_ms r,
      pr_shrink_permille = rd_shrink_permille r, pr_min_hold_ms = rd_min_hold_ms r,
      pr_flight_ms = rd_flight_ms r, pr_colours = rd_colours r, pr_pace_ms = rd_pace_ms r\<rparr>) (po_round g)"

definition new_round :: "nat \<Rightarrow> nat \<Rightarrow> nat \<Rightarrow> potato_config \<Rightarrow> round_state" where
  "new_round ident n at cfg =
     \<lparr>rd_id = ident, rd_size = n, rd_ring = [0..<n], rd_started_at = at, rd_start_hold_ms = start_hold cfg n,
      rd_shrink_permille = cf_shrink_permille cfg, rd_min_hold_ms = cf_min_hold_ms cfg,
      rd_flight_ms = cf_flight_ms cfg, rd_colours = cf_colours cfg, rd_pace_ms = None, rd_seq = None,
      rd_holder = None, rd_last_catch_at = None, rd_flight = None, rd_best_lap_hold_ms = None,
      rd_verified_through = None, rd_verified_ahead = {||}, rd_lap_holds = RBT.empty\<rparr>"

text \<open>A tick while a round is played.  Taking the next catcher of an empty ring divides by zero: a panic.\<close>

definition tick_round :: "nat \<Rightarrow> potato_config \<Rightarrow> round_state \<Rightarrow> potato \<Rightarrow> potato option" where
  "tick_round at cfg r g = (case deadline r (cf_report_slack_ms cfg) of
     Some limit \<Rightarrow>
       if limit < at then
         let seq = (case rd_seq r of Some s \<Rightarrow> s | None \<Rightarrow> 0)
         in if rd_ring r = [] then None
            else Some (drop_ball at (ascii ''deadline'') (Some (rd_ring r ! ((seq + 1) mod length (rd_ring r))))
                   (rd_holder r) (seq + 1) (ascii ''report'') (of_nat (at - limit))
                   (ascii ''no catch reported '' @ to_decimal (at - limit + cf_report_slack_ms cfg)
                      @ ascii '' ms after the ball's deadline'') cfg g)
       else Some g
   | None \<Rightarrow>
       if rd_started_at r + 120000 < at then
         Some (drop_ball at (ascii ''deadline'') (case rd_ring r of p # _ \<Rightarrow> Some p | [] \<Rightarrow> None) None 0
                (ascii ''start'') (of_nat (at - rd_started_at r))
                (ascii ''the round's first catch was not reported within 120 s'') cfg g)
       else Some g)"

definition tick :: "nat \<Rightarrow> bool \<Rightarrow> potato_config \<Rightarrow> potato \<Rightarrow> potato option" where
  "tick at awake cfg g = (case po_round g of
     Some r \<Rightarrow> tick_round at cfg r g
   | None \<Rightarrow>
       let due = (case po_next_round_at g of Some t \<Rightarrow> t \<le> at | None \<Rightarrow> False)
       in if \<not> due \<or> \<not> awake \<or> po_host g = None \<or> po_capacity g < 2 then Some g
          else let g = ensure_ladder cfg g; n = length (po_ladder g)
               in case find (\<lambda>i. rg_size (po_ladder g ! i) \<le> po_capacity g)
                         (map (\<lambda>k. (po_rung g + k) mod n) [0..<n]) of
                    None \<Rightarrow> Some g
                  | Some i \<Rightarrow>
                      let m = rg_size (po_ladder g ! i); count = po_round_count g + 1
                      in Some (g\<lparr>po_rung := i, po_round_count := count,
                                 po_round := Some (new_round count m at cfg), po_next_round_at := None\<rparr>))"

section \<open>Events\<close>

definition stepped :: "digest \<Rightarrow> player_state \<Rightarrow> nat \<Rightarrow> nat \<Rightarrow> u32 \<Rightarrow> (u32 \<times> bytes) option" where
  "stepped sha256 prev rnd seq colours = (case chain_from_hex (ps_chain prev) of
     None \<Rightarrow> None
   | Some ch \<Rightarrow>
       let colour = next_colour (ps_colour prev) colours
       in Some (colour, chain_hex (chain_step sha256 ch rnd seq colour)))"

text \<open>Whether a proof is the step of what is known of the player.\<close>

definition proof_steps :: "(u32 \<times> bytes) option \<Rightarrow> player_state \<Rightarrow> potato_proof \<Rightarrow> bool" where
  "proof_steps expected p proof = (case expected of
     None \<Rightarrow> False
   | Some (colour, ch) \<Rightarrow> colour = pf_colour proof \<and> ch = pf_chain proof \<and> pf_counter proof = ps_counter p + 1)"

definition take_proof :: "potato_proof \<Rightarrow> player_state \<Rightarrow> player_state" where
  "take_proof proof p = p\<lparr>ps_colour := pf_colour proof, ps_counter := pf_counter proof, ps_chain := pf_chain proof\<rparr>"

definition player_fresh :: "potato_proof \<Rightarrow> nat \<Rightarrow> player_state" where
  "player_fresh proof at =
     \<lparr>ps_colour = pf_colour proof, ps_counter = pf_counter proof, ps_chain = pf_chain proof,
      ps_phase = ascii ''awake'', ps_since = at, ps_last_sleep_ms = None, ps_last_wake_ms = None,
      ps_sleep_stages = empty_stages, ps_wake_stages = empty_stages, ps_ahead = None\<rparr>"

definition in_ring :: "nat \<Rightarrow> potato \<Rightarrow> bool" where
  "in_ring who g = (case po_round g of None \<Rightarrow> False | Some r \<Rightarrow> who \<in> set (rd_ring r))"

definition current_seq :: "potato \<Rightarrow> nat" where
  "current_seq g = (case po_round g of
     None \<Rightarrow> 0
   | Some r \<Rightarrow> (case rd_seq r of None \<Rightarrow> 0 | Some s \<Rightarrow> s))"

definition insert_player :: "nat \<Rightarrow> player_state \<Rightarrow> potato \<Rightarrow> potato" where
  "insert_player who p g = g\<lparr>po_players := RBT.insert who p (po_players g)\<rparr>"

definition event_hello ::
  "digest \<Rightarrow> nat \<Rightarrow> potato_proof \<Rightarrow> u32 \<Rightarrow> nat \<Rightarrow> nat option \<Rightarrow> nat option \<Rightarrow> nat \<Rightarrow> potato_config \<Rightarrow> potato \<Rightarrow> potato" where
  "event_hello sha256 who proof c connections last_round last_seq at cfg g =
     (let fresh = (connections = 1 \<and> pf_counter proof = 0)
      in case (if fresh then None else RBT.lookup (po_players g) who) of
        None \<Rightarrow> insert_player who (player_fresh proof at) g
      | Some p \<Rightarrow>
          let same = (ps_colour p = pf_colour proof \<and> ps_counter p = pf_counter proof \<and> ps_chain p = pf_chain proof);
              ahead = (case (last_round, last_seq) of
                         (Some r, Some s) \<Rightarrow> proof_steps (stepped sha256 p r s c) p proof
                       | _ \<Rightarrow> False)
          in if ahead then insert_player who (p\<lparr>ps_ahead := Some proof\<rparr>) g
             else if same then g
             else let detail = ascii ''woke with colour '' @ to_decimal (unat (pf_colour proof)) @ ascii '' and ''
                        @ to_decimal (unat (pf_counter proof)) @ ascii '' catches; it slept with colour ''
                        @ to_decimal (unat (ps_colour p)) @ ascii '' and '' @ to_decimal (unat (ps_counter p));
                      ring = in_ring who g;
                      g = insert_player who (take_proof proof p) g
                  in if ring
                     then drop_ball at (ascii ''proof'') (Some who) None (current_seq g) (ascii ''proof'') 0 detail cfg g
                     else g)"

text \<open>The catches verified without a gap, and the laps they complete.\<close>

partial_function (option) drain ::
  "nat \<Rightarrow> nat option \<Rightarrow> nat fset \<Rightarrow> nat list \<Rightarrow> (nat option \<times> nat fset \<times> nat list) option" where
  "drain n through ahead completed =
     (let nxt = (case through of None \<Rightarrow> 0 | Some v \<Rightarrow> v + 1)
      in if nxt |\<notin>| ahead then Some (through, ahead, completed)
         else drain n (Some nxt) (ahead |-| {|nxt|})
                (if (nxt + 1) mod n = 0 then completed @ [nxt div n] else completed))"

definition credit_lap :: "nat \<Rightarrow> nat \<Rightarrow> round_state \<times> rung list \<Rightarrow> round_state \<times> rung list" where
  "credit_lap at l = (\<lambda>(r, ladder). case RBT.lookup (rd_lap_holds r) l of
     None \<Rightarrow> (r, ladder)
   | Some h \<Rightarrow>
       (if (case rd_best_lap_hold_ms r of None \<Rightarrow> True | Some b \<Rightarrow> h < b) then r\<lparr>rd_best_lap_hold_ms := Some h\<rparr> else r,
        update_first (\<lambda>x. rg_size x = rd_size r) (improve_record h at) ladder))"

text \<open>A catch whose proof is right: its lap's longest hold, the verified catches, the laps completed.\<close>

definition verify_catch :: "nat \<Rightarrow> nat \<Rightarrow> round_state \<Rightarrow> rung list \<Rightarrow> (round_state \<times> rung list) option" where
  "verify_catch seq at r ladder =
     (let n = length (rd_ring r); lap = round_lap r seq; hold = hold_at r seq;
          longest = (case RBT.lookup (rd_lap_holds r) lap of None \<Rightarrow> hold | Some h \<Rightarrow> h);
          r = r\<lparr>rd_lap_holds := RBT.insert lap (max longest hold) (rd_lap_holds r)\<rparr>
      in case drain n (rd_verified_through r) (finsert seq (rd_verified_ahead r)) [] of
           None \<Rightarrow> None
         | Some (through, ahead, completed) \<Rightarrow>
             Some (fold (credit_lap at) completed
                    (r\<lparr>rd_verified_through := through, rd_verified_ahead := ahead\<rparr>, ladder)))"

definition newest_catch :: "nat \<Rightarrow> nat \<Rightarrow> nat \<Rightarrow> round_state \<Rightarrow> round_state" where
  "newest_catch who seq at r =
     (if (case rd_seq r of None \<Rightarrow> True | Some s \<Rightarrow> s \<le> seq)
      then r\<lparr>rd_seq := Some seq, rd_holder := Some who, rd_last_catch_at := Some at, rd_flight := None\<rparr> else r)"

definition event_caught ::
  "digest \<Rightarrow> nat \<Rightarrow> nat \<Rightarrow> nat \<Rightarrow> potato_proof \<Rightarrow> u32 \<Rightarrow> nat \<Rightarrow> potato_config \<Rightarrow> potato \<Rightarrow> potato option" where
  "event_caught sha256 who rnd seq proof colours at cfg g = (case RBT.lookup (po_players g) who of
     None \<Rightarrow> Some g
   | Some p \<Rightarrow>
       let expected = stepped sha256 p rnd seq colours;
           ok = (proof_steps expected p proof \<and> (case ps_ahead p of None \<Rightarrow> True | Some a \<Rightarrow> a = proof));
           g = insert_player who ((take_proof proof p)\<lparr>ps_ahead := None\<rparr>) g
       in case po_round g of
            None \<Rightarrow> Some g
          | Some r \<Rightarrow>
              if rd_id r \<noteq> rnd then Some g
              else if \<not> ok then
                let detail = (case expected of
                      Some (colour, _) \<Rightarrow> ascii ''caught with colour '' @ to_decimal (unat (pf_colour proof))
                        @ ascii '' where '' @ to_decimal (unat colour) @ ascii '' was due''
                    | None \<Rightarrow> ascii ''its chain is not hex'')
                in Some (drop_ball at (ascii ''proof'') (Some who) None seq (ascii ''proof'') 0 detail cfg g)
              else case verify_catch seq at r (po_ladder g) of
                None \<Rightarrow> None
              | Some (r, ladder) \<Rightarrow> Some (g\<lparr>po_ladder := ladder, po_round := Some (newest_catch who seq at r)\<rparr>))"

definition set_phase :: "string \<Rightarrow> nat \<Rightarrow> player_state \<Rightarrow> player_state" where
  "set_phase phase at p = p\<lparr>ps_phase := ascii phase, ps_since := at\<rparr>"

definition update_player :: "nat \<Rightarrow> (player_state \<Rightarrow> player_state) \<Rightarrow> potato \<Rightarrow> potato" where
  "update_player who f g = g\<lparr>po_players := RBT.map_entry who f (po_players g)\<rparr>"

definition event_threw :: "nat \<Rightarrow> nat \<Rightarrow> nat \<Rightarrow> nat \<Rightarrow> potato \<Rightarrow> potato" where
  "event_threw who rnd recipient at g =
     (let g = update_player who (set_phase ''sleeping'' at) g
      in g\<lparr>po_round := map_option (\<lambda>r. if rd_id r = rnd
             then r\<lparr>rd_flight := Some \<lparr>fl_from = who, fl_to = recipient, fl_at = at\<rparr>\<rparr> else r) (po_round g)\<rparr>)"

definition event_dropped ::
  "nat \<Rightarrow> nat \<Rightarrow> nat \<Rightarrow> nat \<Rightarrow> nat \<Rightarrow> bytes \<Rightarrow> bytes \<Rightarrow> ms \<Rightarrow> nat \<Rightarrow> potato_config \<Rightarrow> potato \<Rightarrow> potato" where
  "event_dropped who rnd seq recipient attempts reason catcher_phase catcher_phase_ms at cfg g = (case po_round g of
     None \<Rightarrow> g
   | Some r \<Rightarrow>
       if rd_id r \<noteq> rnd then g
       else drop_ball at (ascii ''not_listening'') (Some recipient) (Some who) seq catcher_phase catcher_phase_ms
              (ascii ''player '' @ to_decimal recipient @ ascii '' was '' @ catcher_phase @ ascii '' when player ''
                 @ to_decimal who @ ascii '' threw ('' @ to_decimal attempts @ ascii '' tries in ''
                 @ to_decimal (rd_flight_ms r) @ ascii '' ms: '' @ reason @ ascii '')'') cfg g)"

definition event_listening :: "nat \<Rightarrow> nat \<Rightarrow> ms \<Rightarrow> potato \<Rightarrow> potato" where
  "event_listening rnd seq after_ms g =
     (let heard = (\<lambda>d. d\<lparr>dr_listening_after_ms := Some after_ms\<rparr>)
      in g\<lparr>po_last_drop := map_option (\<lambda>d. if dr_round d = rnd \<and> dr_seq d = seq then heard d else d) (po_last_drop g),
           po_ladder := update_first (\<lambda>x. case rg_broke x of None \<Rightarrow> False | Some d \<Rightarrow> dr_round d = rnd)
             (\<lambda>x. x\<lparr>rg_broke := map_option heard (rg_broke x)\<rparr>) (po_ladder g)\<rparr>)"

definition event_slept :: "nat \<Rightarrow> ms \<Rightarrow> stages \<Rightarrow> nat \<Rightarrow> potato \<Rightarrow> potato" where
  "event_slept who sleep_ms stages at g = update_player who
     (\<lambda>p. (set_phase ''asleep'' at p)\<lparr>ps_last_sleep_ms := Some sleep_ms, ps_sleep_stages := stages\<rparr>) g"

text \<open>A duration rounded to a tenth, halves away from zero.\<close>

definition tenths :: "ms \<Rightarrow> ms" where
  "tenths x = of_int (if 0 \<le> x then \<lfloor>x * 10 + 1 / 2\<rfloor> else \<lceil>x * 10 - 1 / 2\<rceil>) / 10"

definition count_cycle :: "nat \<Rightarrow> nat \<Rightarrow> nat \<Rightarrow> ms \<Rightarrow> potato_records \<Rightarrow> potato_records" where
  "count_cycle who n at cycle rs =
     (if (case rs_fastest_cycle_ms rs of None \<Rightarrow> True | Some r \<Rightarrow> cycle < rc_value r)
      then rs\<lparr>rs_fastest_cycle_ms := Some \<lparr>rc_value = tenths cycle, rc_size = n, rc_player = Some who, rc_at = at\<rparr>\<rparr>
      else rs)"

definition event_woke :: "nat \<Rightarrow> ms \<Rightarrow> stages \<Rightarrow> nat \<Rightarrow> potato \<Rightarrow> potato" where
  "event_woke who wake_ms stages at g = (case RBT.lookup (po_players g) who of
     None \<Rightarrow> g
   | Some p \<Rightarrow>
       let awake = (if ps_phase p \<noteq> ascii ''sleeping'' then set_phase ''awake'' at p else p);
           records = (case (ps_last_sleep_ms p, po_round g, in_ring who g) of
               (Some sleep, Some r, True) \<Rightarrow> count_cycle who (rd_size r) at (sleep + wake_ms) (po_records g)
             | _ \<Rightarrow> po_records g)
       in (insert_player who (awake\<lparr>ps_last_wake_ms := Some wake_ms, ps_wake_stages := stages\<rparr>) g)
          \<lparr>po_records := records\<rparr>)"

definition event_failed :: "nat \<Rightarrow> bytes \<Rightarrow> bytes \<Rightarrow> nat \<Rightarrow> potato_config \<Rightarrow> potato \<Rightarrow> potato" where
  "event_failed who stage err at cfg g =
     (let g = update_player who (set_phase ''failed'' at) g
      in if in_ring who g
         then drop_ball at (stage @ ascii ''_failed'') (Some who) None (current_seq g) stage 0 err cfg g
         else g)"

definition event :: "digest \<Rightarrow> bytes \<Rightarrow> potato_event \<Rightarrow> nat \<Rightarrow> potato_config \<Rightarrow> potato \<Rightarrow> potato option" where
  "event sha256 host e at cfg g =
     (if po_host g \<noteq> Some host then Some g
      else let colours = (case po_round g of None \<Rightarrow> cf_colours cfg | Some r \<Rightarrow> rd_colours r); who = ev_player e
           in case ev_kind e of
             Hello proof c connections last_round last_seq \<Rightarrow>
               Some (event_hello sha256 who proof c connections last_round last_seq at cfg g)
           | Caught rnd seq proof \<Rightarrow> event_caught sha256 who rnd seq proof colours at cfg g
           | Threw rnd seq recipient attempts wait_ms send_ms \<Rightarrow> Some (event_threw who rnd recipient at g)
           | Dropped rnd seq recipient attempts reason catcher_phase catcher_phase_ms \<Rightarrow>
               Some (event_dropped who rnd seq recipient attempts reason catcher_phase catcher_phase_ms at cfg g)
           | Listening rnd seq after_ms \<Rightarrow> Some (event_listening rnd seq after_ms g)
           | Slept sleep_ms stages written_mib \<Rightarrow> Some (event_slept who sleep_ms stages at g)
           | Waking \<Rightarrow> Some (update_player who (set_phase ''waking'' at) g)
           | Woke wake_ms stages \<Rightarrow> Some (event_woke who wake_ms stages at g)
           | Failed stage err \<Rightarrow> Some (event_failed who stage err at cfg g))"

section \<open>Viewers\<close>

definition faster :: "bytes \<Rightarrow> nat \<Rightarrow> potato_config \<Rightarrow> potato \<Rightarrow> potato_intent \<times> potato" where
  "faster client at cfg g = (case po_round g of
     None \<Rightarrow> (Refused (ascii ''no round is being played''), g)
   | Some r \<Rightarrow>
       if (case RBT.lookup (po_last_faster_at g) client of None \<Rightarrow> False | Some t \<Rightarrow> at < t + cf_faster_interval_ms cfg)
       then (Refused (ascii ''one faster every 2 s''), g)
       else let now = hold_at r (case rd_seq r of Some s \<Rightarrow> s | None \<Rightarrow> 0)
            in if now \<le> rd_min_hold_ms r then (Refused (ascii ''the hold is at its floor''), g)
               else (Done, g\<lparr>po_round := Some (r\<lparr>rd_pace_ms := Some (max (now - now div 5) (rd_min_hold_ms r))\<rparr>),
                             po_last_faster_at := RBT.insert client at (po_last_faster_at g)\<rparr>))"

definition restart :: "bytes \<Rightarrow> nat \<Rightarrow> potato_config \<Rightarrow> potato \<Rightarrow> potato_intent \<times> potato" where
  "restart client at cfg g =
     (if (case RBT.lookup (po_last_restart_at g) client of None \<Rightarrow> False | Some t \<Rightarrow> at < t + cf_restart_interval_ms cfg)
      then (Refused (ascii ''one restart every 10 s''), g)
      else case (case po_round g of
                   Some r \<Rightarrow> if at < rd_started_at r + cf_restart_interval_ms cfg
                             then Some (ascii ''the round has only just started'') else None
                 | None \<Rightarrow> if po_host g = None then Some (ascii ''no players are running'') else None) of
             Some why \<Rightarrow> (Refused why, g)
           | None \<Rightarrow> (Done, g\<lparr>po_round := None, po_next_round_at := Some (at + 1000),
                             po_last_restart_at := RBT.insert client at (po_last_restart_at g)\<rparr>))"

section \<open>The page's view\<close>

record round_view =
  rv_id :: nat
  rv_size :: nat
  rv_ring :: "nat list"
  rv_started_at :: nat
  rv_seq :: "nat option"
  rv_lap :: nat
  rv_hold_ms :: nat
  rv_start_hold_ms :: nat
  rv_min_hold_ms :: nat
  rv_flight_ms :: nat
  rv_pace_ms :: "nat option"
  rv_turnaround_ms :: nat
  rv_holder :: "nat option"
  rv_last_catch_at :: "nat option"
  rv_flight :: "flight option"
  rv_best_lap_hold_ms :: "nat option"

record player_view =
  pv_player :: nat
  pv_colour :: u32
  pv_counter :: u64
  pv_phase :: bytes
  pv_since :: nat
  pv_last_sleep_ms :: "ms option"
  pv_last_wake_ms :: "ms option"

record potato_view =
  vw_ladder :: "rung list"
  vw_size :: "nat option"
  vw_round :: "round_view option"
  vw_players :: "player_view list"
  vw_records :: potato_records
  vw_last_drop :: "potato_drop option"
  vw_next_round_at :: "nat option"
  vw_colours :: u32
  vw_capacity :: nat

definition round_view_of :: "round_state \<Rightarrow> round_view" where
  "round_view_of r =
     (let seq = (case rd_seq r of Some s \<Rightarrow> s | None \<Rightarrow> 0); hold = hold_at r seq
      in \<lparr>rv_id = rd_id r, rv_size = rd_size r, rv_ring = rd_ring r, rv_started_at = rd_started_at r,
          rv_seq = rd_seq r, rv_lap = round_lap r seq, rv_hold_ms = hold, rv_start_hold_ms = rd_start_hold_ms r,
          rv_min_hold_ms = rd_min_hold_ms r, rv_flight_ms = rd_flight_ms r, rv_pace_ms = rd_pace_ms r,
          rv_turnaround_ms = hold * (rd_size r - 1), rv_holder = rd_holder r,
          rv_last_catch_at = rd_last_catch_at r, rv_flight = rd_flight r,
          rv_best_lap_hold_ms = rd_best_lap_hold_ms r\<rparr>)"

definition player_view_of :: "nat \<times> player_state \<Rightarrow> player_view" where
  "player_view_of = (\<lambda>(n, p).
     \<lparr>pv_player = n, pv_colour = ps_colour p, pv_counter = ps_counter p, pv_phase = ps_phase p,
      pv_since = ps_since p, pv_last_sleep_ms = ps_last_sleep_ms p, pv_last_wake_ms = ps_last_wake_ms p\<rparr>)"

definition view :: "potato_config \<Rightarrow> potato \<Rightarrow> potato_view option" where
  "view cfg g =
     (if po_host g = None \<and> po_ladder g = [] then None
      else Some \<lparr>vw_ladder = po_ladder g,
        vw_size = (case po_round g of
                     Some r \<Rightarrow> Some (rd_size r)
                   | None \<Rightarrow> if po_rung g < length (po_ladder g) then Some (rg_size (po_ladder g ! po_rung g)) else None),
        vw_round = map_option round_view_of (po_round g),
        vw_players = map player_view_of (RBT.entries (po_players g)),
        vw_records = po_records g, vw_last_drop = po_last_drop g, vw_next_round_at = po_next_round_at g,
        vw_colours = (case po_round g of None \<Rightarrow> cf_colours cfg | Some r \<Rightarrow> rd_colours r),
        vw_capacity = po_capacity g\<rparr>)"

end
