(* ===== verification/Potato_Invariant.thy ===== *)
theory Potato_Invariant
  imports Potato_Game
begin

text \<open>
  What holds of the coordinator's game in every state it can reach: the loop over verified catches ends
  and keeps exactly the catches without a gap, no operation panics, a size's record is the hold of a lap
  whose catches were all verified and only ever improves, reports of another round change nothing.
\<close>

section \<open>The ladder as a map\<close>

definition rung_of :: "rung list \<Rightarrow> nat \<rightharpoonup> rung" where
  "rung_of ladder = map_of (map (\<lambda>x. (rg_size x, x)) ladder)"

definition sizes_of :: "rung list \<Rightarrow> nat set" where
  "sizes_of ladder = rg_size ` set ladder"

definition record_of :: "rung list \<Rightarrow> nat \<Rightarrow> nat option" where
  "record_of ladder n = Option.bind (rung_of ladder n) rg_record_hold_ms"

definition improved :: "nat option \<Rightarrow> nat \<Rightarrow> nat option" where
  "improved old h = (case old of None \<Rightarrow> Some h | Some r \<Rightarrow> if h < r then Some h else Some r)"

lemma record_of_Nil [simp]: "record_of [] n = None"
  by (simp add: record_of_def rung_of_def)

lemma record_of_Cons: "record_of (x # xs) n = (if n = rg_size x then rg_record_hold_ms x else record_of xs n)"
  by (simp add: record_of_def rung_of_def)

lemma sizes_of_update_first:
  "(\<And>x. rg_size (f x) = rg_size x) \<Longrightarrow> map rg_size (update_first P f xs) = map rg_size xs"
  by (induction xs) simp_all

lemma sizes_of_map: "sizes_of ladder = set (map rg_size ladder)"
  by (simp add: sizes_of_def)

lemma record_of_update_size:
  assumes "\<And>x. rg_size (f x) = rg_size x"
  shows "record_of (update_first (\<lambda>x. rg_size x = m) f xs) =
    (case rung_of xs m of None \<Rightarrow> record_of xs | Some x \<Rightarrow> (record_of xs)(m := rg_record_hold_ms (f x)))"
  by (induction xs) (auto simp: fun_eq_iff record_of_Cons rung_of_def assms split: option.splits)

lemma record_of_update_other:
  assumes "\<And>x. rg_size (f x) = rg_size x" "\<And>x. rg_record_hold_ms (f x) = rg_record_hold_ms x"
  shows "record_of (update_first P f xs) = record_of xs"
  by (induction xs) (auto simp: fun_eq_iff record_of_Cons assms)

lemma rung_of_None_iff: "rung_of xs m = None \<longleftrightarrow> m \<notin> sizes_of xs"
  by (simp add: rung_of_def sizes_of_def map_of_eq_None_iff image_image)

lemma record_of_None: "m \<notin> sizes_of xs \<Longrightarrow> record_of xs m = None"
  by (simp add: record_of_def flip: rung_of_None_iff)

lemma record_of_rung: "rung_of xs m = Some x \<Longrightarrow> record_of xs m = rg_record_hold_ms x"
  by (simp add: record_of_def)

lemma improve_record_simps [simp]:
  "rg_size (improve_record h at x) = rg_size x"
  "rg_record_hold_ms (improve_record h at x) = improved (rg_record_hold_ms x) h"
  by (auto simp: improve_record_def improved_def split: option.splits)

lemma drop_rung_simps [simp]:
  "rg_size (drop_rung d best x) = rg_size x"
  "rg_record_hold_ms (drop_rung d best x) =
     (case best of None \<Rightarrow> rg_record_hold_ms x | Some h \<Rightarrow> improved (rg_record_hold_ms x) h)"
  by (simp_all add: drop_rung_def Let_def split: option.splits)

text \<open>Improving a size's record, where the ladder has the size.\<close>

lemma record_of_improve:
  "m \<in> sizes_of xs \<Longrightarrow> record_of (update_first (\<lambda>x. rg_size x = m) (improve_record h at) xs) =
     (record_of xs)(m := improved (record_of xs m) h)"
  by (simp add: record_of_update_size split: option.split)
    (auto simp: record_of_rung rung_of_None_iff)

lemma record_of_drop:
  "record_of (update_first (\<lambda>x. rg_size x = m) (drop_rung d best) xs) =
     (if m \<in> sizes_of xs then case best of None \<Rightarrow> record_of xs | Some h \<Rightarrow> (record_of xs)(m := improved (record_of xs m) h)
      else record_of xs)"
  using rung_of_None_iff [of xs m]
  by (cases "rung_of xs m") (auto simp: record_of_update_size record_of_rung fun_upd_idem split: option.split)

section \<open>Building the ladder\<close>

lemma add_rung_sizes: "sizes_of (add_rung n xs) = insert n (sizes_of xs)"
  by (auto simp: add_rung_def sizes_of_def list_ex_iff rung_new_def)

lemma add_rung_distinct: "distinct (map rg_size xs) \<Longrightarrow> distinct (map rg_size (add_rung n xs))"
  by (auto simp: add_rung_def list_ex_iff rung_new_def)

lemma record_of_append: "record_of (xs @ ys) n = (if n \<in> sizes_of xs then record_of xs n else record_of ys n)"
  by (induction xs) (auto simp: record_of_Cons sizes_of_def)

lemma add_rung_record: "record_of (add_rung n xs) = record_of xs"
  by (auto simp: add_rung_def record_of_append record_of_Cons rung_new_def record_of_None fun_eq_iff)

lemma fold_add_rung:
  "distinct (map rg_size xs) \<Longrightarrow>
     distinct (map rg_size (fold add_rung ns xs)) \<and> sizes_of (fold add_rung ns xs) = set ns \<union> sizes_of xs \<and>
     record_of (fold add_rung ns xs) = record_of xs"
  by (induction ns arbitrary: xs) (auto simp: add_rung_distinct add_rung_sizes add_rung_record)

lemma sort_ladder_distinct: "distinct (map rg_size (sort_key rg_size xs)) \<longleftrightarrow> distinct (map rg_size xs)"
  by (metis distinct_map distinct_sort set_sort)

lemma sort_ladder_record:
  assumes "distinct (map rg_size xs)"
  shows "record_of (sort_key rg_size xs) = record_of xs"
proof -
  have "rung_of (sort_key rg_size xs) = rung_of xs"
    unfolding rung_of_def using assms sort_ladder_distinct [of xs]
    by (subst map_of_inject_set) (simp_all add: o_def)
  then show ?thesis by (simp add: record_of_def fun_eq_iff)
qed

lemma ensure_ladder_spec:
  assumes "distinct (map rg_size (po_ladder g))"
  shows "distinct (map rg_size (po_ladder (ensure_ladder cfg g)))"
    "sizes_of (po_ladder (ensure_ladder cfg g)) = set (cf_sizes cfg) \<union> sizes_of (po_ladder g)"
    "record_of (po_ladder (ensure_ladder cfg g)) = record_of (po_ladder g)"
  using fold_add_rung [OF assms, of "cf_sizes cfg"]
  by (simp_all add: ensure_ladder_def Let_def sort_ladder_distinct sort_ladder_record) (simp add: sizes_of_def)

lemma ensure_ladder_frame [simp]:
  "po_round (ensure_ladder cfg g) = po_round g" "po_round_count (ensure_ladder cfg g) = po_round_count g"
  "po_records (ensure_ladder cfg g) = po_records g" "po_host (ensure_ladder cfg g) = po_host g"
  "po_capacity (ensure_ladder cfg g) = po_capacity g" "po_players (ensure_ladder cfg g) = po_players g"
  "po_last_faster_at (ensure_ladder cfg g) = po_last_faster_at g"
  "po_last_restart_at (ensure_ladder cfg g) = po_last_restart_at g"
  by (simp_all add: ensure_ladder_def Let_def)

section \<open>Verified catches\<close>

definition next_of :: "nat option \<Rightarrow> nat" where
  "next_of through = (case through of None \<Rightarrow> 0 | Some v \<Rightarrow> v + 1)"

definition verified_set :: "nat option \<Rightarrow> nat fset \<Rightarrow> nat set" where
  "verified_set through ahead = {k. k < next_of through} \<union> fset ahead"

text \<open>The laps whose last catch is among the numbers from one to another.\<close>

definition laps_between :: "nat \<Rightarrow> nat \<Rightarrow> nat \<Rightarrow> nat list" where
  "laps_between n i j = map (\<lambda>k. k div n) (filter (\<lambda>k. (k + 1) mod n = 0) [i..<j])"

lemma next_of_simps [simp]: "next_of None = 0" "next_of (Some v) = Suc v"
  by (simp_all add: next_of_def)

lemma drain_step:
  "drain n through ahead completed =
     (if next_of through |\<notin>| ahead then Some (through, ahead, completed)
      else drain n (Some (next_of through)) (ahead |-| {|next_of through|})
        (completed @ (if (next_of through + 1) mod n = 0 then [next_of through div n] else [])))"
  by (subst drain.simps) (auto simp: next_of_def Let_def)

lemma laps_between_rec:
  "i < j \<Longrightarrow> laps_between n i j = (if (i + 1) mod n = 0 then [i div n] else []) @ laps_between n (Suc i) j"
  by (simp add: laps_between_def upt_rec [of i j])

lemma drain_spec:
  "\<exists>through' ahead'. drain n through ahead completed =
       Some (through', ahead', completed @ laps_between n (next_of through) (next_of through')) \<and>
     next_of through \<le> next_of through' \<and> next_of through' |\<notin>| ahead' \<and>
     verified_set through' ahead' = verified_set through ahead"
proof (induction "fcard ahead" arbitrary: through ahead completed rule: less_induct)
  case less
  define i where "i = next_of through"
  show ?case
  proof (cases "i |\<in>| ahead")
    case False
    then show ?thesis by (subst drain_step) (auto simp: i_def laps_between_def)
  next
    case True
    define done' where "done' = completed @ (if (i + 1) mod n = 0 then [i div n] else [])"
    have "fcard (ahead |-| {|i|}) < fcard ahead" using True by (rule fcard_fminus1_less)
    from less [OF this, of "Some i" done']
    obtain through' ahead' where ih: "drain n (Some i) (ahead |-| {|i|}) done' =
          Some (through', ahead', done' @ laps_between n (Suc i) (next_of through'))"
        "Suc i \<le> next_of through'" "next_of through' |\<notin>| ahead'"
        "verified_set through' ahead' = verified_set (Some i) (ahead |-| {|i|})"
      by auto
    have "verified_set (Some i) (ahead |-| {|i|}) = verified_set through ahead"
      using True by (auto simp: verified_set_def i_def less_Suc_eq)
    moreover have "drain n through ahead completed = drain n (Some i) (ahead |-| {|i|}) done'"
      using True by (subst drain_step) (simp add: i_def done'_def)
    moreover have "done' @ laps_between n (Suc i) (next_of through') = completed @ laps_between n i (next_of through')"
      using laps_between_rec [of i "next_of through'" n] ih(2) by (simp add: done'_def)
    ultimately show ?thesis using ih by (auto simp: i_def)
  qed
qed

text \<open>The numbers verified without a gap are the longest such prefix.\<close>

lemma verified_prefix:
  assumes "next_of through |\<notin>| ahead"
  shows "k < next_of through \<longleftrightarrow> {..k} \<subseteq> verified_set through ahead"
proof
  assume "{..k} \<subseteq> verified_set through ahead"
  moreover have "next_of through \<notin> verified_set through ahead" using assms by (simp add: verified_set_def)
  ultimately show "k < next_of through" by (metis atMost_iff not_le subsetD)
qed (auto simp: verified_set_def)

section \<open>The hold\<close>

definition shrunk :: "round_state \<Rightarrow> nat \<Rightarrow> nat" where
  "shrunk r h = (let c = h * min (rd_shrink_permille r) 1000 div 1000 in max (h - c) (rd_min_hold_ms r))"

lemma lap_hold_shrunk: "lap_hold laps r = (shrunk r ^^ min laps 10000) (rd_start_hold_ms r)"
  unfolding lap_hold_def shrunk_def by simp

lemma shrunk_le: "rd_min_hold_ms r \<le> h \<Longrightarrow> rd_min_hold_ms r \<le> shrunk r h \<and> shrunk r h \<le> h"
  by (simp add: shrunk_def Let_def)

lemma shrunk_pow:
  "rd_min_hold_ms r \<le> h \<Longrightarrow> rd_min_hold_ms r \<le> (shrunk r ^^ k) h \<and> (shrunk r ^^ k) h \<le> h"
proof (induction k)
  case (Suc k)
  then show ?case using shrunk_le [of r "(shrunk r ^^ k) h"] by simp
qed simp

lemma shrunk_pow_mono:
  assumes "rd_min_hold_ms r \<le> h" "i \<le> j"
  shows "(shrunk r ^^ j) h \<le> (shrunk r ^^ i) h"
proof -
  have "(shrunk r ^^ j) h = (shrunk r ^^ (j - i)) ((shrunk r ^^ i) h)"
    using assms(2) by (metis add.commute comp_apply funpow_add le_add_diff_inverse)
  then show ?thesis using shrunk_pow assms(1) by metis
qed

lemma hold_at_bounds:
  "rd_min_hold_ms r \<le> rd_start_hold_ms r \<Longrightarrow> rd_min_hold_ms r \<le> hold_at r seq \<and> hold_at r seq \<le> rd_start_hold_ms r"
  using shrunk_pow [of r "rd_start_hold_ms r"]
  by (auto simp: hold_at_def lap_hold_shrunk Let_def le_max_iff_disj min_le_iff_disj split: option.split)

lemma start_hold_floor: "cf_min_hold_ms cfg \<le> start_hold cfg n"
  by (simp add: start_hold_def)

section \<open>A round\<close>

abbreviation verified :: "round_state \<Rightarrow> nat set" where
  "verified r \<equiv> verified_set (rd_verified_through r) (rd_verified_ahead r)"

definition within :: "round_state \<Rightarrow> nat \<Rightarrow> bool" where
  "within r h \<longleftrightarrow> rd_min_hold_ms r \<le> h \<and> h \<le> rd_start_hold_ms r"

definition lap_done :: "round_state \<Rightarrow> nat \<Rightarrow> bool" where
  "lap_done r l \<longleftrightarrow> {l * length (rd_ring r)..<(l + 1) * length (rd_ring r)} \<subseteq> verified r"

text \<open>
  A round's progress: the catches without a gap, the holds recorded for laps within the bounds, a hold
  recorded for the lap of every verified catch, and the best lap's hold one of a lap that is verified.
\<close>

definition progress_inv :: "round_state \<Rightarrow> bool" where
  "progress_inv r \<longleftrightarrow>
     rd_min_hold_ms r \<le> rd_start_hold_ms r \<and>
     next_of (rd_verified_through r) |\<notin>| rd_verified_ahead r \<and>
     (\<forall>l h. RBT.lookup (rd_lap_holds r) l = Some h \<longrightarrow> within r h) \<and>
     (\<forall>k \<in> verified r. RBT.lookup (rd_lap_holds r) (round_lap r k) \<noteq> None) \<and>
     (\<forall>b. rd_best_lap_hold_ms r = Some b \<longrightarrow> within r b) \<and>
     (\<forall>k \<in> verified r. \<exists>s. rd_seq r = Some s \<and> k \<le> s) \<and>
     (rd_seq r = None \<longleftrightarrow> rd_last_catch_at r = None)"

text \<open>What a verified catch leaves of the round as it was.\<close>

definition same_settings :: "round_state \<Rightarrow> round_state \<Rightarrow> bool" where
  "same_settings r r' \<longleftrightarrow>
     rd_id r' = rd_id r \<and> rd_size r' = rd_size r \<and> rd_ring r' = rd_ring r \<and> rd_started_at r' = rd_started_at r \<and>
     rd_start_hold_ms r' = rd_start_hold_ms r \<and> rd_shrink_permille r' = rd_shrink_permille r \<and>
     rd_min_hold_ms r' = rd_min_hold_ms r \<and> rd_flight_ms r' = rd_flight_ms r \<and> rd_colours r' = rd_colours r"

lemma same_settings_refl [simp]: "same_settings r r"
  by (simp add: same_settings_def)

definition credits :: "(nat, nat) rbt \<Rightarrow> nat list \<Rightarrow> nat list" where
  "credits holds laps = List.map_filter (RBT.lookup holds) laps"

lemma fold_credit_lap:
  assumes "rd_size r \<in> sizes_of ladder"
  shows "\<exists>ladder'. fold (credit_lap at) laps (r, ladder) =
       (r\<lparr>rd_best_lap_hold_ms := fold (\<lambda>h b. improved b h) (credits (rd_lap_holds r) laps) (rd_best_lap_hold_ms r)\<rparr>, ladder') \<and>
     map rg_size ladder' = map rg_size ladder \<and>
     record_of ladder' = (record_of ladder)
       (rd_size r := fold (\<lambda>h b. improved b h) (credits (rd_lap_holds r) laps) (record_of ladder (rd_size r)))"
  using assms
proof (induction laps arbitrary: r ladder)
  case Nil
  then show ?case by (simp add: credits_def List.map_filter_def)
next
  case (Cons l laps)
  show ?case
  proof (cases "RBT.lookup (rd_lap_holds r) l")
    case None
    then show ?thesis using Cons.IH [OF Cons.prems] by (simp add: credit_lap_def credits_def List.map_filter_def)
  next
    case (Some h)
    define r1 where "r1 = r\<lparr>rd_best_lap_hold_ms := improved (rd_best_lap_hold_ms r) h\<rparr>"
    define ladder1 where "ladder1 = update_first (\<lambda>x. rg_size x = rd_size r) (improve_record h at) ladder"
    have c: "credit_lap at l (r, ladder) = (r1, ladder1)"
      using Some by (auto simp: credit_lap_def r1_def ladder1_def improved_def split: option.splits)
    have sizes: "map rg_size ladder1 = map rg_size ladder" by (simp add: ladder1_def sizes_of_update_first)
    then have "rd_size r1 \<in> sizes_of ladder1" using Cons.prems by (simp add: r1_def sizes_of_map)
    note ih = Cons.IH [OF this]
    have rec: "record_of ladder1 = (record_of ladder)(rd_size r := improved (record_of ladder (rd_size r)) h)"
      unfolding ladder1_def by (rule record_of_improve [OF Cons.prems])
    show ?thesis using ih Some sizes by (auto simp: c r1_def rec credits_def List.map_filter_def fun_eq_iff)
  qed
qed

lemma fold_improved_in:
  assumes "fold (\<lambda>h b. improved b h) hs old = Some b"
  shows "b \<in> set hs \<or> old = Some b"
  using assms by (induction hs arbitrary: old) (fastforce simp: improved_def split: option.splits if_splits)+

lemma fold_improved_le:
  "(\<forall>h \<in> set hs. \<exists>b. fold (\<lambda>h b. improved b h) hs old = Some b \<and> b \<le> h) \<and>
   (\<forall>v. old = Some v \<longrightarrow> (\<exists>b. fold (\<lambda>h b. improved b h) hs old = Some b \<and> b \<le> v))"
proof (induction hs arbitrary: old)
  case (Cons h hs)
  have "\<exists>b. improved old h = Some b \<and> b \<le> h \<and> (\<forall>v. old = Some v \<longrightarrow> b \<le> v)"
    by (auto simp: improved_def split: option.splits)
  with Cons.IH [of "improved old h"] show ?case by (fastforce intro: le_trans)
qed simp

text \<open>A record that is no slower than the round's best lap stays so.\<close>

lemma fold_improved_mono:
  assumes "\<forall>b. best = Some b \<longrightarrow> (\<exists>h. old = Some h \<and> h \<le> b)"
    and "fold (\<lambda>h b. improved b h) hs best = Some b"
  shows "\<exists>h. fold (\<lambda>h b. improved b h) hs old = Some h \<and> h \<le> b"
proof (cases "b \<in> set hs")
  case True
  then show ?thesis using fold_improved_le by blast
next
  case False
  then obtain h where "old = Some h" "h \<le> b" using fold_improved_in [OF assms(2)] assms(1) by blast
  then show ?thesis using fold_improved_le [of hs old] le_trans by blast
qed

lemma laps_between_done:
  assumes "l \<in> set (laps_between n i j)"
  shows "0 < n \<and> (l + 1) * n \<le> j"
proof -
  obtain k where k: "l = k div n" "(k + 1) mod n = 0" "k < j" using assms by (auto simp: laps_between_def)
  have n: "0 < n" using k(2) by (cases n) auto
  have "(k + 1) div n = k div n + 1" using k(2) n by (simp add: div_Suc)
  then have "(l + 1) * n = k + 1" using k(1,2) by (metis add.right_neutral div_mult_mod_eq)
  then show ?thesis using n k(3) by simp
qed

text \<open>
  A verified catch: the call returns, adds its number to the verified ones, and credits the laps completed
  by it with holds recorded for them, in the round and in the ladder.
\<close>

lemma verify_catch_spec:
  assumes inv: "progress_inv r" and mem: "rd_size r \<in> sizes_of ladder"
  obtains r' ladder' hs where "verify_catch seq at r ladder = Some (r', ladder')"
    "verified r' = insert seq (verified r)"
    "next_of (rd_verified_through r') |\<notin>| rd_verified_ahead r'"
    "same_settings r r'" "rd_seq r' = rd_seq r" "rd_last_catch_at r' = rd_last_catch_at r"
    "rd_lap_holds r' = RBT.insert (round_lap r seq)
       (max (case RBT.lookup (rd_lap_holds r) (round_lap r seq) of None \<Rightarrow> hold_at r seq | Some h \<Rightarrow> h) (hold_at r seq))
       (rd_lap_holds r)"
    "\<And>h. h \<in> set hs \<Longrightarrow> \<exists>l. RBT.lookup (rd_lap_holds r') l = Some h \<and> lap_done r' l"
    "rd_best_lap_hold_ms r' = fold (\<lambda>h b. improved b h) hs (rd_best_lap_hold_ms r)"
    "map rg_size ladder' = map rg_size ladder"
    "record_of ladder' = (record_of ladder)(rd_size r := fold (\<lambda>h b. improved b h) hs (record_of ladder (rd_size r)))"
proof -
  define holds where "holds = RBT.insert (round_lap r seq)
    (max (case RBT.lookup (rd_lap_holds r) (round_lap r seq) of None \<Rightarrow> hold_at r seq | Some h \<Rightarrow> h) (hold_at r seq))
    (rd_lap_holds r)"
  define n where "n = length (rd_ring r)"
  obtain through ahead where d: "drain n (rd_verified_through r) (finsert seq (rd_verified_ahead r)) [] =
        Some (through, ahead, laps_between n (next_of (rd_verified_through r)) (next_of through))"
      "next_of through |\<notin>| ahead"
      "verified_set through ahead = verified_set (rd_verified_through r) (finsert seq (rd_verified_ahead r))"
    using drain_spec [of n "rd_verified_through r" "finsert seq (rd_verified_ahead r)" "[]"] by auto
  define laps where "laps = laps_between n (next_of (rd_verified_through r)) (next_of through)"
  define r1 where "r1 = r\<lparr>rd_lap_holds := holds, rd_verified_through := through, rd_verified_ahead := ahead\<rparr>"
  have "rd_size r1 \<in> sizes_of ladder" using mem by (simp add: r1_def)
  from fold_credit_lap [OF this, of at laps] obtain ladder' where f: "fold (credit_lap at) laps (r1, ladder) =
        (r1\<lparr>rd_best_lap_hold_ms := fold (\<lambda>h b. improved b h) (credits holds laps) (rd_best_lap_hold_ms r)\<rparr>, ladder')"
      "map rg_size ladder' = map rg_size ladder"
      "record_of ladder' = (record_of ladder)(rd_size r :=
         fold (\<lambda>h b. improved b h) (credits holds laps) (record_of ladder (rd_size r)))"
    by (auto simp: r1_def)
  define r' where "r' = r1\<lparr>rd_best_lap_hold_ms := fold (\<lambda>h b. improved b h) (credits holds laps) (rd_best_lap_hold_ms r)\<rparr>"
  have "verify_catch seq at r ladder = Some (r', ladder')"
    using d(1) f(1) by (simp add: verify_catch_def Let_def holds_def [symmetric] n_def laps_def r1_def r'_def)
  moreover have "\<exists>l. RBT.lookup (rd_lap_holds r') l = Some h \<and> lap_done r' l" if h: "h \<in> set (credits holds laps)" for h
  proof -
    obtain l where l: "l \<in> set laps" "RBT.lookup holds l = Some h"
      using h by (auto simp: credits_def List.map_filter_def)
    have "(l + 1) * n \<le> next_of through" using laps_between_done l(1) by (auto simp: laps_def)
    then show ?thesis using l(2) by (auto simp: r'_def r1_def lap_done_def verified_set_def n_def)
  qed
  moreover have "verified r' = insert seq (verified r)"
    using d(3) by (auto simp: r'_def r1_def verified_set_def)
  ultimately show thesis using d(2) f by (intro that [of r' ladder' "credits holds laps"])
      (simp_all add: r'_def r1_def same_settings_def holds_def)
qed

section \<open>Runs of the game\<close>

text \<open>The coordinator's operations, in any order, under one configuration.\<close>

inductive game_step :: "digest \<Rightarrow> potato_config \<Rightarrow> potato \<Rightarrow> potato \<Rightarrow> bool" for sha256 cfg where
  hello: "game_step sha256 cfg g (agent_hello host players at cfg g)"
| gone: "game_step sha256 cfg g (agent_gone host at cfg g)"
| resume: "game_step sha256 cfg g (resumed g)"
| ticked: "tick at awake cfg g = Some g' \<Longrightarrow> game_step sha256 cfg g g'"
| reported: "event sha256 host e at cfg g = Some g' \<Longrightarrow> game_step sha256 cfg g g'"
| faster: "game_step sha256 cfg g (snd (faster client at cfg g))"
| restart: "game_step sha256 cfg g (snd (restart client at cfg g))"

inductive_cases game_stepE: "game_step sha256 cfg g g'"

lemma drop_ball_no_round: "po_round g = None \<Longrightarrow> drop_ball at reason who thrower seq stage stage_ms detail cfg g = g"
  by (simp add: drop_ball_def)

lemma drop_ball_round:
  assumes "po_round g = Some r"
  obtains d g' where "drop_ball at reason who thrower seq stage stage_ms detail cfg g = g'"
    "po_round g' = None" "po_last_drop g' = Some d" "dr_at d = at" "dr_round d = rd_id r" "dr_reason d = reason"
    "dr_player d = who"
    "po_ladder g' = update_first (\<lambda>x. rg_size x = rd_size r) (drop_rung d (rd_best_lap_hold_ms r)) (po_ladder g)"
    "po_records g' = count_catches at r (po_records g)" "po_round_count g' = po_round_count g"
    "po_host g' = po_host g" "po_players g' = po_players g" "po_capacity g' = po_capacity g"
    "po_next_round_at g' = Some (at + cf_restart_after_ms cfg)"
    "po_last_faster_at g' = po_last_faster_at g" "po_last_restart_at g' = po_last_restart_at g"
proof -
  obtain sl wk where st: "(case (case who of Some p \<Rightarrow> RBT.lookup (po_players (g\<lparr>po_round := None\<rparr>)) p | None \<Rightarrow> None) of
      Some p \<Rightarrow> (ps_sleep_stages p, ps_wake_stages p) | None \<Rightarrow> (empty_stages, empty_stages)) = (sl, wk)"
    by fastforce
  define d where "d = \<lparr>dr_at = at, dr_round = rd_id r, dr_size = rd_size r, dr_reason = reason, dr_player = who,
    dr_thrower = thrower, dr_seq = seq, dr_lap = round_lap r seq, dr_hold_ms = hold_at r seq,
    dr_stage = stage, dr_stage_ms = stage_ms, dr_listening_after_ms = None,
    dr_sleep_stages = sl, dr_wake_stages = wk, dr_detail = detail\<rparr>"
  show thesis
    by (rule that [OF refl, of d]) (simp_all add: drop_ball_def Let_def assms st flip: d_def, simp_all add: d_def)
qed

lemma player_frame [simp]:
  "po_round (insert_player who p g) = po_round g" "po_ladder (insert_player who p g) = po_ladder g"
  "po_records (insert_player who p g) = po_records g" "po_round_count (insert_player who p g) = po_round_count g"
  "po_last_faster_at (insert_player who p g) = po_last_faster_at g"
  "po_last_restart_at (insert_player who p g) = po_last_restart_at g" "po_host (insert_player who p g) = po_host g"
  "po_round (update_player who f g) = po_round g" "po_ladder (update_player who f g) = po_ladder g"
  "po_records (update_player who f g) = po_records g" "po_round_count (update_player who f g) = po_round_count g"
  "po_last_faster_at (update_player who f g) = po_last_faster_at g"
  "po_last_restart_at (update_player who f g) = po_last_restart_at g" "po_host (update_player who f g) = po_host g"
  by (simp_all add: insert_player_def update_player_def)

text \<open>What an operation can do to the round and the ladder.\<close>

definition same_ladder :: "potato_config \<Rightarrow> rung list \<Rightarrow> rung list \<Rightarrow> bool" where
  "same_ladder cfg xs ys \<longleftrightarrow> distinct (map rg_size ys) \<and> sizes_of xs \<subseteq> sizes_of ys \<and>
     sizes_of ys \<subseteq> sizes_of xs \<union> set (cf_sizes cfg) \<and> record_of ys = record_of xs"

inductive effect :: "potato_config \<Rightarrow> potato \<Rightarrow> potato \<Rightarrow> bool" for cfg where
  ended: "same_ladder cfg (po_ladder g) (po_ladder g') \<Longrightarrow> po_round_count g' = po_round_count g \<Longrightarrow>
     po_round g' = None \<Longrightarrow> effect cfg g g'"
| quiet: "same_ladder cfg (po_ladder g) (po_ladder g') \<Longrightarrow> po_round_count g' = po_round_count g \<Longrightarrow>
     po_round g = Some r \<Longrightarrow> po_round g' = Some (r\<lparr>rd_pace_ms := pace, rd_flight := fl\<rparr>) \<Longrightarrow> effect cfg g g'"
| started: "same_ladder cfg (po_ladder g) (po_ladder g') \<Longrightarrow> po_round_count g' = Suc (po_round_count g) \<Longrightarrow>
     po_round g = None \<Longrightarrow> po_round g' = Some (new_round (Suc (po_round_count g)) m at cfg) \<Longrightarrow>
     m \<in> sizes_of (po_ladder g') \<Longrightarrow> effect cfg g g'"
| counted: "po_round g = Some r \<Longrightarrow> verify_catch seq at r (po_ladder g) = Some (r', po_ladder g') \<Longrightarrow>
     po_round g' = Some (newest_catch who seq at r') \<Longrightarrow> po_round_count g' = po_round_count g \<Longrightarrow> effect cfg g g'"
| dropped: "po_round g = Some r \<Longrightarrow> po_round g' = None \<Longrightarrow> po_round_count g' = po_round_count g \<Longrightarrow>
     po_ladder g' = update_first (\<lambda>x. rg_size x = rd_size r) (drop_rung d (rd_best_lap_hold_ms r)) (po_ladder g) \<Longrightarrow>
     effect cfg g g'"

lemma same_ladder_refl: "distinct (map rg_size xs) \<Longrightarrow> same_ladder cfg xs xs"
  by (simp add: same_ladder_def)

lemma same_ladder_ensure:
  "distinct (map rg_size (po_ladder g)) \<Longrightarrow> same_ladder cfg (po_ladder g) (po_ladder (ensure_ladder cfg g))"
  using ensure_ladder_spec [of g cfg] by (auto simp: same_ladder_def)

text \<open>An operation that leaves the ladder, and the round but for its pace and flight.\<close>

lemma effect_quiet:
  assumes "distinct (map rg_size (po_ladder g))" "po_round_count g' = po_round_count g"
    and "same_ladder cfg (po_ladder g) (po_ladder g')"
    and "po_round g' = po_round g"
  shows "effect cfg g g'"
proof (cases "po_round g")
  case None
  then show ?thesis using assms by (intro effect.ended) auto
next
  case (Some r)
  then show ?thesis using assms
    by (intro effect.quiet [where r = r and pace = "rd_pace_ms r" and fl = "rd_flight r"]) auto
qed

lemma effect_refl: "distinct (map rg_size (po_ladder g)) \<Longrightarrow> effect cfg g g"
  by (rule effect_quiet) (simp_all add: same_ladder_refl)

lemma effect_drop:
  assumes "distinct (map rg_size (po_ladder g))" "po_round g0 = po_round g" "po_ladder g0 = po_ladder g"
    "po_round_count g0 = po_round_count g"
  shows "effect cfg g (drop_ball at reason who thrower seq stage stage_ms detail cfg g0)"
proof (cases "po_round g0")
  case None
  then show ?thesis using assms
    by (simp add: drop_ball_no_round) (rule effect_quiet; simp add: same_ladder_refl)
next
  case (Some r)
  then obtain d g' where "drop_ball at reason who thrower seq stage stage_ms detail cfg g0 = g'"
    "po_round g' = None" "po_round_count g' = po_round_count g0"
    "po_ladder g' = update_first (\<lambda>x. rg_size x = rd_size r) (drop_rung d (rd_best_lap_hold_ms r)) (po_ladder g0)"
    by (rule drop_ball_round)
  then show ?thesis using assms Some by (auto intro!: effect.dropped)
qed

text \<open>A report of a catch: ignored, found wrong, or verified.\<close>

definition catch_ok :: "digest \<Rightarrow> player_state \<Rightarrow> nat \<Rightarrow> nat \<Rightarrow> potato_proof \<Rightarrow> u32 \<Rightarrow> bool" where
  "catch_ok sha256 p rnd seq proof colours \<longleftrightarrow>
     proof_steps (stepped sha256 p rnd seq colours) p proof \<and> (case ps_ahead p of None \<Rightarrow> True | Some a \<Rightarrow> a = proof)"

lemma event_caught_cases:
  assumes "event_caught sha256 who rnd seq proof colours at cfg g = res"
  obtains (unknown) "RBT.lookup (po_players g) who = None" "res = Some g"
  | (other) p where "RBT.lookup (po_players g) who = Some p" "\<And>r. po_round g = Some r \<Longrightarrow> rd_id r \<noteq> rnd"
      "res =
         Some (insert_player who ((take_proof proof p)\<lparr>ps_ahead := None\<rparr>) g)"
  | (wrong) p r detail where "RBT.lookup (po_players g) who = Some p" "po_round g = Some r" "rd_id r = rnd"
      "\<not> catch_ok sha256 p rnd seq proof colours"
      "res =
         Some (drop_ball at (ascii ''proof'') (Some who) None seq (ascii ''proof'') 0 detail cfg
                (insert_player who ((take_proof proof p)\<lparr>ps_ahead := None\<rparr>) g))"
  | (right) p r where "RBT.lookup (po_players g) who = Some p" "po_round g = Some r" "rd_id r = rnd"
      "catch_ok sha256 p rnd seq proof colours"
      "res = map_option (\<lambda>(r', ladder).
         (insert_player who ((take_proof proof p)\<lparr>ps_ahead := None\<rparr>) g)
         \<lparr>po_ladder := ladder, po_round := Some (newest_catch who seq at r')\<rparr>) (verify_catch seq at r (po_ladder g))"
proof (cases "RBT.lookup (po_players g) who")
  case None
  then show thesis using assms by (intro unknown) (simp_all add: event_caught_def)
next
  case p: (Some p)
  show thesis
  proof (cases "\<exists>r. po_round g = Some r \<and> rd_id r = rnd")
    case False
    then show thesis using assms p by (intro other [of p]) (auto simp: event_caught_def Let_def split: option.split)
  next
    case True
    then obtain r where r: "po_round g = Some r" "rd_id r = rnd" by blast
    show thesis
    proof (cases "catch_ok sha256 p rnd seq proof colours")
      case True
      then show thesis using assms p r by (intro right [of p r])
          (auto simp: event_caught_def catch_ok_def Let_def split: option.split prod.split)
    next
      case False
      then show thesis using assms p r by (intro wrong [of p r]) (auto simp: event_caught_def catch_ok_def Let_def)
    qed
  qed
qed

lemma effect_hello:
  assumes "distinct (map rg_size (po_ladder g))"
  shows "effect cfg g (event_hello sha256 who proof c connections last_round last_seq at cfg g)"
proof -
  have quiet: "effect cfg g (insert_player who p g)" "effect cfg g g" for p
    by (rule effect_quiet; simp add: assms same_ladder_refl)+
  have drop: "effect cfg g (drop_ball at reason w t s st ms detail cfg (insert_player who p g))" for reason w t s st ms detail p
    by (rule effect_drop) (simp_all add: assms)
  show ?thesis unfolding event_hello_def Let_def by (auto intro: quiet drop split: option.split)
qed

lemma effect_caught:
  assumes "distinct (map rg_size (po_ladder g))" "event_caught sha256 who rnd seq proof colours at cfg g = Some g'"
  shows "effect cfg g g'"
  using assms(2)
proof (cases rule: event_caught_cases)
  case unknown
  then show ?thesis using assms by (auto intro: effect_quiet same_ladder_refl)
next
  case other
  then show ?thesis using assms by (auto intro!: effect_quiet simp: same_ladder_refl)
next
  case wrong
  then show ?thesis using assms by (auto intro!: effect_drop)
next
  case (right p r)
  then obtain r' ladder where "verify_catch seq at r (po_ladder g) = Some (r', ladder)"
    by (cases "verify_catch seq at r (po_ladder g)") auto
  with right show ?thesis by (auto intro!: effect.counted)
qed

lemma event_listening_ladder:
  "map rg_size (po_ladder (event_listening rnd seq after_ms g)) = map rg_size (po_ladder g)"
  "record_of (po_ladder (event_listening rnd seq after_ms g)) = record_of (po_ladder g)"
  by (simp_all add: event_listening_def Let_def sizes_of_update_first record_of_update_other)

lemma effect_listening:
  "distinct (map rg_size (po_ladder g)) \<Longrightarrow> effect cfg g (event_listening rnd seq after_ms g)"
  using event_listening_ladder [of rnd seq after_ms g]
  by (intro effect_quiet) (simp_all add: same_ladder_def sizes_of_map, simp_all add: event_listening_def Let_def)

lemma effect_threw:
  assumes "distinct (map rg_size (po_ladder g))"
  shows "effect cfg g (event_threw who rnd recipient at g)"
proof (cases "po_round g")
  case None
  then show ?thesis using assms
    by (intro effect_quiet) (simp_all add: event_threw_def Let_def same_ladder_refl)
next
  case (Some r)
  define fl where "fl = (if rd_id r = rnd then Some \<lparr>fl_from = who, fl_to = recipient, fl_at = at\<rparr> else rd_flight r)"
  show ?thesis using assms Some
    by (intro effect.quiet [where r = r and pace = "rd_pace_ms r" and fl = fl])
      (auto simp: event_threw_def Let_def same_ladder_refl fl_def)
qed

lemma effect_dropped:
  "distinct (map rg_size (po_ladder g)) \<Longrightarrow>
     effect cfg g (event_dropped who rnd seq recipient attempts reason phase phase_ms at cfg g)"
  by (auto simp: event_dropped_def intro: effect_drop effect_refl split: option.split)

lemma effect_failed: "distinct (map rg_size (po_ladder g)) \<Longrightarrow> effect cfg g (event_failed who stage err at cfg g)"
  unfolding event_failed_def Let_def
  by (cases "in_ring who (update_player who (set_phase ''failed'' at) g)")
    (simp_all, rule effect_drop, simp_all, rule effect_quiet, simp_all add: same_ladder_refl)

lemma effect_woke: "distinct (map rg_size (po_ladder g)) \<Longrightarrow> effect cfg g (event_woke who wake_ms stages at g)"
  unfolding event_woke_def Let_def
  by (cases "RBT.lookup (po_players g) who") (auto intro!: effect_quiet simp: same_ladder_refl)

lemma effect_player: "distinct (map rg_size (po_ladder g)) \<Longrightarrow> effect cfg g (update_player who f g)"
  by (rule effect_quiet) (simp_all add: same_ladder_refl)

lemmas event_effects =
  effect_hello effect_caught effect_threw effect_dropped effect_listening effect_player effect_woke effect_failed

lemma effect_event:
  assumes D: "distinct (map rg_size (po_ladder g))" and e: "event sha256 host e at cfg g = Some g'"
  shows "effect cfg g g'"
proof (cases "po_host g = Some host")
  case False
  then show ?thesis using e D by (auto simp: event_def intro: effect_refl)
next
  case True
  with e D show ?thesis
    by (cases "ev_kind e") (auto simp: event_def Let_def event_slept_def intro: event_effects)
qed

text \<open>The size a tick picks is one of the ladder the host can run.\<close>

lemma rung_choice:
  assumes "find P (map (\<lambda>k. (start + k) mod n) [0..<n]) = Some i"
  shows "i < n \<and> P i"
proof -
  obtain k where k: "k < length (map (\<lambda>k. (start + k) mod n) [0..<n])" "P (map (\<lambda>k. (start + k) mod n) [0..<n] ! k)"
      "i = map (\<lambda>k. (start + k) mod n) [0..<n] ! k"
    using assms unfolding find_Some_iff by blast
  then show ?thesis by (simp add: mod_less_divisor)
qed

definition can_start :: "nat \<Rightarrow> bool \<Rightarrow> potato \<Rightarrow> bool" where
  "can_start at awake g \<longleftrightarrow> awake \<and> po_host g \<noteq> None \<and> 2 \<le> po_capacity g \<and>
     (case po_next_round_at g of Some t \<Rightarrow> t \<le> at | None \<Rightarrow> False)"

definition start_choice :: "potato \<Rightarrow> nat option" where
  "start_choice g = find (\<lambda>i. rg_size (po_ladder g ! i) \<le> po_capacity g)
     (map (\<lambda>k. (po_rung g + k) mod length (po_ladder g)) [0..<length (po_ladder g)])"

lemma tick_idle:
  "po_round g = None \<Longrightarrow> tick at awake cfg g =
     (if \<not> can_start at awake g then Some g
      else let h = ensure_ladder cfg g in case start_choice h of
        None \<Rightarrow> Some h
      | Some i \<Rightarrow> Some (h\<lparr>po_rung := i, po_round_count := po_round_count h + 1,
          po_round := Some (new_round (po_round_count h + 1) (rg_size (po_ladder h ! i)) at cfg),
          po_next_round_at := None\<rparr>))"
  unfolding tick_def can_start_def start_choice_def Let_def not_le [symmetric] de_Morgan_conj by auto

lemma start_choice_size:
  "start_choice g = Some i \<Longrightarrow>
     rg_size (po_ladder g ! i) \<in> sizes_of (po_ladder g) \<and> rg_size (po_ladder g ! i) \<le> po_capacity g"
  using rung_choice [of _ "po_rung g" "length (po_ladder g)" i] by (auto simp: start_choice_def sizes_of_def)

lemma effect_tick:
  assumes D: "distinct (map rg_size (po_ladder g))" and t: "tick at awake cfg g = Some g'"
  shows "effect cfg g g'"
proof (cases "po_round g")
  case (Some r)
  then show ?thesis using t D
    by (auto simp: tick_def tick_round_def Let_def intro: effect_drop effect_refl split: option.splits if_splits)
next
  case None
  define h where "h = ensure_ladder cfg g"
  have h: "same_ladder cfg (po_ladder g) (po_ladder h)" unfolding h_def by (rule same_ladder_ensure [OF D])
  note t = t [unfolded tick_idle [OF None] h_def [symmetric] Let_def]
  show ?thesis
  proof (cases "can_start at awake g")
    case True
    show ?thesis
    proof (cases "start_choice h")
      case (Some i)
      then show ?thesis using t True None h start_choice_size [OF Some]
        by (intro effect.started) (auto simp: h_def)
    qed (use t True None h in \<open>auto intro!: effect.ended simp: h_def\<close>)
  qed (use t effect_refl [OF D] in simp)
qed

lemma effect_gone: "distinct (map rg_size (po_ladder g)) \<Longrightarrow> effect cfg g (agent_gone host at cfg g)"
proof (cases "po_host g = Some host")
  case True
  assume D: "distinct (map rg_size (po_ladder g))"
  show ?thesis
  proof (cases "po_round g")
    case (Some r)
    define k where "k = (case rd_seq r of Some s \<Rightarrow> s | None \<Rightarrow> 0)"
    obtain d h where "drop_ball at (ascii ''host_gone'') None None k (ascii ''host'') 0
          (ascii ''the host running the players disconnected'') cfg g = h"
        "po_round_count h = po_round_count g"
        "po_ladder h = update_first (\<lambda>x. rg_size x = rd_size r) (drop_rung d (rd_best_lap_hold_ms r)) (po_ladder g)"
      by (rule drop_ball_round [OF Some])
    then show ?thesis using Some True
      by (intro effect.dropped [where r = r and d = d]) (simp_all add: agent_gone_def k_def Let_def)
  qed (use D True in \<open>auto intro!: effect.ended simp: agent_gone_def same_ladder_refl\<close>)
qed (auto intro!: effect_quiet simp: agent_gone_def same_ladder_refl)

lemma effect_agent_hello:
  assumes D: "distinct (map rg_size (po_ladder g))"
  shows "effect cfg g (agent_hello host players at cfg g)"
proof -
  have e: "same_ladder cfg (po_ladder g) (po_ladder (ensure_ladder cfg (end_quietly g)))"
    using same_ladder_ensure [of "end_quietly g" cfg] D by (simp add: end_quietly_def)
  have new: "effect cfg g (agent_hello host players at cfg g)"
    if "players \<noteq> 0" "po_host g = None \<or> po_host g = Some host"
  proof (cases "po_host g")
    case None
    then show ?thesis using D that
      by (intro effect_quiet) (simp_all add: agent_hello_def Let_def same_ladder_ensure)
  next
    case (Some h)
    then show ?thesis using that e
      by (intro effect.ended) (simp_all add: agent_hello_def Let_def, simp_all add: end_quietly_def)
  qed
  show ?thesis
  proof (cases "players \<noteq> 0 \<and> (po_host g = None \<or> po_host g = Some host)")
    case False
    then have "agent_hello host players at cfg g = agent_gone host at cfg g \<or> agent_hello host players at cfg g = g"
      by (auto simp: agent_hello_def)
    then show ?thesis using effect_gone [OF D] effect_refl [OF D] by (elim disjE) simp_all
  qed (use new in blast)
qed

lemma effect_faster:
  assumes D: "distinct (map rg_size (po_ladder g))"
  shows "effect cfg g (snd (faster client at cfg g))"
proof (cases "po_round g")
  case None
  then show ?thesis using D by (auto simp: faster_def intro!: effect_quiet simp: same_ladder_refl)
next
  case (Some r)
  define now where "now = hold_at r (case rd_seq r of Some s \<Rightarrow> s | None \<Rightarrow> 0)"
  define p where "p = Some (max (now - now div 5) (rd_min_hold_ms r))"
  have "snd (faster client at cfg g) = g \<or> snd (faster client at cfg g) =
      g\<lparr>po_round := Some (r\<lparr>rd_pace_ms := p\<rparr>), po_last_faster_at := RBT.insert client at (po_last_faster_at g)\<rparr>"
    unfolding faster_def Some option.case Let_def now_def [symmetric] p_def [symmetric]
    by (simp only: snd_conv split: if_split) simp
  then show ?thesis
  proof
    assume "snd (faster client at cfg g) = g"
    then show ?thesis using effect_refl [OF D] by simp
  next
    assume "snd (faster client at cfg g) =
      g\<lparr>po_round := Some (r\<lparr>rd_pace_ms := p\<rparr>), po_last_faster_at := RBT.insert client at (po_last_faster_at g)\<rparr>"
    then show ?thesis using same_ladder_refl [OF D] Some
      by (intro effect.quiet [where r = r and pace = p and fl = "rd_flight r"]) simp_all
  qed
qed

lemma effect_restart:
  assumes D: "distinct (map rg_size (po_ladder g))"
  shows "effect cfg g (snd (restart client at cfg g))"
proof -
  have "snd (restart client at cfg g) = g \<or> (po_round (snd (restart client at cfg g)) = None \<and>
      po_ladder (snd (restart client at cfg g)) = po_ladder g \<and>
      po_round_count (snd (restart client at cfg g)) = po_round_count g)"
    by (auto simp: restart_def split: option.split)
  then show ?thesis
  proof
    assume "snd (restart client at cfg g) = g"
    then show ?thesis using effect_refl [OF D] by simp
  next
    assume "po_round (snd (restart client at cfg g)) = None \<and> po_ladder (snd (restart client at cfg g)) = po_ladder g \<and>
      po_round_count (snd (restart client at cfg g)) = po_round_count g"
    then show ?thesis using same_ladder_refl [OF D] by (intro effect.ended) simp_all
  qed
qed

lemma step_effect: "distinct (map rg_size (po_ladder g)) \<Longrightarrow> game_step sha256 cfg g g' \<Longrightarrow> effect cfg g g'"
  by (erule game_stepE)
    (simp_all add: effect_agent_hello effect_gone effect_tick effect_event effect_faster effect_restart,
     rule effect.ended, simp_all add: resumed_def same_ladder_refl)

section \<open>The invariant\<close>

definition round_inv :: "potato_config \<Rightarrow> potato \<Rightarrow> round_state \<Rightarrow> bool" where
  "round_inv cfg g r \<longleftrightarrow>
     progress_inv r \<and> rd_ring r = [0..<rd_size r] \<and> rd_size r \<in> sizes_of (po_ladder g) \<and> rd_id r = po_round_count g \<and>
     rd_min_hold_ms r = cf_min_hold_ms cfg \<and> rd_start_hold_ms r = start_hold cfg (rd_size r) \<and>
     (\<forall>b. rd_best_lap_hold_ms r = Some b \<longrightarrow> (\<exists>h. record_of (po_ladder g) (rd_size r) = Some h \<and> h \<le> b))"

definition game_inv :: "potato_config \<Rightarrow> potato \<Rightarrow> bool" where
  "game_inv cfg g \<longleftrightarrow>
     distinct (map rg_size (po_ladder g)) \<and> sizes_of (po_ladder g) \<subseteq> set (cf_sizes cfg) \<and>
     (\<forall>n h. record_of (po_ladder g) n = Some h \<longrightarrow> cf_min_hold_ms cfg \<le> h \<and> h \<le> start_hold cfg n) \<and>
     (\<forall>r. po_round g = Some r \<longrightarrow> round_inv cfg g r)"

lemma game_inv_default: "game_inv cfg potato_default"
  by (simp add: game_inv_def potato_default_def sizes_of_def)

lemma game_invD:
  assumes "game_inv cfg g"
  shows "distinct (map rg_size (po_ladder g))" "po_round g = Some r \<Longrightarrow> round_inv cfg g r"
    "po_round g = Some r \<Longrightarrow> progress_inv r"
  using assms by (simp_all add: game_inv_def round_inv_def)

lemma progress_inv_new: "progress_inv (new_round ident n at cfg)"
  by (simp add: progress_inv_def new_round_def verified_set_def start_hold_floor)

lemma progress_inv_pace: "progress_inv r \<Longrightarrow> progress_inv (r\<lparr>rd_pace_ms := p, rd_flight := f\<rparr>)"
  by (simp add: progress_inv_def within_def round_lap_def)

lemma progress_inv_counted:
  assumes inv: "progress_inv r" and mem: "rd_size r \<in> sizes_of ladder"
    and v: "verify_catch seq at r ladder = Some (r', ladder')"
  shows "progress_inv (newest_catch who seq at r')"
proof -
  obtain hs where s: "verified r' = insert seq (verified r)" "next_of (rd_verified_through r') |\<notin>| rd_verified_ahead r'"
    "same_settings r r'" "rd_seq r' = rd_seq r" "rd_last_catch_at r' = rd_last_catch_at r"
    "rd_lap_holds r' = RBT.insert (round_lap r seq)
       (max (case RBT.lookup (rd_lap_holds r) (round_lap r seq) of None \<Rightarrow> hold_at r seq | Some h \<Rightarrow> h) (hold_at r seq))
       (rd_lap_holds r)"
    "\<And>h. h \<in> set hs \<Longrightarrow> \<exists>l. RBT.lookup (rd_lap_holds r') l = Some h \<and> lap_done r' l"
    "rd_best_lap_hold_ms r' = fold (\<lambda>h b. improved b h) hs (rd_best_lap_hold_ms r)"
    by (rule verify_catch_spec [OF inv mem, of seq at]) (use v in auto)
  note old = inv [unfolded progress_inv_def]
  have same: "rd_min_hold_ms r' = rd_min_hold_ms r" "rd_start_hold_ms r' = rd_start_hold_ms r" "rd_ring r' = rd_ring r"
    using s(3) by (simp_all add: same_settings_def)
  have holds: "within r' h" if "RBT.lookup (rd_lap_holds r') l = Some h" for l h
    using that s(6) old hold_at_bounds [of r seq]
    by (fastforce simp: within_def same max_def split: if_splits option.splits)
  have best: "within r' b" if "rd_best_lap_hold_ms r' = Some b" for b
    using fold_improved_in [OF that [unfolded s(8)]] s(7) holds old by (fastforce simp: within_def same)
  have laps: "RBT.lookup (rd_lap_holds r') (round_lap r' k) \<noteq> None" if "k \<in> verified r'" for k
    using that s(1,6) old by (auto simp: round_lap_def same)
  have seqs: "\<exists>m. rd_seq (newest_catch who seq at r') = Some m \<and> k \<le> m" if "k \<in> verified r'" for k
    using that s(1,4) old by (fastforce simp: newest_catch_def split: option.splits if_splits)
  show ?thesis
    using holds best laps seqs s(2,4,5) old same
    by (auto simp: progress_inv_def newest_catch_def within_def round_lap_def split: option.splits if_splits)
qed

text \<open>The end of a round changes no record: what the round achieved was recorded when it was verified.\<close>

lemma drop_keeps_records:
  assumes "round_inv cfg g r"
  shows "record_of (update_first (\<lambda>x. rg_size x = rd_size r) (drop_rung d (rd_best_lap_hold_ms r)) (po_ladder g)) =
    record_of (po_ladder g)"
proof (cases "rd_best_lap_hold_ms r")
  case (Some b)
  then obtain h where "record_of (po_ladder g) (rd_size r) = Some h" "h \<le> b" using assms by (auto simp: round_inv_def)
  then show ?thesis using Some by (simp add: record_of_drop improved_def fun_upd_idem)
qed (simp add: record_of_drop)

lemma round_inv_ladder:
  "round_inv cfg g r \<Longrightarrow> sizes_of (po_ladder g) \<subseteq> sizes_of (po_ladder g') \<Longrightarrow>
     record_of (po_ladder g') = record_of (po_ladder g) \<Longrightarrow> po_round_count g' = po_round_count g \<Longrightarrow> round_inv cfg g' r"
  by (auto simp: round_inv_def)

lemma round_inv_pace: "round_inv cfg g r \<Longrightarrow> round_inv cfg g (r\<lparr>rd_pace_ms := p, rd_flight := f\<rparr>)"
  by (simp add: round_inv_def progress_inv_pace)

lemma newest_catch_settings: "same_settings r (newest_catch who seq at r)"
  by (simp add: same_settings_def newest_catch_def)

lemma newest_catch_progress [simp]:
  "rd_best_lap_hold_ms (newest_catch who seq at r) = rd_best_lap_hold_ms r"
  "rd_lap_holds (newest_catch who seq at r) = rd_lap_holds r"
  "rd_verified_through (newest_catch who seq at r) = rd_verified_through r"
  "rd_verified_ahead (newest_catch who seq at r) = rd_verified_ahead r"
  "rd_size (newest_catch who seq at r) = rd_size r" "rd_ring (newest_catch who seq at r) = rd_ring r"
  "rd_id (newest_catch who seq at r) = rd_id r" "rd_min_hold_ms (newest_catch who seq at r) = rd_min_hold_ms r"
  "rd_start_hold_ms (newest_catch who seq at r) = rd_start_hold_ms r"
  by (simp_all add: newest_catch_def)

lemma game_inv_counted:
  assumes inv: "game_inv cfg g" and r: "po_round g = Some r"
    and v: "verify_catch seq at r (po_ladder g) = Some (r', po_ladder g')"
    and g': "po_round g' = Some (newest_catch who seq at r')" "po_round_count g' = po_round_count g"
  shows "game_inv cfg g'"
proof -
  note ri = game_invD(2) [OF inv r] and pi = game_invD(3) [OF inv r]
  have mem: "rd_size r \<in> sizes_of (po_ladder g)" using ri by (simp add: round_inv_def)
  obtain hs where s: "same_settings r r'"
    "\<And>h. h \<in> set hs \<Longrightarrow> \<exists>l. RBT.lookup (rd_lap_holds r') l = Some h \<and> lap_done r' l"
    "rd_best_lap_hold_ms r' = fold (\<lambda>h b. improved b h) hs (rd_best_lap_hold_ms r)"
    "map rg_size (po_ladder g') = map rg_size (po_ladder g)"
    "record_of (po_ladder g') = (record_of (po_ladder g))
       (rd_size r := fold (\<lambda>h b. improved b h) hs (record_of (po_ladder g) (rd_size r)))"
    by (rule verify_catch_spec [OF pi mem, of seq at]) (use v in auto)
  have pi': "progress_inv (newest_catch who seq at r')" by (rule progress_inv_counted [OF pi mem v])
  have sizes: "sizes_of (po_ladder g') = sizes_of (po_ladder g)" using s(4) by (simp add: sizes_of_map)
  have same: "rd_size r' = rd_size r" "rd_min_hold_ms r' = cf_min_hold_ms cfg"
      "rd_start_hold_ms r' = start_hold cfg (rd_size r)" "rd_ring r' = rd_ring r" "rd_id r' = rd_id r"
    using s(1) ri by (simp_all add: same_settings_def round_inv_def)
  have bounds: "cf_min_hold_ms cfg \<le> h \<and> h \<le> start_hold cfg n" if "record_of (po_ladder g') n = Some h" for n h
  proof (cases "n = rd_size r \<and> h \<in> set hs")
    case True
    then show ?thesis using s(2) [of h] pi' same by (auto simp: progress_inv_def within_def)
  next
    case False
    then have "record_of (po_ladder g) n = Some h"
      using that s(5) fold_improved_in [of hs _ h] by (auto split: if_splits)
    then show ?thesis using inv by (simp add: game_inv_def)
  qed
  have best: "\<exists>h. record_of (po_ladder g') (rd_size r) = Some h \<and> h \<le> b" if "rd_best_lap_hold_ms r' = Some b" for b
    using fold_improved_mono [OF _ that [unfolded s(3)], of "record_of (po_ladder g) (rd_size r)"] ri s(5)
    by (simp add: round_inv_def)
  have "round_inv cfg g' (newest_catch who seq at r')"
    using pi' same ri sizes best g' by (simp add: round_inv_def)
  then show ?thesis using inv s(4) sizes bounds g' by (simp add: game_inv_def)
qed

lemma effect_inv:
  assumes "effect cfg g g'" "game_inv cfg g"
  shows "game_inv cfg g'"
  using assms(1)
proof (cases rule: effect.cases)
  case ended
  then show ?thesis using assms(2) by (auto simp: game_inv_def same_ladder_def)
next
  case (quiet r fl pace)
  have "round_inv cfg g' (r\<lparr>rd_pace_ms := pace, rd_flight := fl\<rparr>)"
    using round_inv_ladder [OF game_invD(2) [OF assms(2) quiet(3)], of g'] quiet(1,2)
    by (intro round_inv_pace) (simp add: same_ladder_def)
  then show ?thesis using assms(2) quiet by (auto simp: game_inv_def same_ladder_def)
next
  case (started m at)
  have "round_inv cfg g' (new_round (Suc (po_round_count g)) m at cfg)"
    using started by (simp add: round_inv_def progress_inv_new) (simp add: new_round_def)
  then show ?thesis using assms(2) started by (auto simp: game_inv_def same_ladder_def)
next
  case counted
  then show ?thesis using game_inv_counted assms(2) by blast
next
  case (dropped r d)
  have "record_of (po_ladder g') = record_of (po_ladder g)" "map rg_size (po_ladder g') = map rg_size (po_ladder g)"
    using drop_keeps_records [OF game_invD(2) [OF assms(2) dropped(1)]] dropped(4)
    by (simp_all add: sizes_of_update_first)
  then show ?thesis using assms(2) dropped by (auto simp: game_inv_def sizes_of_map)
qed

lemma game_step_inv: "game_step sha256 cfg g g' \<Longrightarrow> game_inv cfg g \<Longrightarrow> game_inv cfg g'"
  using step_effect effect_inv game_invD(1) by blast

interpretation game: kept_by_steps "game_step sha256 cfg" "game_inv cfg" for sha256 cfg
  by unfold_locales (rule game_step_inv)

lemmas game_steps_inv = game.steps_keep

lemmas reachable_inv = game_steps_inv [OF _ game_inv_default]

section \<open>Every operation returns\<close>

lemma event_caught_returns:
  assumes "game_inv cfg g"
  shows "\<exists>g'. event_caught sha256 who rnd seq proof colours at cfg g = Some g'"
proof -
  obtain res where e: "event_caught sha256 who rnd seq proof colours at cfg g = res" by blast
  from e show ?thesis
  proof (cases rule: event_caught_cases)
    case (right p r)
    have "rd_size r \<in> sizes_of (po_ladder g)" using game_invD(2) [OF assms right(2)] by (simp add: round_inv_def)
    then obtain r' ladder where "verify_catch seq at r (po_ladder g) = Some (r', ladder)"
      by (rule verify_catch_spec [OF game_invD(3) [OF assms right(2)], of _ seq at]) blast
    then show ?thesis using e right(5) by simp
  qed (use e in simp_all)
qed

lemma tick_returns:
  assumes "game_inv cfg g" "0 \<notin> set (cf_sizes cfg)"
  shows "\<exists>g'. tick at awake cfg g = Some g'"
proof (cases "po_round g")
  case None
  then show ?thesis by (simp add: tick_idle Let_def split: option.split)
next
  case (Some r)
  have "rd_size r \<in> set (cf_sizes cfg)" "rd_ring r = [0..<rd_size r]"
    using assms(1) game_invD(2) [OF assms(1) Some] by (auto simp: round_inv_def game_inv_def)
  then have "rd_ring r \<noteq> []" using assms(2) by (metis gr0I upt_eq_Nil_conv not_le)
  then show ?thesis using Some by (simp add: tick_def tick_round_def Let_def split: option.split)
qed

section \<open>Records\<close>

text \<open>
  One step keeps every record or replaces it with the hold of a lap, all of whose catches are verified, of
  the round of that size.
\<close>

lemma step_records:
  assumes inv: "game_inv cfg g" and st: "game_step sha256 cfg g g'"
  shows "record_of (po_ladder g) n = Some h \<Longrightarrow> \<exists>h' \<le> h. record_of (po_ladder g') n = Some h'"
    and "record_of (po_ladder g') n = Some h \<Longrightarrow> record_of (po_ladder g) n = Some h \<or>
      (\<exists>r l. po_round g' = Some r \<and> rd_size r = n \<and> lap_done r l \<and> RBT.lookup (rd_lap_holds r) l = Some h)"
proof -
  have "(\<forall>h. record_of (po_ladder g) n = Some h \<longrightarrow> (\<exists>h' \<le> h. record_of (po_ladder g') n = Some h')) \<and>
    (\<forall>h. record_of (po_ladder g') n = Some h \<longrightarrow> record_of (po_ladder g) n = Some h \<or>
      (\<exists>r l. po_round g' = Some r \<and> rd_size r = n \<and> lap_done r l \<and> RBT.lookup (rd_lap_holds r) l = Some h))"
    using step_effect [OF game_invD(1) [OF inv] st]
  proof (cases rule: effect.cases)
    case (counted r seq at r' who)
    note ri = game_invD(2) [OF inv counted(1)] and pi = game_invD(3) [OF inv counted(1)]
    have mem: "rd_size r \<in> sizes_of (po_ladder g)" using ri by (simp add: round_inv_def)
    obtain hs where s: "same_settings r r'"
      "\<And>h. h \<in> set hs \<Longrightarrow> \<exists>l. RBT.lookup (rd_lap_holds r') l = Some h \<and> lap_done r' l"
      "record_of (po_ladder g') = (record_of (po_ladder g))
         (rd_size r := fold (\<lambda>h b. improved b h) hs (record_of (po_ladder g) (rd_size r)))"
      by (rule verify_catch_spec [OF pi mem, of seq at]) (use counted(2) in auto)
    define new where "new = fold (\<lambda>h b. improved b h) hs (record_of (po_ladder g) (rd_size r))"
    have rec: "record_of (po_ladder g') n = (if n = rd_size r then new else record_of (po_ladder g) n)"
      using s(3) by (simp add: new_def)
    have better: "\<exists>h' \<le> h. new = Some h'" if "record_of (po_ladder g) (rd_size r) = Some h" for h
      using fold_improved_le [of hs "record_of (po_ladder g) (rd_size r)"] that unfolding new_def by blast
    have earned: "\<exists>l. lap_done (newest_catch who seq at r') l \<and> RBT.lookup (rd_lap_holds (newest_catch who seq at r')) l = Some h"
      if "h \<in> set hs" for h using s(2) [OF that] by (auto simp: lap_done_def)
    have sz: "rd_size (newest_catch who seq at r') = rd_size r" using s(1) by (simp add: same_settings_def)
    show ?thesis
    proof (cases "n = rd_size r")
      case True
      have "record_of (po_ladder g) n = Some h \<or> h \<in> set hs" if "new = Some h" for h
        using fold_improved_in [OF that [unfolded new_def]] True by blast
      then show ?thesis using rec True better earned sz counted(3) by (metis (full_types))
    qed (simp add: rec)
  next
    case (dropped r d)
    then show ?thesis using drop_keeps_records [OF game_invD(2) [OF inv dropped(1)]] by simp
  qed (auto simp: same_ladder_def)
  then show "record_of (po_ladder g) n = Some h \<Longrightarrow> \<exists>h' \<le> h. record_of (po_ladder g') n = Some h'"
    "record_of (po_ladder g') n = Some h \<Longrightarrow> record_of (po_ladder g) n = Some h \<or>
      (\<exists>r l. po_round g' = Some r \<and> rd_size r = n \<and> lap_done r l \<and> RBT.lookup (rd_lap_holds r) l = Some h)"
    by blast+
qed

text \<open>The two records of the whole game: what a step can do to them.\<close>

definition records_step :: "potato_records \<Rightarrow> potato_records \<Rightarrow> bool" where
  "records_step rs rs' \<longleftrightarrow> rs' = rs \<or> (\<exists>at r. rs' = count_catches at r rs) \<or> (\<exists>who n at c. rs' = count_cycle who n at c rs)"

lemma records_step_refl [simp]: "records_step rs rs"
  by (simp add: records_step_def)

lemma records_step_cycle: "records_step rs (count_cycle who n at c rs)"
  unfolding records_step_def by blast

lemma drop_ball_records:
  "records_step (po_records g) (po_records (drop_ball at reason who thrower seq stage stage_ms detail cfg g))"
proof (cases "po_round g")
  case (Some r)
  then obtain g' where "drop_ball at reason who thrower seq stage stage_ms detail cfg g = g'"
    "po_records g' = count_catches at r (po_records g)"
    by (rule drop_ball_round)
  then show ?thesis by (auto simp: records_step_def)
qed (simp add: drop_ball_no_round)

lemma drop_ball_records_after:
  "po_records g0 = po_records g \<Longrightarrow>
     records_step (po_records g) (po_records (drop_ball at reason who thrower seq stage stage_ms detail cfg g0))"
  using drop_ball_records by metis

lemma event_caught_records:
  assumes "event_caught sha256 who rnd seq proof colours at cfg g = Some g'"
  shows "records_step (po_records g) (po_records g')"
  using assms
proof (cases rule: event_caught_cases)
  case (right p r)
  then show ?thesis by (cases "verify_catch seq at r (po_ladder g)") auto
next
  case wrong
  then show ?thesis by (simp add: drop_ball_records_after)
qed simp_all

lemma event_records:
  assumes "event sha256 host e at cfg g = Some g'"
  shows "records_step (po_records g) (po_records g')"
proof (cases "po_host g = Some host")
  case True
  have woke: "records_step (po_records g) (po_records (event_woke who w st at g))" for who w st
    by (auto simp: event_woke_def Let_def records_step_cycle split: option.split bool.split)
  have hello: "records_step (po_records g) (po_records (event_hello sha256 who p c n lr ls at cfg g))" for who p c n lr ls
    by (auto simp: event_hello_def Let_def intro: drop_ball_records_after split: option.split)
  have failed: "records_step (po_records g) (po_records (event_failed who st er at cfg g))" for who st er
    by (simp add: event_failed_def Let_def drop_ball_records_after)
  have dropped: "records_step (po_records g) (po_records (event_dropped who rnd seq t n re ph ms at cfg g))" for who rnd seq t n re ph ms
    by (simp add: event_dropped_def drop_ball_records split: option.split)
  show ?thesis using assms True
    by (cases "ev_kind e")
      (auto simp: event_def Let_def event_slept_def event_threw_def event_listening_def woke hello failed dropped
        intro: event_caught_records)
qed (use assms in \<open>simp add: event_def\<close>)

lemma agent_gone_records: "records_step (po_records g) (po_records (agent_gone host at cfg g))"
  by (auto simp: agent_gone_def Let_def intro: drop_ball_records split: option.split)

lemma game_step_records: "game_step sha256 cfg g g' \<Longrightarrow> records_step (po_records g) (po_records g')"
proof (erule game_stepE)
  fix at awake assume "tick at awake cfg g = Some g'"
  then show ?thesis
    by (cases "po_round g")
      (auto simp: tick_idle tick_def tick_round_def Let_def intro: drop_ball_records split: option.splits if_splits)
next
  fix client at assume "g' = snd (faster client at cfg g)"
  then show ?thesis by (simp add: faster_def Let_def split: option.split)
next
  fix client at assume "g' = snd (restart client at cfg g)"
  then show ?thesis by (simp add: restart_def split: option.split)
next
  fix host players at assume "g' = agent_hello host players at cfg g"
  then show ?thesis using agent_gone_records by (simp add: agent_hello_def end_quietly_def Let_def)
qed (simp_all add: agent_gone_records event_records resumed_def)

text \<open>A cycle below a value of whole tenths is at most that value when rounded.\<close>

lemma tenths_le:
  assumes "x < of_int k / 10"
  shows "tenths x \<le> of_int k / 10"
proof -
  have "\<lfloor>x * 10 + 1 / 2\<rfloor> < k + 1" unfolding floor_less_iff using assms by simp
  moreover have "\<lceil>x * 10 - 1 / 2\<rceil> \<le> k" unfolding ceiling_le_iff using assms by simp
  ultimately have "(if 0 \<le> x then \<lfloor>x * 10 + 1 / 2\<rfloor> else \<lceil>x * 10 - 1 / 2\<rceil>) \<le> k" by simp
  then show ?thesis unfolding tenths_def by (metis divide_right_mono of_int_le_iff zero_le_numeral)
qed

definition records_inv :: "potato_records \<Rightarrow> bool" where
  "records_inv rs \<longleftrightarrow> (\<forall>r. rs_fastest_cycle_ms rs = Some r \<longrightarrow> (\<exists>k. rc_value r = of_int k / 10))"

definition records_le :: "potato_records \<Rightarrow> potato_records \<Rightarrow> bool" where
  "records_le rs rs' \<longleftrightarrow>
     (\<forall>r. rs_fastest_cycle_ms rs = Some r \<longrightarrow> (\<exists>r'. rs_fastest_cycle_ms rs' = Some r' \<and> rc_value r' \<le> rc_value r)) \<and>
     (\<forall>r. rs_longest_round rs = Some r \<longrightarrow> (\<exists>r'. rs_longest_round rs' = Some r' \<and> rc_value r \<le> rc_value r'))"

lemma count_cycle_le: "records_inv rs \<Longrightarrow> records_inv (count_cycle who n at c rs) \<and> records_le rs (count_cycle who n at c rs)"
proof (cases "case rs_fastest_cycle_ms rs of None \<Rightarrow> True | Some r \<Rightarrow> c < rc_value r")
  case True
  assume inv: "records_inv rs"
  have "tenths c \<le> rc_value r" if "rs_fastest_cycle_ms rs = Some r" for r
  proof -
    obtain k where "rc_value r = of_int k / 10" using inv \<open>rs_fastest_cycle_ms rs = Some r\<close> by (auto simp: records_inv_def)
    then show ?thesis using tenths_le [of c k] True \<open>rs_fastest_cycle_ms rs = Some r\<close> by simp
  qed
  moreover have "\<exists>k. tenths c = of_int k / 10" unfolding tenths_def by blast
  ultimately show ?thesis using True unfolding count_cycle_def records_inv_def records_le_def by simp
qed (simp add: count_cycle_def records_le_def)

lemma count_catches_le: "records_inv rs \<Longrightarrow> records_inv (count_catches at r rs) \<and> records_le rs (count_catches at r rs)"
  by (auto simp: count_catches_def records_inv_def records_le_def Let_def split: option.splits)

lemma records_step_le: "records_step rs rs' \<Longrightarrow> records_inv rs \<Longrightarrow> records_inv rs' \<and> records_le rs rs'"
  using count_cycle_le count_catches_le by (auto simp: records_step_def records_le_def)

lemma records_le_trans: "records_le a b \<Longrightarrow> records_le b c \<Longrightarrow> records_le a c"
  unfolding records_le_def by (meson order_trans)

end
