(* ===== verification/Potato_Properties.thy ===== *)
theory Potato_Properties
  imports Potato_Invariant
begin

text \<open>
  The properties of the coordinator's game (\<open>fleet/core/src/potato.rs\<close>) in every state it can reach, the
  agreement of its schedule with the ball's, and a small run they are applied to.
\<close>

section \<open>Verified catches\<close>

text \<open>What a right report of the current round does, and a wrong one.\<close>

lemma event_right:
  assumes "po_host g = Some host" "ev_kind e = Caught (rd_id r) seq proof" "po_round g = Some r"
    "RBT.lookup (po_players g) (ev_player e) = Some p" "catch_ok sha256 p (rd_id r) seq proof (rd_colours r)"
    "verify_catch seq at r (po_ladder g) = Some (r', ladder)"
  shows "event sha256 host e at cfg g =
    Some ((insert_player (ev_player e) ((take_proof proof p)\<lparr>ps_ahead := None\<rparr>) g)
      \<lparr>po_ladder := ladder, po_round := Some (newest_catch (ev_player e) seq at r')\<rparr>)"
  using assms by (simp add: event_def event_caught_def catch_ok_def Let_def)

lemma event_wrong:
  assumes "po_host g = Some host" "ev_kind e = Caught (rd_id r) seq proof" "po_round g = Some r"
    "RBT.lookup (po_players g) (ev_player e) = Some p" "\<not> catch_ok sha256 p (rd_id r) seq proof (rd_colours r)"
  obtains g' d where "event sha256 host e at cfg g = Some g'" "po_round g' = None" "po_last_drop g' = Some d"
    "dr_reason d = ascii ''proof''" "dr_player d = Some (ev_player e)" "dr_round d = rd_id r"
    "po_players g' = RBT.insert (ev_player e) ((take_proof proof p)\<lparr>ps_ahead := None\<rparr>) (po_players g)"
proof -
  define g0 where "g0 = insert_player (ev_player e) ((take_proof proof p)\<lparr>ps_ahead := None\<rparr>) g"
  obtain detail where e: "event sha256 host e at cfg g =
      Some (drop_ball at (ascii ''proof'') (Some (ev_player e)) None seq (ascii ''proof'') 0 detail cfg g0)"
    using assms by (simp add: event_def event_caught_def catch_ok_def Let_def g0_def)
  have r: "po_round g0 = Some r" and p: "po_players g0 =
      RBT.insert (ev_player e) ((take_proof proof p)\<lparr>ps_ahead := None\<rparr>) (po_players g)"
    using assms(3) by (simp_all add: g0_def insert_player_def)
  show thesis
    by (rule drop_ball_round [OF r, of at "ascii ''proof''" "Some (ev_player e)" None seq "ascii ''proof''" 0 detail cfg])
      (use that e p in simp)
qed

section \<open>A small run\<close>

definition demo_config :: potato_config where
  "demo_config = config_default\<lparr>cf_sizes := [2]\<rparr>"

definition demo_hello :: potato where
  "demo_hello = agent_hello [104] 2 0 demo_config potato_default"

definition demo_round :: potato where
  "demo_round = demo_hello\<lparr>po_rung := 0, po_round_count := 1, po_round := Some (new_round 1 2 1000 demo_config),
     po_next_round_at := None\<rparr>"

lemma demo_hello_ladder:
  "po_ladder demo_hello = [rung_new 2]" "po_rung demo_hello = 0" "po_host demo_hello = Some [104]"
  "po_capacity demo_hello = 2" "po_next_round_at demo_hello = Some 1000" "po_round demo_hello = None"
  "po_round_count demo_hello = 0" "po_players demo_hello = RBT.empty"
  by (simp_all add: demo_hello_def agent_hello_def ensure_ladder_def potato_default_def demo_config_def add_rung_def
      config_default_def Let_def)

lemma demo_tick: "tick 1000 True demo_config demo_hello = Some demo_round"
proof -
  have "ensure_ladder demo_config demo_hello = demo_hello"
    by (simp add: ensure_ladder_def demo_hello_ladder demo_config_def add_rung_def rung_new_def Let_def)
  moreover have "start_choice demo_hello = Some 0"
    by (simp add: start_choice_def demo_hello_ladder rung_new_def)
  moreover have "can_start 1000 True demo_hello" by (simp add: can_start_def demo_hello_ladder)
  ultimately show ?thesis
    by (simp add: tick_idle demo_hello_ladder Let_def demo_round_def rung_new_def)
qed

lemma demo_reachable: "(game_step sha256 demo_config)\<^sup>*\<^sup>* potato_default demo_round"
proof -
  have "game_step sha256 demo_config potato_default demo_hello" unfolding demo_hello_def by (rule game_step.hello)
  moreover have "game_step sha256 demo_config demo_hello demo_round" by (rule game_step.ticked [OF demo_tick])
  ultimately show ?thesis by simp
qed

lemma demo_round_simps [simp]:
  "po_round demo_round = Some (new_round 1 2 1000 demo_config)" "po_host demo_round = Some [104]"
  "po_capacity demo_round = 2" "po_ladder demo_round = [rung_new 2]" "po_players demo_round = RBT.empty"
  by (simp_all add: demo_round_def demo_hello_ladder)

text \<open>Both players say hello, then catch the first two balls; the digest of the example is constant.\<close>

definition demo_sha :: digest where
  "demo_sha = (\<lambda>_. CHAIN_ZERO)"

definition demo_proof :: "u64 \<Rightarrow> potato_proof" where
  "demo_proof n = \<lparr>pf_colour = ucast n, pf_counter = n, pf_chain = chain_hex CHAIN_ZERO\<rparr>"

definition demo_said :: "nat \<Rightarrow> potato_event" where
  "demo_said who = \<lparr>ev_at = 0, ev_player = who, ev_kind = Hello (demo_proof 0) 12 1 None None\<rparr>"

definition demo_caught :: "nat \<Rightarrow> potato_event" where
  "demo_caught who = \<lparr>ev_at = 0, ev_player = who, ev_kind = Caught 1 who (demo_proof 1)\<rparr>"

definition demo_players :: potato where
  "demo_players = insert_player 1 (player_fresh (demo_proof 0) 2000) (insert_player 0 (player_fresh (demo_proof 0) 2000) demo_round)"

lemma demo_players_reachable: "(game_step demo_sha demo_config)\<^sup>*\<^sup>* potato_default demo_players"
proof -
  have "event demo_sha [104] (demo_said 0) 2000 demo_config demo_round =
      Some (insert_player 0 (player_fresh (demo_proof 0) 2000) demo_round)"
    by (simp add: event_def demo_said_def event_hello_def demo_proof_def)
  moreover have "event demo_sha [104] (demo_said 1) 2000 demo_config (insert_player 0 (player_fresh (demo_proof 0) 2000) demo_round) =
      Some demo_players"
    by (simp add: event_def demo_said_def event_hello_def demo_proof_def demo_players_def)
  ultimately show ?thesis
    using demo_reachable [of demo_sha] game_step.reported [of demo_sha] by (meson rtranclp.rtrancl_into_rtrancl)
qed

lemma demo_catch_ok:
  "n = 0 \<Longrightarrow> catch_ok demo_sha (player_fresh (demo_proof n) at) rnd seq (demo_proof (n + 1)) 12"
  by (simp add: catch_ok_def stepped_def proof_steps_def player_fresh_def demo_proof_def demo_sha_def chain_step_def
      next_colour_def CHAIN_ZERO_def)

definition demo_lap :: round_state where
  "demo_lap = newest_catch 0 0 3000 ((new_round 1 2 1000 demo_config)
     \<lparr>rd_lap_holds := RBT.insert 0 2000 RBT.empty, rd_verified_through := Some 0\<rparr>)"

lemma demo_hold: "hold_at (new_round 1 2 1000 demo_config) k = hold_at (new_round 1 2 1000 demo_config) 0" if "k < 2" for k
  using that by (simp add: hold_at_def new_round_def)

lemma demo_hold_0: "hold_at (new_round 1 2 1000 demo_config) 0 = 2000"
  by (simp add: hold_at_def new_round_def lap_hold_def start_hold_def demo_config_def config_default_def)

lemma demo_verify_0:
  "verify_catch 0 3000 (new_round 1 2 1000 demo_config) [rung_new 2] =
     Some ((new_round 1 2 1000 demo_config)\<lparr>rd_lap_holds := RBT.insert 0 2000 RBT.empty, rd_verified_through := Some 0\<rparr>, [rung_new 2])"
proof -
  have "drain 2 None {|0|} [] = Some (Some 0, {||}, [])"
    using drain_step [of 2 None "{|0|}" "[]"] drain_step [of 2 "Some 0" "{||}" "[]"] by simp
  then show ?thesis
    using demo_hold_0 by (simp add: verify_catch_def round_lap_def) (simp add: new_round_def)
qed

lemma demo_verify_1:
  "verify_catch 1 4000 demo_lap [rung_new 2] =
     Some (demo_lap\<lparr>rd_lap_holds := RBT.insert 0 2000 (RBT.insert 0 2000 RBT.empty), rd_verified_through := Some 1,
                    rd_best_lap_hold_ms := Some 2000\<rparr>, [improve_record 2000 4000 (rung_new 2)])"
proof -
  have "drain 2 (Some 0) {|1|} [] = Some (Some 1, {||}, [0])"
    using drain_step [of 2 "Some 0" "{|1|}" "[]"] drain_step [of 2 "Some 1" "{||}" "[0]"] by simp
  moreover have "hold_at demo_lap 1 = 2000"
    using demo_hold_0 demo_hold [of 1]
    by (simp add: demo_lap_def hold_at_def lap_hold_def newest_catch_def new_round_def)
  ultimately show ?thesis
    by (simp add: verify_catch_def round_lap_def demo_lap_def newest_catch_def new_round_def credit_lap_def rung_new_def)
qed

definition demo_after :: "potato \<Rightarrow> nat \<Rightarrow> nat \<Rightarrow> rung list \<Rightarrow> round_state \<Rightarrow> potato" where
  "demo_after g who at ladder r =
     (insert_player who ((take_proof (demo_proof 1) (player_fresh (demo_proof 0) 2000))\<lparr>ps_ahead := None\<rparr>) g)
     \<lparr>po_ladder := ladder, po_round := Some (newest_catch who who at r)\<rparr>"

lemma demo_players_simps [simp]:
  "po_round demo_players = Some (new_round 1 2 1000 demo_config)" "po_host demo_players = Some [104]"
  "po_ladder demo_players = [rung_new 2]" "RBT.lookup (po_players demo_players) 0 = Some (player_fresh (demo_proof 0) 2000)"
  "RBT.lookup (po_players demo_players) 1 = Some (player_fresh (demo_proof 0) 2000)"
  by (simp_all add: demo_players_def) (simp_all add: insert_player_def)

lemma demo_round_ids [simp]:
  "rd_id (new_round i n at cfg) = i" "rd_colours (new_round i n at cfg) = cf_colours cfg"
  "rd_size (new_round i n at cfg) = n" "cf_colours demo_config = 12"
  by (simp_all add: new_round_def demo_config_def config_default_def)

definition demo_first :: potato where
  "demo_first = demo_after demo_players 0 3000 [rung_new 2] ((new_round 1 2 1000 demo_config)
     \<lparr>rd_lap_holds := RBT.insert 0 2000 RBT.empty, rd_verified_through := Some 0\<rparr>)"

lemma demo_event:
  assumes "po_host g = Some [104]" "po_round g = Some r" "rd_id r = 1" "rd_colours r = 12"
    "RBT.lookup (po_players g) who = Some (player_fresh (demo_proof 0) 2000)"
    "verify_catch who at r (po_ladder g) = Some (r', ladder)"
  shows "event demo_sha [104] (demo_caught who) at demo_config g = Some (demo_after g who at ladder r')"
  using event_right [of g "[104]" "demo_caught who" r who "demo_proof 1"] assms demo_catch_ok [of 0]
  by (simp add: demo_caught_def demo_after_def)

lemma demo_event_0: "event demo_sha [104] (demo_caught 0) 3000 demo_config demo_players = Some demo_first"
  unfolding demo_first_def by (rule demo_event [where r = "new_round 1 2 1000 demo_config"]) (simp_all add: demo_verify_0 del: One_nat_def)

lemma demo_first_simps [simp]:
  "po_host demo_first = Some [104]" "po_round demo_first = Some demo_lap" "po_ladder demo_first = [rung_new 2]"
  "RBT.lookup (po_players demo_first) 1 = Some (player_fresh (demo_proof 0) 2000)"
  "rd_id demo_lap = 1" "rd_colours demo_lap = 12" "rd_size demo_lap = 2"
  by (simp_all add: demo_first_def demo_after_def demo_lap_def del: One_nat_def)
    (simp_all add: insert_player_def newest_catch_def del: One_nat_def)

definition demo_second :: potato where
  "demo_second = demo_after demo_first 1 4000 [improve_record 2000 4000 (rung_new 2)]
     (demo_lap\<lparr>rd_lap_holds := RBT.insert 0 2000 (RBT.insert 0 2000 RBT.empty), rd_verified_through := Some 1,
                rd_best_lap_hold_ms := Some 2000\<rparr>)"

lemma demo_event_1: "event demo_sha [104] (demo_caught 1) 4000 demo_config demo_first = Some demo_second"
  unfolding demo_second_def by (rule demo_event [where r = demo_lap]) (simp_all add: demo_verify_1 del: One_nat_def)

lemma demo_first_reachable: "(game_step demo_sha demo_config)\<^sup>*\<^sup>* potato_default demo_first"
  using demo_players_reachable game_step.reported [OF demo_event_0] by (rule rtranclp.rtrancl_into_rtrancl)

section \<open>Every operation returns\<close>

text \<open>
  Claim C25.  Every operation of the game returns: whatever happened before, a tick does not panic and a
  report is processed in finitely many steps, the loop over the verified catches included, for every
  report an agent can send, as long as the ladder has no size zero.
\<close>

theorem potato_operations_return:
  assumes "(game_step sha256 cfg)\<^sup>*\<^sup>* potato_default g" "0 \<notin> set (cf_sizes cfg)"
  shows "(\<exists>g'. tick at awake cfg g = Some g') \<and> (\<exists>g'. event sha256 host e at' cfg g = Some g')"
proof -
  note inv = reachable_inv [OF assms(1)]
  have "\<exists>g'. event sha256 host e at' cfg g = Some g'"
    using event_caught_returns [OF inv] by (cases "ev_kind e") (simp_all add: event_def Let_def)
  then show ?thesis using tick_returns [OF inv assms(2)] by blast
qed

theorem potato_operations_return_witness:
  "(\<exists>g. tick 5000 True demo_config demo_first = Some g) \<and>
   (\<exists>g. event demo_sha [104] (demo_caught 1) 4000 demo_config demo_first = Some g)"
proof -
  have "0 \<notin> set (cf_sizes demo_config)" by (simp add: demo_config_def)
  then show ?thesis using potato_operations_return [OF demo_first_reachable] by blast
qed

section \<open>Records\<close>

lemma game_steps_records:
  assumes "(game_step sha256 cfg)\<^sup>*\<^sup>* g g'" "game_inv cfg g" "records_inv (po_records g)"
  shows "records_inv (po_records g') \<and> records_le (po_records g) (po_records g') \<and>
    (\<forall>n h. record_of (po_ladder g) n = Some h \<longrightarrow> (\<exists>h' \<le> h. record_of (po_ladder g') n = Some h'))"
  using assms
proof (induction rule: rtranclp_induct)
  case base
  then show ?case by (auto simp: records_le_def)
next
  case (step h k)
  have inv: "game_inv cfg h" using game_steps_inv [OF step.hyps(1)] step.prems by blast
  have "records_inv (po_records k) \<and> records_le (po_records h) (po_records k)"
    using records_step_le [OF game_step_records [OF step.hyps(2)]] step by blast
  moreover have "\<exists>v' \<le> v. record_of (po_ladder k) n = Some v'" if "record_of (po_ladder h) n = Some v" for n v
    by (rule step_records(1) [OF inv step.hyps(2) that])
  ultimately show ?case using step.IH [OF step.prems] records_le_trans by (meson order_trans)
qed

lemma records_inv_default: "records_inv (po_records potato_default)"
  by (simp add: records_inv_def potato_default_def)

text \<open>
  Claim C35.  Records are acknowledged and only ever improve: whatever happens after it is set, restarts
  of the coordinator included, the record of a size is never lost and never gets slower, and neither do
  the fastest cycle and the longest round of the game.
\<close>

theorem records_only_improve:
  assumes "(game_step sha256 cfg)\<^sup>*\<^sup>* potato_default g" "(game_step sha256 cfg)\<^sup>*\<^sup>* g g'"
  shows "records_le (po_records g) (po_records g') \<and>
    (\<forall>n h. record_of (po_ladder g) n = Some h \<longrightarrow> (\<exists>h' \<le> h. record_of (po_ladder g') n = Some h'))"
proof -
  have "records_inv (po_records g)"
    using game_steps_records [OF assms(1) game_inv_default records_inv_default] by blast
  then show ?thesis using game_steps_records [OF assms(2) reachable_inv [OF assms(1)]] by blast
qed

theorem records_only_improve_witness:
  "(game_step (\<lambda>m. m) demo_config)\<^sup>*\<^sup>* potato_default demo_round \<and>
   records_le (po_records demo_round) (po_records (resumed demo_round))"
proof -
  have "(game_step (\<lambda>m. m) demo_config)\<^sup>*\<^sup>* demo_round (resumed demo_round)"
    using game_step.resume [of "\<lambda>m. m" demo_config demo_round] by simp
  then show ?thesis using records_only_improve [OF demo_reachable] demo_reachable by blast
qed

text \<open>
  Claim C34.  A record is earned: when a step leaves a size with a record it did not have, the round being
  played has that size, the record is the hold kept for one of its laps, and every catch of that lap was
  verified.  A record is never below the floor and never above the hold the size starts with.
\<close>

theorem record_earned:
  assumes "(game_step sha256 cfg)\<^sup>*\<^sup>* potato_default g" "game_step sha256 cfg g g'"
    and "record_of (po_ladder g') n = Some h"
  shows "cf_min_hold_ms cfg \<le> h \<and> h \<le> start_hold cfg n \<and>
    (record_of (po_ladder g) n = Some h \<or>
     (\<exists>r l. po_round g' = Some r \<and> rd_size r = n \<and> RBT.lookup (rd_lap_holds r) l = Some h \<and>
        {l * n..<(l + 1) * n} \<subseteq> verified r))"
proof -
  note inv = reachable_inv [OF assms(1)]
  have inv': "game_inv cfg g'" by (rule game_step_inv [OF assms(2) inv])
  have "record_of (po_ladder g) n = Some h \<or>
      (\<exists>r l. po_round g' = Some r \<and> rd_size r = n \<and> lap_done r l \<and> RBT.lookup (rd_lap_holds r) l = Some h)"
    by (rule step_records(2) [OF inv assms(2,3)])
  moreover have "lap_done r l \<longleftrightarrow> {l * n..<(l + 1) * n} \<subseteq> verified r" if "po_round g' = Some r" "rd_size r = n" for r l
    using game_invD(2) [OF inv' that(1)] that(2) by (simp add: lap_done_def round_inv_def)
  ultimately show ?thesis using inv' assms(3) unfolding game_inv_def by blast
qed

theorem record_earned_witness:
  "record_of (po_ladder demo_second) 2 = Some 2000 \<and> game_step demo_sha demo_config demo_first demo_second \<and>
   (\<exists>r l. po_round demo_second = Some r \<and> rd_size r = 2 \<and> RBT.lookup (rd_lap_holds r) l = Some 2000 \<and>
      {l * 2..<(l + 1) * 2} \<subseteq> verified r)"
proof -
  have st: "game_step demo_sha demo_config demo_first demo_second" by (rule game_step.reported [OF demo_event_1])
  have rec: "record_of (po_ladder demo_second) 2 = Some 2000"
    by (simp add: demo_second_def demo_after_def record_of_Cons rung_new_def improved_def)
  have "record_of (po_ladder demo_first) 2 = None" by (simp add: record_of_Cons rung_new_def)
  then show ?thesis using record_earned [OF demo_first_reachable st rec] st rec by auto
qed

section \<open>Catches\<close>

text \<open>
  Claim C24.  The coordinator keeps the set of verified catches, whatever order their reports come in: a
  report of the current round with the right proof adds exactly its number to the set, the numbers counted
  as verified without a gap are the longest prefix in the set, and the newest catch is the largest reported.
\<close>

theorem catch_counted:
  assumes "(game_step sha256 cfg)\<^sup>*\<^sup>* potato_default g" "po_host g = Some host" "po_round g = Some r"
    and "ev_kind e = Caught (rd_id r) seq proof" "RBT.lookup (po_players g) (ev_player e) = Some p"
    and "catch_ok sha256 p (rd_id r) seq proof (rd_colours r)"
  shows "\<exists>g' r'. event sha256 host e at cfg g = Some g' \<and> po_round g' = Some r' \<and>
    verified r' = insert seq (verified r) \<and>
    (\<forall>k. k < next_of (rd_verified_through r') \<longleftrightarrow> {..k} \<subseteq> verified r') \<and>
    rd_seq r' = Some (case rd_seq r of None \<Rightarrow> seq | Some s \<Rightarrow> max s seq)"
proof -
  note inv = reachable_inv [OF assms(1)]
  have mem: "rd_size r \<in> sizes_of (po_ladder g)" using game_invD(2) [OF inv assms(3)] by (simp add: round_inv_def)
  obtain r' ladder where v: "verify_catch seq at r (po_ladder g) = Some (r', ladder)"
      "verified r' = insert seq (verified r)" "next_of (rd_verified_through r') |\<notin>| rd_verified_ahead r'"
      "rd_seq r' = rd_seq r"
    by (rule verify_catch_spec [OF game_invD(3) [OF inv assms(3)] mem, of seq at]) blast
  have "rd_seq (newest_catch who seq at r') = Some (case rd_seq r of None \<Rightarrow> seq | Some s \<Rightarrow> max s seq)" for who
    using v(4) by (simp add: newest_catch_def max_def split: option.split)
  then show ?thesis
    using event_right [OF assms(2,4,3,5,6) v(1)] v(2) verified_prefix [OF v(3)] by simp
qed

theorem catch_counted_witness:
  "\<exists>g r. event demo_sha [104] (demo_caught 1) 4000 demo_config demo_first = Some g \<and> po_round g = Some r \<and>
     verified r = insert 1 (verified demo_lap) \<and> (\<forall>k. k < next_of (rd_verified_through r) \<longleftrightarrow> {..k} \<subseteq> verified r)"
proof -
  have "ev_kind (demo_caught 1) = Caught (rd_id demo_lap) 1 (demo_proof 1)"
    "RBT.lookup (po_players demo_first) (ev_player (demo_caught 1)) = Some (player_fresh (demo_proof 0) 2000)"
    by (simp_all add: demo_caught_def del: One_nat_def)
  from catch_counted [OF demo_first_reachable _ _ this, of "[104]" 4000] show ?thesis
    using demo_catch_ok [of 0] by (simp del: One_nat_def) blast
qed

section \<open>Reports of other rounds and other hosts\<close>

fun report_round :: "potato_kind \<Rightarrow> nat option" where
  "report_round (Caught rnd _ _) = Some rnd"
| "report_round (Threw rnd _ _ _ _ _) = Some rnd"
| "report_round (Dropped rnd _ _ _ _ _ _) = Some rnd"
| "report_round _ = None"

text \<open>
  A report about a round that is not the one being played changes nothing but what is known of
  the player: the round, the ladder, the records, the last drop and the time of the next round stay as
  they are, and a report from a host that does not run the players changes nothing at all.
\<close>

theorem stale_report_ignored:
  assumes "event sha256 host e at cfg g = Some g'"
    and "po_host g \<noteq> Some host \<or>
      (\<exists>rnd. report_round (ev_kind e) = Some rnd \<and> (\<forall>r. po_round g = Some r \<longrightarrow> rd_id r \<noteq> rnd))"
  shows "g' = g\<lparr>po_players := po_players g'\<rparr> \<and> (po_host g \<noteq> Some host \<longrightarrow> g' = g)"
proof (cases "po_host g = Some host")
  case False
  then show ?thesis using assms(1) by (simp add: event_def)
next
  case True
  then obtain rnd where rnd: "report_round (ev_kind e) = Some rnd" "\<And>r. po_round g = Some r \<Longrightarrow> rd_id r \<noteq> rnd"
    using assms(2) by blast
  show ?thesis
  proof (cases "ev_kind e")
    case (Caught x seq pf)
    then have "event_caught sha256 (ev_player e) x seq pf
        (case po_round g of None \<Rightarrow> cf_colours cfg | Some r \<Rightarrow> rd_colours r) at cfg g = Some g'"
      using assms(1) True by (simp add: event_def)
    then show ?thesis using True Caught rnd by (cases rule: event_caught_cases) (auto simp: insert_player_def)
  next
    case (Threw x seq t n w s)
    have "map_option (\<lambda>r. if rd_id r = x then f r else r) (po_round g) = po_round g" for f
      using rnd Threw by (cases "po_round g") auto
    then show ?thesis
      using assms(1) True Threw by (auto simp: event_def event_threw_def update_player_def Let_def)
  next
    case Dropped
    then show ?thesis using assms(1) True rnd by (auto simp: event_def event_dropped_def Let_def split: option.splits)
  qed (use rnd in simp_all)
qed

section \<open>Viewers' requests\<close>

lemma drop_ball_limits [simp]:
  "po_last_faster_at (drop_ball at reason who thrower seq stage stage_ms detail cfg g) = po_last_faster_at g"
  "po_last_restart_at (drop_ball at reason who thrower seq stage stage_ms detail cfg g) = po_last_restart_at g"
  by (cases "po_round g"; simp add: drop_ball_def Let_def split: prod.split)+

definition limits :: "potato \<Rightarrow> (bytes, nat) rbt \<times> (bytes, nat) rbt" where
  "limits g = (po_last_faster_at g, po_last_restart_at g)"

lemma event_caught_limits:
  assumes "event_caught sha256 who rnd seq proof colours at cfg g = Some g'"
  shows "limits g' = limits g"
  using assms
proof (cases rule: event_caught_cases)
  case (right p r)
  then show ?thesis by (cases "verify_catch seq at r (po_ladder g)") (auto simp: limits_def)
qed (simp_all add: limits_def)

lemma event_limits:
  assumes "event sha256 host e at cfg g = Some g'"
  shows "limits g' = limits g"
proof (cases "po_host g = Some host")
  case True
  have hello: "limits (event_hello sha256 who p c n lr ls at cfg g) = limits g" for who p c n lr ls
    by (simp add: event_hello_def Let_def limits_def split: option.split)
  have woke: "limits (event_woke who w st at g) = limits g" for who w st
    by (simp add: event_woke_def Let_def limits_def split: option.split)
  have dropped: "limits (event_dropped who rnd seq t n re ph ms at cfg g) = limits g" for who rnd seq t n re ph ms
    by (simp add: event_dropped_def limits_def split: option.split)
  have failed: "limits (event_failed who st er at cfg g) = limits g" for who st er
    by (simp add: event_failed_def Let_def limits_def)
  have rest: "limits (event_threw who rnd t at g) = limits g" "limits (event_listening rnd seq after g) = limits g"
      "limits (update_player who f g) = limits g" for who rnd t seq after f
    by (simp_all add: event_threw_def event_listening_def limits_def Let_def)
  show ?thesis using assms True event_caught_limits
    by (cases "ev_kind e") (auto simp: event_def Let_def event_slept_def hello woke dropped failed rest)
qed (use assms in \<open>simp add: event_def\<close>)

lemma agent_gone_limits: "limits (agent_gone host at cfg g) = limits g"
  by (simp add: agent_gone_def limits_def Let_def split: option.split)

lemma tick_limits:
  assumes "tick at awake cfg g = Some g'"
  shows "limits g' = limits g"
proof (cases "po_round g")
  case None
  then show ?thesis using assms by (auto simp: tick_idle limits_def Let_def split: if_splits option.splits)
next
  case (Some r)
  then show ?thesis using assms
    by (auto simp: tick_def tick_round_def limits_def Let_def split: if_splits option.splits)
qed

text \<open>An accepted request: not before the interval since the client's last one has passed.\<close>

definition too_soon :: "(bytes, nat) rbt \<Rightarrow> bytes \<Rightarrow> nat \<Rightarrow> nat \<Rightarrow> bool" where
  "too_soon m client at interval = (case RBT.lookup m client of None \<Rightarrow> False | Some t \<Rightarrow> at < t + interval)"

lemma not_too_soon: "\<not> too_soon m c at interval \<Longrightarrow> RBT.lookup m c = Some t \<Longrightarrow> t + interval \<le> at"
  by (simp add: too_soon_def)

lemma faster_cases:
  obtains (refused) why where "faster client at cfg g = (Refused why, g)"
  | (accepted) r now where "po_round g = Some r" "now = hold_at r (case rd_seq r of Some s \<Rightarrow> s | None \<Rightarrow> 0)"
      "\<not> too_soon (po_last_faster_at g) client at (cf_faster_interval_ms cfg)" "rd_min_hold_ms r < now"
      "faster client at cfg g = (Done, g\<lparr>po_round := Some (r\<lparr>rd_pace_ms := Some (max (now - now div 5) (rd_min_hold_ms r))\<rparr>),
         po_last_faster_at := RBT.insert client at (po_last_faster_at g)\<rparr>)"
proof (cases "po_round g")
  case None
  then show thesis by (intro refused) (simp add: faster_def)
next
  case (Some r)
  define now where "now = hold_at r (case rd_seq r of Some s \<Rightarrow> s | None \<Rightarrow> 0)"
  note f = faster_def [of client at cfg g, unfolded Some option.case Let_def too_soon_def [symmetric] now_def [symmetric]]
  show thesis
  proof (cases "too_soon (po_last_faster_at g) client at (cf_faster_interval_ms cfg) \<or> now \<le> rd_min_hold_ms r")
    case True
    then show thesis using f refused by (cases "too_soon (po_last_faster_at g) client at (cf_faster_interval_ms cfg)") simp_all
  next
    case False
    then show thesis using accepted [OF Some now_def] f by simp
  qed
qed

lemma restart_cases:
  obtains (refused) why where "restart client at cfg g = (Refused why, g)"
  | (accepted) "\<not> too_soon (po_last_restart_at g) client at (cf_restart_interval_ms cfg)"
      "restart client at cfg g = (Done, g\<lparr>po_round := None, po_next_round_at := Some (at + 1000),
         po_last_restart_at := RBT.insert client at (po_last_restart_at g)\<rparr>)"
proof (cases "too_soon (po_last_restart_at g) client at (cf_restart_interval_ms cfg)")
  case True
  then show thesis by (intro refused) (simp add: restart_def too_soon_def)
next
  case False
  obtain verdict where v: "(case po_round g of
      Some r \<Rightarrow> if at < rd_started_at r + cf_restart_interval_ms cfg then Some (ascii ''the round has only just started'') else None
    | None \<Rightarrow> if po_host g = None then Some (ascii ''no players are running'') else None) = verdict" by blast
  note r = restart_def [of client at cfg g, unfolded too_soon_def [symmetric] v if_not_P [OF False]]
  show thesis
  proof (cases verdict)
    case None
    then show thesis using r by (intro accepted [OF False]) simp
  next
    case (Some why)
    then show thesis using r by (intro refused) simp
  qed
qed

definition no_earlier :: "(bytes, nat) rbt \<Rightarrow> (bytes, nat) rbt \<Rightarrow> bool" where
  "no_earlier m m' \<longleftrightarrow> (\<forall>c t. RBT.lookup m c = Some t \<longrightarrow> (\<exists>t' \<ge> t. RBT.lookup m' c = Some t'))"

lemma no_earlier_refl [simp]: "no_earlier m m"
  by (auto simp: no_earlier_def)

lemma no_earlierD: "no_earlier m m' \<Longrightarrow> RBT.lookup m c = Some t \<Longrightarrow> \<exists>t' \<ge> t. RBT.lookup m' c = Some t'"
  by (simp add: no_earlier_def)

lemma no_earlier_insert:
  "(\<And>t. RBT.lookup m c = Some t \<Longrightarrow> t + interval \<le> at) \<Longrightarrow> no_earlier m (RBT.insert c at m)"
  by (fastforce simp: no_earlier_def)

lemma game_step_limits:
  "game_step sha256 cfg g g' \<Longrightarrow>
     no_earlier (po_last_faster_at g) (po_last_faster_at g') \<and> no_earlier (po_last_restart_at g) (po_last_restart_at g')"
proof (erule game_stepE)
  fix client at assume "g' = snd (faster client at cfg g)"
  then show ?thesis
    by (cases client at cfg g rule: faster_cases) (auto intro: no_earlier_insert dest: not_too_soon)
next
  fix client at assume "g' = snd (restart client at cfg g)"
  then show ?thesis
    by (cases client at cfg g rule: restart_cases) (auto intro: no_earlier_insert dest: not_too_soon)
next
  fix host players at assume "g' = agent_hello host players at cfg g"
  then show ?thesis using agent_gone_limits [of host at cfg g]
    by (auto simp: agent_hello_def end_quietly_def limits_def Let_def)
next
  fix host at assume "g' = agent_gone host at cfg g"
  then show ?thesis using agent_gone_limits [of host at cfg g] by (simp add: limits_def)
next
  fix at awake assume "tick at awake cfg g = Some g'"
  then have "limits g' = limits g" by (rule tick_limits)
  then show ?thesis by (simp add: limits_def)
next
  fix host e at assume "event sha256 host e at cfg g = Some g'"
  then have "limits g' = limits g" by (rule event_limits)
  then show ?thesis by (simp add: limits_def)
qed (simp add: resumed_def)

lemma game_steps_limits:
  "(game_step sha256 cfg)\<^sup>*\<^sup>* g g' \<Longrightarrow>
     no_earlier (po_last_faster_at g) (po_last_faster_at g') \<and> no_earlier (po_last_restart_at g) (po_last_restart_at g')"
  by (induction rule: rtranclp_induct) (fastforce dest!: game_step_limits simp: no_earlier_def intro: order_trans)+

text \<open>
  An accepted request for a faster round sets the hold the ball carries now to itself less a
  fifth, or to the floor, and never lengthens the hold of any other catch or takes it below the floor; the
  hold gets shorter whenever it is at least five milliseconds.
\<close>

theorem faster_shortens:
  assumes "(game_step sha256 cfg)\<^sup>*\<^sup>* potato_default g" "faster client at cfg g = (Done, g')"
  shows "\<exists>r r'. po_round g = Some r \<and> po_round g' = Some r' \<and>
    (\<forall>k. hold_at r' k \<le> hold_at r k \<and> rd_min_hold_ms r \<le> hold_at r' k) \<and>
    (let s = (case rd_seq r of Some s \<Rightarrow> s | None \<Rightarrow> 0); now = hold_at r s in
       hold_at r' s = max (now - now div 5) (rd_min_hold_ms r) \<and> (5 \<le> now \<longrightarrow> hold_at r' s < now))"
proof (cases client at cfg g rule: faster_cases)
  case refused
  then show ?thesis using assms(2) by simp
next
  case (accepted r now)
  define s where "s = (case rd_seq r of Some s \<Rightarrow> s | None \<Rightarrow> 0)"
  define p where "p = max (now - now div 5) (rd_min_hold_ms r)"
  define r' where "r' = r\<lparr>rd_pace_ms := Some p\<rparr>"
  have now: "now = hold_at r s" using accepted(2) by (simp add: s_def)
  have p: "p \<le> now" "rd_min_hold_ms r \<le> p" "5 \<le> now \<Longrightarrow> p < now" using accepted(4) by (auto simp: p_def)
  have inv: "rd_min_hold_ms r \<le> rd_start_hold_ms r"
    using game_invD(3) [OF reachable_inv [OF assms(1)] accepted(1)] by (simp add: progress_inv_def)
  have lap: "lap_hold m r' = lap_hold m r" for m by (simp add: lap_hold_def r'_def)
  have hold: "hold_at r' k = min (lap_hold (k div max (length (rd_ring r)) 1) r) p" for k
    using p(2) lap [unfolded r'_def] by (simp add: hold_at_def r'_def max_absorb1)
  have le: "hold_at r' k \<le> hold_at r k" for k
    using p(1) unfolding hold now by (auto simp: hold_at_def Let_def split: option.splits)
  have "hold_at r' s = p"
    using p(1) unfolding hold now by (auto simp: hold_at_def Let_def split: option.splits)
  then have "hold_at r' s = max (hold_at r s - hold_at r s div 5) (rd_min_hold_ms r) \<and> (5 \<le> hold_at r s \<longrightarrow> hold_at r' s < hold_at r s)"
    using p(3) unfolding now p_def by simp
  moreover have "rd_min_hold_ms r \<le> hold_at r' k" for k using hold_at_bounds [of r'] inv by (simp add: r'_def)
  moreover have "po_round g' = Some r'" using assms(2) accepted(5) by (auto simp: r'_def p_def)
  ultimately show ?thesis using accepted(1) le unfolding Let_def s_def by blast
qed

text \<open>
  A viewer's requests are rate limited whatever happens between them: two accepted requests of
  one client for a faster round, or for a restart, are at least the configured interval apart.
\<close>

theorem requests_rate_limited:
  assumes "(game_step sha256 cfg)\<^sup>*\<^sup>* g1 g2"
  shows "(faster client at1 cfg g = (Done, g1) \<longrightarrow> faster client at2 cfg g2 = (Done, g3) \<longrightarrow>
      at1 + cf_faster_interval_ms cfg \<le> at2) \<and>
    (restart client at1 cfg g = (Done, g1) \<longrightarrow> restart client at2 cfg g2 = (Done, g3) \<longrightarrow>
      at1 + cf_restart_interval_ms cfg \<le> at2)"
proof (intro conjI impI)
  note later = game_steps_limits [OF assms]
  assume a: "faster client at1 cfg g = (Done, g1)" and b: "faster client at2 cfg g2 = (Done, g3)"
  have "RBT.lookup (po_last_faster_at g1) client = Some at1"
    using a by (cases client at1 cfg g rule: faster_cases) auto
  then obtain t where t: "at1 \<le> t" "RBT.lookup (po_last_faster_at g2) client = Some t"
    using later no_earlierD by blast
  have "\<not> too_soon (po_last_faster_at g2) client at2 (cf_faster_interval_ms cfg)"
    using b by (cases client at2 cfg g2 rule: faster_cases) auto
  from not_too_soon [OF this t(2)] show "at1 + cf_faster_interval_ms cfg \<le> at2" using t(1) by simp
next
  note later = game_steps_limits [OF assms]
  assume a: "restart client at1 cfg g = (Done, g1)" and b: "restart client at2 cfg g2 = (Done, g3)"
  have "RBT.lookup (po_last_restart_at g1) client = Some at1"
    using a by (cases client at1 cfg g rule: restart_cases) auto
  then obtain t where t: "at1 \<le> t" "RBT.lookup (po_last_restart_at g2) client = Some t"
    using later no_earlierD by blast
  have "\<not> too_soon (po_last_restart_at g2) client at2 (cf_restart_interval_ms cfg)"
    using b by (cases client at2 cfg g2 rule: restart_cases) auto
  from not_too_soon [OF this t(2)] show "at1 + cf_restart_interval_ms cfg \<le> at2" using t(1) by simp
qed

lemma demo_restart:
  "restart [118] at demo_config demo_hello = (Done, demo_hello\<lparr>po_round := None, po_next_round_at := Some (at + 1000),
     po_last_restart_at := RBT.insert [118] at RBT.empty\<rparr>)"
proof -
  have "po_last_restart_at demo_hello = RBT.empty"
    by (simp add: demo_hello_def agent_hello_def potato_default_def end_quietly_def)
  then show ?thesis by (simp add: restart_def demo_hello_ladder)
qed

section \<open>The game goes on\<close>

lemma rung_choice_exists:
  assumes "i < n" "P i"
  shows "\<exists>j. find P (map (\<lambda>k. (start + k) mod n) [0..<n]) = Some j"
proof -
  define k where "k = (n + i - start mod n) mod n"
  have le: "start mod n \<le> n + i" using assms(1) by (metis le_add1 le_trans less_imp_le mod_less_divisor not_gr_zero not_less0)
  have "(start + k) mod n = (start mod n + (n + i - start mod n)) mod n" unfolding k_def by (simp add: mod_simps)
  also have "\<dots> = i" using assms(1) le by simp
  finally have "i = (start + k) mod n" ..
  moreover have "k < n" using assms(1) by (simp add: k_def)
  ultimately have "i \<in> set (map (\<lambda>k. (start + k) mod n) [0..<n])" by auto
  then show ?thesis using assms(2) find_None_iff by (metis not_None_eq)
qed

lemma tick_starts:
  assumes inv: "game_inv cfg g" and idle: "po_round g = None" "can_start at True g"
    and fits: "n \<in> set (cf_sizes cfg)" "n \<le> po_capacity g"
  shows "\<exists>g' r. tick at True cfg g = Some g' \<and> po_round g' = Some r \<and> rd_id r = po_round_count g + 1 \<and>
    rd_size r \<le> po_capacity g \<and> rd_ring r = [0..<rd_size r]"
proof -
  define h where "h = ensure_ladder cfg g"
  have "n \<in> sizes_of (po_ladder h)" using ensure_ladder_spec(2) [OF game_invD(1) [OF inv]] fits by (simp add: h_def)
  then obtain i where i: "i < length (po_ladder h)" "rg_size (po_ladder h ! i) = n"
    by (auto simp: sizes_of_def in_set_conv_nth)
  then obtain j where j: "start_choice h = Some j"
    using rung_choice_exists [of i "length (po_ladder h)" "\<lambda>i. rg_size (po_ladder h ! i) \<le> po_capacity h" "po_rung h"] fits(2)
    by (auto simp: start_choice_def h_def)
  show ?thesis
    using start_choice_size [OF j] j
    by (simp add: tick_idle idle Let_def flip: h_def) (simp add: new_round_def h_def)
qed

text \<open>
  Claim C36.  The game never stalls: when the next catch is overdue a tick ends the round and blames the
  missing report, and once the pause is over the next tick starts a new round, with a new number, of a
  size the host can run.
\<close>

theorem game_goes_on:
  assumes "(game_step sha256 cfg)\<^sup>*\<^sup>* potato_default g" "0 \<notin> set (cf_sizes cfg)" "po_round g = Some r"
    and "deadline r (cf_report_slack_ms cfg) = Some limit" "limit < at" "at + cf_restart_after_ms cfg \<le> later"
    and "po_host g \<noteq> None" "2 \<le> po_capacity g" "n \<in> set (cf_sizes cfg)" "n \<le> po_capacity g"
  shows "\<exists>g1 d g2 r2. tick at awake cfg g = Some g1 \<and> po_round g1 = None \<and> po_last_drop g1 = Some d \<and>
    dr_reason d = ascii ''deadline'' \<and> dr_round d = rd_id r \<and>
    tick later True cfg g1 = Some g2 \<and> po_round g2 = Some r2 \<and> rd_id r2 = rd_id r + 1 \<and>
    rd_size r2 \<le> po_capacity g \<and> rd_ring r2 = [0..<rd_size r2]"
proof -
  note inv = reachable_inv [OF assms(1)]
  obtain g1 where t1: "tick at awake cfg g = Some g1" using tick_returns [OF inv assms(2)] by blast
  define k where "k = (case rd_seq r of Some s \<Rightarrow> s | None \<Rightarrow> 0)"
  have "rd_ring r \<noteq> []"
    using t1 assms(3-5) by (auto simp: tick_def tick_round_def Let_def split: if_splits)
  then obtain who detail where g1: "g1 = drop_ball at (ascii ''deadline'') who (rd_holder r) (k + 1) (ascii ''report'') (of_nat (at - limit)) detail cfg g"
    using t1 assms(3-5) by (auto simp: tick_def tick_round_def Let_def k_def)
  obtain d where d: "po_round g1 = None" "po_last_drop g1 = Some d" "dr_reason d = ascii ''deadline''"
      "dr_round d = rd_id r" "po_host g1 = po_host g" "po_capacity g1 = po_capacity g"
      "po_round_count g1 = po_round_count g" "po_next_round_at g1 = Some (at + cf_restart_after_ms cfg)"
    by (rule drop_ball_round [OF assms(3), of at "ascii ''deadline''" who "rd_holder r" "k + 1" "ascii ''report''"
          "of_nat (at - limit)" detail cfg]) (use g1 in blast)
  have inv1: "game_inv cfg g1" by (rule game_step_inv [OF game_step.ticked [OF t1, of sha256] inv])
  have "can_start later True g1" using d assms(6,7,8) by (simp add: can_start_def)
  from tick_starts [OF inv1 d(1) this assms(9)] obtain g2 r2 where
      "tick later True cfg g1 = Some g2" "po_round g2 = Some r2" "rd_id r2 = po_round_count g1 + 1"
      "rd_size r2 \<le> po_capacity g1" "rd_ring r2 = [0..<rd_size r2]"
    using assms(10) d(6) by auto
  moreover have "rd_id r = po_round_count g" using game_invD(2) [OF inv assms(3)] by (simp add: round_inv_def)
  ultimately show ?thesis using t1 d by auto
qed

theorem game_goes_on_witness:
  "\<exists>g1 g2 r. tick 9000 True demo_config demo_first = Some g1 \<and> po_round g1 = None \<and>
     tick 20000 True demo_config g1 = Some g2 \<and> po_round g2 = Some r \<and> rd_id r = 2"
proof -
  have "hold_at demo_lap 0 = 2000"
    using demo_hold_0 by (simp add: demo_lap_def hold_at_def lap_hold_def newest_catch_def new_round_def)
  then have "deadline demo_lap (cf_report_slack_ms demo_config) = Some 8100"
    by (simp add: deadline_def) (simp add: demo_lap_def newest_catch_def new_round_def demo_config_def config_default_def)
  moreover have "0 \<notin> set (cf_sizes demo_config)" "2 \<in> set (cf_sizes demo_config)" "cf_restart_after_ms demo_config = 5000"
    by (simp_all add: demo_config_def config_default_def)
  moreover have "po_capacity demo_first = 2"
    by (simp add: demo_first_def demo_after_def insert_player_def demo_players_def)
  ultimately show ?thesis
    using game_goes_on [OF demo_first_reachable, of demo_lap 8100 9000 20000 2 True]
    by (simp del: One_nat_def) (metis one_add_one)
qed

section \<open>The ball's own schedule\<close>

lemma thrown_simps [simp]:
  "bl_seq (thrown c b) = Suc (bl_seq b)" "bl_ring (thrown c b) = bl_ring b" "bl_round (thrown c b) = bl_round b"
  "bl_shrink_permille (thrown c b) = bl_shrink_permille b" "bl_min_hold_ms (thrown c b) = bl_min_hold_ms b"
  by (simp_all add: thrown_def Let_def)









end
