(* ===== verification/Potato_Match.thy ===== *)
theory Potato_Match
  imports Potato_Properties
begin

text \<open>
  The player (\<open>fleet/potato/src/bin/potato.rs\<close>) against the coordinator (\<open>fleet/core/src/potato.rs\<close>): a
  player whose memory survived its sleep is verified and stays in step with what the coordinator knows of
  it, and one that lost catches is found out at its next catch.  SHA-256 is a parameter; all that is asked
  of it is that the two inputs hashed for that catch do not collide, and digests of 32 bytes.
\<close>

text \<open>What the coordinator knows of a player is the memory given, and no hello is waiting for its catch.\<close>

definition knows :: "player_state \<Rightarrow> memory \<Rightarrow> bool" where
  "knows p m \<longleftrightarrow> (case m of (colour, counter, ch) \<Rightarrow>
     ps_colour p = colour \<and> ps_counter p = counter \<and> ps_chain p = chain_hex ch \<and> length ch = 32) \<and> ps_ahead p = None"

definition step_input :: "memory \<Rightarrow> u32 \<Rightarrow> nat \<Rightarrow> nat \<Rightarrow> bytes" where
  "step_input m colours rnd seq = (case m of (colour, counter, ch) \<Rightarrow> chain_input ch rnd seq (next_colour colour colours))"

lemma catch_ok_iff:
  assumes "knows p k" "length (snd (snd m)) = 32"
    and "sha256 (step_input k colours rnd seq) = sha256 (step_input m colours rnd seq) \<longrightarrow>
      step_input k colours rnd seq = step_input m colours rnd seq"
  shows "catch_ok sha256 p rnd seq (memory_proof (replay sha256 colours m [(rnd, seq)])) colours \<longleftrightarrow>
    snd k = snd m \<and> next_colour (fst k) colours = next_colour (fst m) colours"
proof -
  obtain kc kn kch mc mn mch where km: "k = (kc, kn, kch)" "m = (mc, mn, mch)" by (metis prod_cases3)
  have "sha256 (chain_input kch rnd seq (next_colour kc colours)) = sha256 (chain_input mch rnd seq (next_colour mc colours)) \<longleftrightarrow>
      kch = mch \<and> next_colour kc colours = next_colour mc colours"
    using assms chain_input_eq_iff [of kch mch] by (auto simp: km step_input_def knows_def)
  then show ?thesis using assms(1)
    by (auto simp: km knows_def catch_ok_def stepped_def proof_steps_def memory_proof_def chain_step_def Let_def)
qed

lemma knows_taken:
  "length (snd (snd m)) = 32 \<Longrightarrow> knows ((take_proof (memory_proof m) p)\<lparr>ps_ahead := None\<rparr>) m"
  by (cases m) (simp add: knows_def take_proof_def memory_proof_def)

text \<open>What the player answers a ball it catches with.\<close>

lemma handle_ball_caught:
  assumes "handle sha256 urandom (Ball ball) sh = (ans, [Report_Caught me rnd seq proof], held, sh')"
  shows "rnd = bl_round ball \<and> seq = bl_seq ball \<and> proof = memory_proof (memory_of (sh_state sh')) \<and>
    memory_of (sh_state sh') =
      replay sha256 (pl_colours (sh_state sh)) (memory_of (sh_state sh)) [(bl_round ball, bl_seq ball)] \<and>
    pl_player (sh_state sh) = Some me \<and> pl_accepting (sh_state sh) \<and> pl_floor (sh_state sh) \<le> rnd"
proof -
  obtain me' where me: "pl_player (sh_state sh) = Some me'" "bl_ring ball \<noteq> []"
    using assms by (auto simp: handle_def Let_def split: option.splits if_splits)
  obtain res s' where c: "catch_ball sha256 ball (sh_state sh) = (res, s')" by fastforce
  from c show ?thesis
  proof (cases rule: catch_ball_cases)
    case (refused why)
    then show ?thesis using assms me c by (auto simp: handle_def Let_def split: option.splits)
  next
    case (caught colour pace)
    then show ?thesis using assms me c by (auto simp: handle_def Let_def player_proof_memory)
  qed
qed

lemma length_replay_chain: "\<forall>x. length (sha256 x) = 32 \<Longrightarrow> length (snd (snd (replay sha256 colours m [(rnd, seq)]))) = 32"
  by (cases m) (simp add: Let_def chain_step_def)

text \<open>
  Claim C23.  The proof tells whether a player's memory survived: when a player catches a ball of the round
  being played and the coordinator gets its report, then, if the coordinator knows the memory the player
  had, the catch is verified, the round goes on and the coordinator knows the player's new memory; and if
  the player's counter or chain was another, as after a sleep that lost or rolled back catches, the round
  ends there and the player is blamed.
\<close>

theorem memory_survives_or_round_ends:
  assumes "(game_step sha256 cfg)\<^sup>*\<^sup>* potato_default g" "po_host g = Some host" "po_round g = Some r"
    and "RBT.lookup (po_players g) me = Some p" "knows p k"
    and "handle sha256 urandom (Ball ball) sh = (ans, [Report_Caught me (rd_id r) seq proof], held, sh')"
    and "pl_colours (sh_state sh) = rd_colours r" "length (pl_chain (sh_state sh)) = 32" "\<forall>x. length (sha256 x) = 32"
    and "sha256 (step_input k (rd_colours r) (rd_id r) seq) = sha256 (step_input (memory_of (sh_state sh)) (rd_colours r) (rd_id r) seq) \<longrightarrow>
      step_input k (rd_colours r) (rd_id r) seq = step_input (memory_of (sh_state sh)) (rd_colours r) (rd_id r) seq"
    and "e = \<lparr>ev_at = sent, ev_player = me, ev_kind = Caught (rd_id r) seq proof\<rparr>"
  shows "\<exists>g' p'. event sha256 host e at cfg g = Some g' \<and>
    RBT.lookup (po_players g') me = Some p' \<and> knows p' (memory_of (sh_state sh')) \<and>
    (k = memory_of (sh_state sh) \<longrightarrow> (\<exists>r'. po_round g' = Some r' \<and> verified r' = insert seq (verified r))) \<and>
    (snd k \<noteq> snd (memory_of (sh_state sh)) \<longrightarrow> po_round g' = None \<and>
      (\<exists>d. po_last_drop g' = Some d \<and> dr_reason d = ascii ''proof'' \<and> dr_player d = Some me \<and> dr_round d = rd_id r))"
proof -
  define m where "m = memory_of (sh_state sh)"
  define m' where "m' = memory_of (sh_state sh')"
  have ball: "rd_id r = bl_round ball" "seq = bl_seq ball" "proof = memory_proof m'"
      "m' = replay sha256 (rd_colours r) m [(rd_id r, seq)]"
    using handle_ball_caught [OF assms(6)] assms(7) by (simp_all add: m_def m'_def)
  have len: "length (snd (snd m)) = 32" "length (snd (snd m')) = 32"
    using assms(8) length_replay_chain [OF assms(9)] unfolding ball(4) by (simp_all only: m_def memory_of_def snd_conv)
  have ok: "catch_ok sha256 p (rd_id r) seq proof (rd_colours r) \<longleftrightarrow>
      snd k = snd m \<and> next_colour (fst k) (rd_colours r) = next_colour (fst m) (rd_colours r)"
    unfolding ball(3,4) using catch_ok_iff [OF assms(5) len(1)] assms(10) by (simp add: m_def)
  have e: "ev_kind e = Caught (rd_id r) seq proof" "ev_player e = me" using assms(11) by simp_all
  have known: "knows ((take_proof proof p)\<lparr>ps_ahead := None\<rparr>) m'" using knows_taken [OF len(2)] ball(3) by simp
  show ?thesis
  proof (cases "catch_ok sha256 p (rd_id r) seq proof (rd_colours r)")
    case True
    note inv = reachable_inv [OF assms(1)]
    have mem: "rd_size r \<in> sizes_of (po_ladder g)" using game_invD(2) [OF inv assms(3)] by (simp add: round_inv_def)
    obtain r' ladder where v: "verify_catch seq at r (po_ladder g) = Some (r', ladder)" "verified r' = insert seq (verified r)"
      by (rule verify_catch_spec [OF game_invD(3) [OF inv assms(3)] mem, of seq at]) blast
    show ?thesis
      using event_right [OF assms(2) e(1) assms(3) _ True v(1), of cfg] assms(4) e(2) known v(2) ok True
      by (simp add: insert_player_def m_def m'_def)
  next
    case False
    then have "k \<noteq> m" using ok by blast
    moreover obtain g' d where "event sha256 host e at cfg g = Some g'" "po_round g' = None" "po_last_drop g' = Some d"
      "dr_reason d = ascii ''proof''" "dr_player d = Some me" "dr_round d = rd_id r"
      "po_players g' = RBT.insert me ((take_proof proof p)\<lparr>ps_ahead := None\<rparr>) (po_players g)"
      by (rule event_wrong [OF assms(2) e(1) assms(3) _ False, of at cfg]) (use assms(4) e(2) in auto)
    ultimately show ?thesis using known by (auto simp: m_def m'_def)
  qed
qed

definition demo_shared :: "u64 \<Rightarrow> shared" where
  "demo_shared n = \<lparr>sh_state = \<lparr>pl_player = Some 0, pl_colour = 0, pl_colours = 12, pl_counter = n, pl_chain = CHAIN_ZERO,
     pl_last = None, pl_pace = None, pl_accepting = True, pl_floor = 0\<rparr>, sh_rx = False, sh_colours = 12\<rparr>"

lemma demo_memory: "memory_of (sh_state (demo_shared n)) = (0, n, CHAIN_ZERO)"
  by (simp add: demo_shared_def memory_of_def)

lemma demo_knows: "knows (player_fresh (demo_proof 0) at) (0, 0, CHAIN_ZERO)"
  by (simp add: knows_def player_fresh_def demo_proof_def CHAIN_ZERO_def)

theorem memory_survives_or_round_ends_witness:
  "(\<exists>proof g r. event demo_sha [104] \<lparr>ev_at = 0, ev_player = 0, ev_kind = Caught 1 0 proof\<rparr> 3000 demo_config demo_players = Some g \<and>
      po_round g = Some r \<and> 0 \<in> verified r) \<and>
   (\<exists>proof g. event demo_sha [104] \<lparr>ev_at = 0, ev_player = 0, ev_kind = Caught 1 0 proof\<rparr> 3000 demo_config demo_players = Some g \<and>
      po_round g = None)"
proof -
  define r where "r = new_round 1 2 1000 demo_config"
  have r: "po_round demo_players = Some r" "rd_id r = 1" "rd_colours r = 12" by (simp_all add: r_def del: One_nat_def)
  have "\<exists>proof g. event demo_sha [104] \<lparr>ev_at = 0, ev_player = 0, ev_kind = Caught 1 0 proof\<rparr> 3000 demo_config demo_players = Some g \<and>
      (n = 0 \<longrightarrow> (\<exists>r'. po_round g = Some r' \<and> verified r' = insert 0 (verified r))) \<and> (n \<noteq> 0 \<longrightarrow> po_round g = None)" for n :: u64
  proof -
    obtain ans pf held sh' where h: "handle demo_sha [] (Ball demo_ball) (demo_shared n) =
        (ans, [Report_Caught 0 (rd_id r) 0 pf], held, sh')"
      unfolding r(2) by (simp add: handle_def demo_shared_def catch_ball_def demo_ball_def Let_def)
    have p: "RBT.lookup (po_players demo_players) 0 = Some (player_fresh (demo_proof 0) 2000)" by simp
    define e where "e = \<lparr>ev_at = 0, ev_player = 0, ev_kind = Caught (rd_id r) 0 pf\<rparr>"
    have "\<exists>g' p'. event demo_sha [104] e 3000 demo_config demo_players = Some g' \<and>
      RBT.lookup (po_players g') 0 = Some p' \<and> knows p' (memory_of (sh_state sh')) \<and>
      ((0, 0, CHAIN_ZERO) = memory_of (sh_state (demo_shared n)) \<longrightarrow>
         (\<exists>r'. po_round g' = Some r' \<and> verified r' = insert 0 (verified r))) \<and>
      (snd (0 :: u32, 0 :: u64, CHAIN_ZERO) \<noteq> snd (memory_of (sh_state (demo_shared n))) \<longrightarrow> po_round g' = None \<and>
        (\<exists>d. po_last_drop g' = Some d \<and> dr_reason d = ascii ''proof'' \<and> dr_player d = Some 0 \<and> dr_round d = rd_id r))"
      by (rule memory_survives_or_round_ends [OF demo_players_reachable _ r(1) p demo_knows h _ _ _ _ e_def])
        (simp_all add: r demo_memory step_input_def, simp_all add: demo_shared_def demo_sha_def CHAIN_ZERO_def)
    then show ?thesis unfolding e_def r(2) by (auto simp: demo_memory)
  qed
  from this [of 0] this [of 5] show ?thesis by auto
qed

end
