(* ===== verification/Potato_Agent.thy ===== *)
theory Potato_Agent
  imports Potato_Game "HOL-Library.Monad_Syntax"
begin

text \<open>
  The host's side of the hot potato: the driver of \<open>src/fleet/agent/potato.rs\<close>, which boots, sleeps and
  wakes the player VMs and relays their reports.  Its commands (\<open>Ops\<close>) and its messages to the
  coordinator are the actions a handler appends to the driver's log; each handler reads the host's clocks
  once, and the address a thrower names is resolved by a parameter.  A handler returns None where the code
  panics: an index outside the players or an empty ring.
\<close>

section \<open>State\<close>

datatype phase = Missing | Booting | Awake | Sleeping | Asleep | Waking_up | Gone_wrong

definition phase_name :: "phase \<Rightarrow> bytes" where
  "phase_name p = ascii (case p of
     Missing \<Rightarrow> ''missing'' | Booting \<Rightarrow> ''booting'' | Awake \<Rightarrow> ''awake'' | Sleeping \<Rightarrow> ''sleeping''
   | Asleep \<Rightarrow> ''asleep'' | Waking_up \<Rightarrow> ''waking'' | Gone_wrong \<Rightarrow> ''failed'')"

record 'v agent_player =
  ap_phase :: phase
  ap_since :: nat
  ap_vm :: "'v option"
  ap_sleep_after_wake :: bool

text \<open>The work that is finished by a message to the driver; a failure carries its text.\<close>

datatype 'v finished =
    Gold "bytes option"
  | RetryGold
  | Booted nat "bytes + 'v option"
  | Slept_done nat "bytes + stages" ms
  | Woke_done nat "bytes + 'v option \<times> stages" ms
  | Kicked nat "bytes option"

record playing =
  pg_order :: potato_round
  pg_seq :: nat
  pg_caught :: bool
  pg_kicked :: bool
  pg_over :: bool

definition playing_hold_ms :: "playing \<Rightarrow> nat" where
  "playing_hold_ms p =
     (let o' = pg_order p; laps = pg_seq p div max (length (pr_ring o')) 1;
          h = ((\<lambda>h. shrink h (pr_shrink_permille o') (pr_min_hold_ms o')) ^^ min laps 1000) (pr_hold_ms o')
      in case pr_pace_ms o' of Some p \<Rightarrow> min h (max p (pr_min_hold_ms o')) | None \<Rightarrow> h)"

definition LEAD_MARGIN_MS :: ms where "LEAD_MARGIN_MS = 150"
definition FIRST_WAKE_MS :: ms where "FIRST_WAKE_MS = 1500"
definition RECENT_WAKES :: nat where "RECENT_WAKES = 20"
definition DEFAULT_COLOURS :: u32 where "DEFAULT_COLOURS = 12"
definition UNKNOWN_PLAYER :: nat where "UNKNOWN_PLAYER = 2 ^ 32 - 1"

text \<open>What the driver asks of its operations, and what it sends.\<close>

datatype 'v action =
    Make_gold
  | Boot nat u32
  | Sleep nat "'v option" "nat option"
  | Wake_player nat "nat option"
  | Kick potato_round
  | Pace_player nat nat nat
  | Send potato_event
  | Retry_gold_later

record 'v driver =
  dv_players :: "'v agent_player list"
  dv_gold_ready :: bool
  dv_wakes :: "ms list"
  dv_playing :: "playing option"
  dv_late :: "(nat \<times> nat \<times> nat \<times> nat) option"
  dv_ended :: "nat option"
  dv_acts :: "'v action list"

text \<open>The clocks of a handler: the monotonic one and the host's wall clock, in milliseconds.\<close>

type_synonym clocks = "nat \<times> nat"

definition driver_new :: "nat \<Rightarrow> nat \<Rightarrow> 'v driver" where
  "driver_new players now =
     \<lparr>dv_players = replicate players \<lparr>ap_phase = Missing, ap_since = now, ap_vm = None, ap_sleep_after_wake = False\<rparr>,
      dv_gold_ready = False, dv_wakes = [], dv_playing = None, dv_late = None, dv_ended = None,
      dv_acts = [Make_gold]\<rparr>"

section \<open>Small steps\<close>

definition act :: "'v action \<Rightarrow> 'v driver \<Rightarrow> 'v driver" where
  "act a d = d\<lparr>dv_acts := dv_acts d @ [a]\<rparr>"

definition emit :: "clocks \<Rightarrow> nat \<Rightarrow> potato_kind \<Rightarrow> 'v driver \<Rightarrow> 'v driver" where
  "emit clk n kind d = act (Send \<lparr>ev_at = snd clk, ev_player = n, ev_kind = kind\<rparr>) d"

definition phase_of :: "nat \<Rightarrow> 'v driver \<Rightarrow> phase option" where
  "phase_of n d = (if n < length (dv_players d) then Some (ap_phase (dv_players d ! n)) else None)"

definition set_player :: "nat \<Rightarrow> ('v agent_player \<Rightarrow> 'v agent_player) \<Rightarrow> 'v driver \<Rightarrow> 'v driver option" where
  "set_player n f d = (if n < length (dv_players d)
     then Some (d\<lparr>dv_players := (dv_players d)[n := f (dv_players d ! n)]\<rparr>) else None)"

definition set_phase_to :: "clocks \<Rightarrow> nat \<Rightarrow> phase \<Rightarrow> 'v driver \<Rightarrow> 'v driver option" where
  "set_phase_to clk n phase = set_player n (\<lambda>p. p\<lparr>ap_phase := phase, ap_since := fst clk\<rparr>)"

definition boot :: "clocks \<Rightarrow> nat \<Rightarrow> 'v driver \<Rightarrow> 'v driver option" where
  "boot clk n d = do {
     d \<leftarrow> set_phase_to clk n Booting d;
     let colours = (case dv_playing d of Some p \<Rightarrow> pr_colours (pg_order p) | None \<Rightarrow> DEFAULT_COLOURS);
     Some (act (Boot n colours) d) }"

definition sleep_after :: "clocks \<Rightarrow> nat \<Rightarrow> nat option \<Rightarrow> 'v driver \<Rightarrow> 'v driver option" where
  "sleep_after clk n stop d = do {
     phase_of n d;
     let vm = ap_vm (dv_players d ! n);
     d \<leftarrow> set_player n (\<lambda>p. p\<lparr>ap_vm := None\<rparr>) d;
     d \<leftarrow> set_phase_to clk n Sleeping d;
     Some (act (Sleep n vm stop) d) }"

definition wake :: "clocks \<Rightarrow> nat \<Rightarrow> 'v driver \<Rightarrow> 'v driver option" where
  "wake clk n d = do {
     d \<leftarrow> set_phase_to clk n Waking_up d;
     let d = emit clk n Waking d;
     Some (act (Wake_player n (map_option (\<lambda>p. pr_round (pg_order p)) (dv_playing d))) d) }"

definition kick :: "'v driver \<Rightarrow> 'v driver" where
  "kick d = (case dv_playing d of
     None \<Rightarrow> d
   | Some p \<Rightarrow> act (Kick (pg_order p)) (d\<lparr>dv_playing := Some (p\<lparr>pg_kicked := True\<rparr>)\<rparr>))"

text \<open>A loop over players that acts on those in a phase.\<close>

fun for_players :: "nat list \<Rightarrow> (nat \<Rightarrow> 'v driver \<Rightarrow> 'v driver option) \<Rightarrow> 'v driver \<Rightarrow> 'v driver option" where
  "for_players [] f d = Some d"
| "for_players (n # ns) f d = do { d \<leftarrow> f n d; for_players ns f d }"

definition when_phase :: "phase set \<Rightarrow> (nat \<Rightarrow> 'v driver \<Rightarrow> 'v driver option) \<Rightarrow> nat \<Rightarrow> 'v driver \<Rightarrow> 'v driver option" where
  "when_phase phases f n d = do {
     phase \<leftarrow> phase_of n d;
     if phase \<in> phases then f n d else Some d }"

definition sleep_awake :: "clocks \<Rightarrow> nat option \<Rightarrow> 'v driver \<Rightarrow> 'v driver option" where
  "sleep_awake clk stop d =
     for_players [0..<length (dv_players d)] (when_phase {Awake} (\<lambda>n. sleep_after clk n stop)) d"

definition send_pace :: "nat \<Rightarrow> nat \<Rightarrow> 'v driver \<Rightarrow> 'v driver option" where
  "send_pace rnd hold_ms d = (case dv_playing d of
     None \<Rightarrow> Some d
   | Some p \<Rightarrow> for_players (pr_ring (pg_order p)) (when_phase {Awake} (\<lambda>n d. Some (act (Pace_player n rnd hold_ms) d))) d)"

section \<open>The lead\<close>

definition lead :: "nat \<Rightarrow> 'v driver \<Rightarrow> nat" where
  "lead hold_ms d =
     (let slow = (case dv_wakes d of [] \<Rightarrow> FIRST_WAKE_MS | w # ws \<Rightarrow> fold max ws w)
      in nat \<lceil>(slow + LEAD_MARGIN_MS) / of_nat (max hold_ms 1)\<rceil> + 1)"

definition within_lead :: "'v driver \<Rightarrow> nat list option" where
  "within_lead d = (case dv_playing d of
     None \<Rightarrow> Some []
   | Some p \<Rightarrow>
       if pg_over p then Some []
       else let ring = pr_ring (pg_order p); n = length ring;
                ahead = max (min (lead (playing_hold_ms p) d) (n - 1)) 1;
                start = (if pg_caught p then pg_seq p + 1 else 0)
            in if n = 0 then None else Some (map (\<lambda>j. ring ! ((start + j) mod n)) [0..<ahead]))"

definition needed :: "nat \<Rightarrow> 'v driver \<Rightarrow> bool option" where
  "needed n d = (case dv_playing d of
     None \<Rightarrow> Some False
   | Some p \<Rightarrow>
       if pg_over p then Some False
       else let ring = pr_ring (pg_order p)
            in if pg_caught p \<and> ring = [] then None
               else if pg_caught p \<and> ring ! (pg_seq p mod length ring) = n then Some True
               else do { ns \<leftarrow> within_lead d; Some (n \<in> set ns) })"

definition schedule_wakes :: "clocks \<Rightarrow> 'v driver \<Rightarrow> 'v driver option" where
  "schedule_wakes clk d = do {
     ns \<leftarrow> within_lead d;
     for_players ns (when_phase {Asleep} (wake clk)) d }"

text \<open>Bring the round forward: boot the missing, wake those within the lead, throw the first ball.\<close>

definition advance :: "clocks \<Rightarrow> 'v driver \<Rightarrow> 'v driver option" where
  "advance clk d = (case dv_playing d of
     None \<Rightarrow> Some d
   | Some p \<Rightarrow>
       if pg_over p \<or> \<not> dv_gold_ready d then Some d
       else let ring = pr_ring (pg_order p) in do {
         d \<leftarrow> for_players ring (when_phase {Missing, Gone_wrong} (boot clk)) d;
         d \<leftarrow> schedule_wakes clk d;
         first \<leftarrow> (case ring of [] \<Rightarrow> None | n # _ \<Rightarrow> Some n);
         let ready = list_all (\<lambda>n. phase_of n d \<noteq> Some Booting) ring;
         Some (if \<not> pg_kicked p \<and> ready \<and> phase_of first d = Some Awake then kick d else d) })"

section \<open>Handlers\<close>

text \<open>The round being played ends: every awake player sleeps, told that the round is over.\<close>

definition end_playing :: "clocks \<Rightarrow> 'v driver \<Rightarrow> 'v driver option" where
  "end_playing clk d = (case dv_playing d of
     None \<Rightarrow> Some d
   | Some p \<Rightarrow>
       let rnd = pr_round (pg_order p)
       in sleep_awake clk (Some rnd) (d\<lparr>dv_playing := None, dv_ended := Some rnd\<rparr>))"

definition same_round :: "'v driver \<Rightarrow> potato_round option \<Rightarrow> bool" where
  "same_round d ord = (case (dv_playing d, ord) of
     (Some p, Some o') \<Rightarrow> pr_round (pg_order p) = pr_round o'
   | _ \<Rightarrow> False)"

definition order_pace :: "potato_round \<Rightarrow> 'v driver \<Rightarrow> 'v driver option" where
  "order_pace o' d = (case dv_playing d of
     None \<Rightarrow> Some d
   | Some p \<Rightarrow>
       if pr_pace_ms (pg_order p) = pr_pace_ms o' then Some d
       else let d = d\<lparr>dv_playing := Some (p\<lparr>pg_order := (pg_order p)\<lparr>pr_pace_ms := pr_pace_ms o'\<rparr>\<rparr>)\<rparr>
            in case pr_pace_ms o' of Some hold \<Rightarrow> send_pace (pr_round o') hold d | None \<Rightarrow> Some d)"

definition order :: "clocks \<Rightarrow> potato_round option \<Rightarrow> 'v driver \<Rightarrow> 'v driver option" where
  "order clk ord d =
     (if same_round d ord then (case ord of Some o' \<Rightarrow> order_pace o' d | None \<Rightarrow> Some d)
      else do {
        d \<leftarrow> end_playing clk d;
        case ord of
          None \<Rightarrow> Some d
        | Some o' \<Rightarrow>
            if list_ex (\<lambda>n. length (dv_players d) \<le> n) (pr_ring o') then Some d
            else advance clk (d\<lparr>dv_playing := Some \<lparr>pg_order = o', pg_seq = 0, pg_caught = False,
                                                   pg_kicked = False, pg_over = False\<rparr>\<rparr>) })"

definition relay :: "nat \<Rightarrow> nat \<Rightarrow> potato_kind \<Rightarrow> 'v driver \<Rightarrow> 'v driver" where
  "relay at n kind d = act (Send \<lparr>ev_at = at, ev_player = n, ev_kind = kind\<rparr>) d"

definition heard_caught :: "clocks \<Rightarrow> nat \<Rightarrow> nat \<Rightarrow> 'v driver \<Rightarrow> 'v driver option" where
  "heard_caught clk rnd seq d = (case dv_playing d of
     None \<Rightarrow> Some d
   | Some p \<Rightarrow>
       if pr_round (pg_order p) \<noteq> rnd then Some d
       else schedule_wakes clk (d\<lparr>dv_playing :=
              Some (p\<lparr>pg_seq := (if pg_caught p then max (pg_seq p) seq else seq), pg_caught := True\<rparr>)\<rparr>))"

definition heard_threw :: "clocks \<Rightarrow> nat \<Rightarrow> 'v driver \<Rightarrow> 'v driver option" where
  "heard_threw clk n d = (case phase_of n d of
     Some Awake \<Rightarrow> sleep_after clk n None d
   | Some Waking_up \<Rightarrow> set_player n (\<lambda>p. p\<lparr>ap_sleep_after_wake := True\<rparr>) d
   | Some Booting \<Rightarrow> set_player n (\<lambda>p. p\<lparr>ap_sleep_after_wake := True\<rparr>) d
   | _ \<Rightarrow> Some d)"

definition heard_dropped :: "clocks \<Rightarrow> nat \<Rightarrow> nat \<Rightarrow> nat \<Rightarrow> nat \<Rightarrow> 'v driver \<Rightarrow> 'v driver option" where
  "heard_dropped clk n rnd seq recipient d =
     (case dv_playing d of
        Some p \<Rightarrow>
          if pr_round (pg_order p) = rnd \<and> \<not> pg_over p
          then sleep_awake clk None
                 (d\<lparr>dv_playing := Some (p\<lparr>pg_over := True\<rparr>), dv_late := Some (recipient, rnd, seq, fst clk)\<rparr>)
          else if phase_of n d = Some Awake
               then do { keep \<leftarrow> needed n d; if keep then Some d else sleep_after clk n None d }
               else Some d
      | None \<Rightarrow> if phase_of n d = Some Awake then sleep_after clk n None d else Some d)"

definition heard :: "(bytes \<Rightarrow> nat option) \<Rightarrow> clocks \<Rightarrow> report \<Rightarrow> nat \<Rightarrow> 'v driver \<Rightarrow> 'v driver option" where
  "heard player_of clk report at d = (case report of
     Report_Hello n colours proof connections last_round last_seq \<Rightarrow>
       Some (relay at n (Hello proof colours connections last_round last_seq) d)
   | Report_Caught n rnd seq proof \<Rightarrow> heard_caught clk rnd seq (relay at n (Caught rnd seq proof) d)
   | Report_Threw n rnd seq addr attempts wait_ms send_ms \<Rightarrow>
       let recipient = (case player_of addr of Some k \<Rightarrow> k | None \<Rightarrow> UNKNOWN_PLAYER)
       in heard_threw clk n (relay at n (Threw rnd seq recipient attempts wait_ms send_ms) d)
   | Report_Dropped n rnd seq addr attempts reason \<Rightarrow>
       let recipient = (case player_of addr of Some k \<Rightarrow> k | None \<Rightarrow> UNKNOWN_PLAYER);
           (phase, since) = (if recipient < length (dv_players d)
             then (phase_name (ap_phase (dv_players d ! recipient)), of_nat (fst clk - ap_since (dv_players d ! recipient)))
             else (ascii ''unknown'', 0))
       in heard_dropped clk n rnd seq recipient (relay at n (Dropped rnd seq recipient attempts reason phase since) d)
   | Report_Probe _ _ _ \<Rightarrow> Some d)"

definition done_booted :: "clocks \<Rightarrow> nat \<Rightarrow> 'v option \<Rightarrow> 'v driver \<Rightarrow> 'v driver option" where
  "done_booted clk n vm d = do {
     d \<leftarrow> set_player n (\<lambda>p. p\<lparr>ap_vm := vm\<rparr>) d;
     d \<leftarrow> set_phase_to clk n Awake d;
     ns \<leftarrow> within_lead d;
     let later = n \<notin> set ns;
     let threw = ap_sleep_after_wake (dv_players d ! n);
     d \<leftarrow> set_player n (\<lambda>p. p\<lparr>ap_sleep_after_wake := False\<rparr>) d;
     if threw \<or> later then do { d \<leftarrow> sleep_after clk n (dv_ended d) d; advance clk d } else advance clk d }"

definition done_slept :: "clocks \<Rightarrow> nat \<Rightarrow> stages \<Rightarrow> ms \<Rightarrow> 'v driver \<Rightarrow> 'v driver option" where
  "done_slept clk n stages took d = do {
     d \<leftarrow> set_phase_to clk n Asleep d;
     let written = map_option (\<lambda>b. tenths (b / 1048576)) (RBT.lookup stages (ascii ''written_bytes''));
     let d = emit clk n (Slept took (RBT.delete (ascii ''written_bytes'') stages) written) d;
     schedule_wakes clk d }"

text \<open>A wake is done: its player plays on, or goes back to sleep when it threw meanwhile or its round is over.\<close>

definition woke_next :: "clocks \<Rightarrow> nat \<Rightarrow> bool \<Rightarrow> 'v driver \<Rightarrow> 'v driver option" where
  "woke_next clk n threw d =
     (if threw then sleep_after clk n None d
      else case dv_playing d of
        None \<Rightarrow> sleep_after clk n (dv_ended d) d
      | Some p \<Rightarrow>
          if pg_over p \<or> n \<notin> set (pr_ring (pg_order p)) then sleep_after clk n (dv_ended d) d
          else do {
            d \<leftarrow> (case pr_pace_ms (pg_order p) of
                   Some hold \<Rightarrow> send_pace (pr_round (pg_order p)) hold d
                 | None \<Rightarrow> Some d);
            advance clk d })"

definition done_woke :: "clocks \<Rightarrow> nat \<Rightarrow> 'v option \<Rightarrow> stages \<Rightarrow> ms \<Rightarrow> 'v driver \<Rightarrow> 'v driver option" where
  "done_woke clk n vm stages took d = do {
     d \<leftarrow> set_player n (\<lambda>p. p\<lparr>ap_vm := vm\<rparr>) d;
     d \<leftarrow> set_phase_to clk n Awake d;
     let wakes = dv_wakes d @ [took];
     let d = d\<lparr>dv_wakes := drop (length wakes - RECENT_WAKES) wakes\<rparr>;
     let d = emit clk n (Woke took stages) d;
     let d = (case dv_late d of
                Some (k, rnd, seq, since) \<Rightarrow>
                  if k = n then emit clk n (Listening rnd seq (of_nat (fst clk - since))) (d\<lparr>dv_late := None\<rparr>) else d
              | None \<Rightarrow> d);
     let threw = ap_sleep_after_wake (dv_players d ! n);
     d \<leftarrow> set_player n (\<lambda>p. p\<lparr>ap_sleep_after_wake := False\<rparr>) d;
     woke_next clk n threw d }"

definition failed_as :: "clocks \<Rightarrow> nat \<Rightarrow> phase \<Rightarrow> string \<Rightarrow> bytes \<Rightarrow> 'v driver \<Rightarrow> 'v driver option" where
  "failed_as clk n phase stage err d = do {
     d \<leftarrow> set_phase_to clk n phase d;
     Some (emit clk n (Failed (ascii stage) err) d) }"

definition done_work :: "clocks \<Rightarrow> 'v finished \<Rightarrow> 'v driver \<Rightarrow> 'v driver option" where
  "done_work clk x d = (case x of
     Gold None \<Rightarrow> advance clk (d\<lparr>dv_gold_ready := True\<rparr>)
   | Gold (Some err) \<Rightarrow> Some (act Retry_gold_later d)
   | RetryGold \<Rightarrow> Some (act Make_gold d)
   | Booted n (Inr vm) \<Rightarrow> done_booted clk n vm d
   | Booted n (Inl err) \<Rightarrow> failed_as clk n Gone_wrong ''boot'' err d
   | Slept_done n (Inr stages) took \<Rightarrow> done_slept clk n stages took d
   | Slept_done n (Inl err) took \<Rightarrow> failed_as clk n Missing ''sleep'' err d
   | Woke_done n (Inr (vm, stages)) took \<Rightarrow> done_woke clk n vm stages took d
   | Woke_done n (Inl err) took \<Rightarrow> failed_as clk n Missing ''wake'' err d
   | Kicked rnd (Some err) \<Rightarrow>
       (case dv_playing d of
          None \<Rightarrow> Some d
        | Some p \<Rightarrow> (case pr_ring (pg_order p) of
            [] \<Rightarrow> None
          | first # _ \<Rightarrow> Some (emit clk first (Failed (ascii ''kickoff'') err) d)))
   | Kicked rnd None \<Rightarrow> Some d)"

end
