(* ===== verification/Potato_Agent_Safety.thy ===== *)
theory Potato_Agent_Safety
  imports Potato_Agent "HOL-Library.Multiset"
begin

text \<open>
  What holds of the agent's driver in every state it can reach, whatever the coordinator orders, the
  players report and the operations return: no handler panics, every player has at most the one operation
  its phase names in flight, and no player is left awake when no round is being played.
\<close>

section \<open>Work in flight\<close>

datatype work = Boots | Sleeps | Wakes

fun busy :: "phase \<Rightarrow> work option" where
  "busy Booting = Some Boots"
| "busy Sleeping = Some Sleeps"
| "busy Waking_up = Some Wakes"
| "busy _ = None"

fun work_of :: "'v action list \<Rightarrow> (nat \<times> work) multiset" where
  "work_of [] = {#}"
| "work_of (Boot n c # as) = add_mset (n, Boots) (work_of as)"
| "work_of (Sleep n vm stop # as) = add_mset (n, Sleeps) (work_of as)"
| "work_of (Wake_player n r # as) = add_mset (n, Wakes) (work_of as)"
| "work_of (_ # as) = work_of as"

lemma work_of_append: "work_of (as @ bs) = work_of as + work_of bs"
  by (induction as rule: work_of.induct) simp_all

definition doing :: "nat \<Rightarrow> work \<Rightarrow> 'v driver \<Rightarrow> bool" where
  "doing n k d \<longleftrightarrow> n < length (dv_players d) \<and> busy (ap_phase (dv_players d ! n)) = Some k"

text \<open>The work in flight, with what the running handler has asked for, is what the phases say.\<close>

definition matched :: "(nat \<times> work) multiset \<Rightarrow> 'v driver \<Rightarrow> bool" where
  "matched W d \<longleftrightarrow> (\<forall>n k. count (W + work_of (dv_acts d)) (n, k) = (if doing n k d then 1 else 0))"

text \<open>While the handler of a player's finished work runs, that player has none.\<close>

definition matched_but :: "nat \<Rightarrow> (nat \<times> work) multiset \<Rightarrow> 'v driver \<Rightarrow> bool" where
  "matched_but i W d \<longleftrightarrow>
     (\<forall>n k. count (W + work_of (dv_acts d)) (n, k) = (if n \<noteq> i \<and> doing n k d then 1 else 0))"

definition ring_ok :: "'v driver \<Rightarrow> bool" where
  "ring_ok d \<longleftrightarrow> (\<forall>p. dv_playing d = Some p \<longrightarrow>
     pr_ring (pg_order p) \<noteq> [] \<and> (\<forall>n \<in> set (pr_ring (pg_order p)). n < length (dv_players d)))"

definition round_on :: "'v driver \<Rightarrow> bool" where
  "round_on d \<longleftrightarrow> (\<exists>p. dv_playing d = Some p \<and> \<not> pg_over p)"

definition awake :: "nat \<Rightarrow> 'v driver \<Rightarrow> bool" where
  "awake n d \<longleftrightarrow> phase_of n d = Some Awake"

definition rests :: "'v driver \<Rightarrow> bool" where
  "rests d \<longleftrightarrow> round_on d \<or> (\<forall>n. \<not> awake n d)"

text \<open>
  What most steps do: they keep the work and the phases in step, wake nobody at once, and leave the round
  as it is but for having thrown its first ball.
\<close>

definition calm :: "(nat \<times> work) multiset \<Rightarrow> 'v driver \<Rightarrow> 'v driver \<Rightarrow> bool" where
  "calm W d d' \<longleftrightarrow>
     length (dv_players d') = length (dv_players d) \<and> (matched W d \<longrightarrow> matched W d') \<and>
     map_option (\<lambda>p. p\<lparr>pg_kicked := True\<rparr>) (dv_playing d') = map_option (\<lambda>p. p\<lparr>pg_kicked := True\<rparr>) (dv_playing d) \<and>
     (\<forall>n. awake n d' \<longrightarrow> awake n d)"

lemma calm_refl [simp]: "calm W d d"
  by (simp add: calm_def)

lemma calm_trans: "calm W d e \<Longrightarrow> calm W e f \<Longrightarrow> calm W d f"
  by (simp add: calm_def)

lemma calm_playing:
  assumes "calm W d d'"
  shows "dv_playing d' = None \<longleftrightarrow> dv_playing d = None"
    and "dv_playing d = Some p \<Longrightarrow> \<exists>p'. dv_playing d' = Some p' \<and> pg_order p' = pg_order p \<and> pg_over p' = pg_over p"
proof -
  have eq: "map_option (\<lambda>p. p\<lparr>pg_kicked := True\<rparr>) (dv_playing d') = map_option (\<lambda>p. p\<lparr>pg_kicked := True\<rparr>) (dv_playing d)"
    using assms by (simp add: calm_def)
  then show "dv_playing d' = None \<longleftrightarrow> dv_playing d = None" by (metis option.map_disc_iff)
  assume p: "dv_playing d = Some p"
  then obtain p' where p': "dv_playing d' = Some p'" "p'\<lparr>pg_kicked := True\<rparr> = p\<lparr>pg_kicked := True\<rparr>"
    using eq by (cases "dv_playing d'") auto
  have "pg_order p' = pg_order p" "pg_over p' = pg_over p"
    using arg_cong [OF p'(2), of pg_order] arg_cong [OF p'(2), of pg_over] by simp_all
  then show "\<exists>p'. dv_playing d' = Some p' \<and> pg_order p' = pg_order p \<and> pg_over p' = pg_over p" using p'(1) by simp
qed

lemma calm_ring:
  assumes "calm W d d'" "ring_ok d"
  shows "ring_ok d'"
proof (cases "dv_playing d")
  case None
  then show ?thesis using calm_playing(1) [OF assms(1)] by (simp add: ring_ok_def)
next
  case (Some p)
  then obtain p' where "dv_playing d' = Some p'" "pg_order p' = pg_order p" using calm_playing(2) [OF assms(1)] by blast
  then show ?thesis using Some assms by (simp add: ring_ok_def calm_def)
qed

lemma calm_round:
  assumes "calm W d d'"
  shows "round_on d' \<longleftrightarrow> round_on d"
proof (cases "dv_playing d")
  case None
  then show ?thesis using calm_playing(1) [OF assms] by (simp add: round_on_def)
next
  case (Some p)
  then obtain p' where "dv_playing d' = Some p'" "pg_over p' = pg_over p" using calm_playing(2) [OF assms] by blast
  then show ?thesis using Some by (simp add: round_on_def)
qed

lemma calm_awake: "calm W d d' \<Longrightarrow> awake n d' \<Longrightarrow> awake n d"
  by (simp add: calm_def)

lemma calm_rests: "calm W d d' \<Longrightarrow> rests d \<Longrightarrow> rests d'"
  using calm_round unfolding rests_def calm_def by blast

section \<open>Small steps\<close>

lemma act_simps [simp]:
  "dv_players (act a d) = dv_players d" "dv_playing (act a d) = dv_playing d" "dv_ended (act a d) = dv_ended d"
  "dv_gold_ready (act a d) = dv_gold_ready d" "dv_wakes (act a d) = dv_wakes d" "dv_late (act a d) = dv_late d"
  "phase_of n (act a d) = phase_of n d" "awake n (act a d) = awake n d" "doing n k (act a d) = doing n k d"
  "dv_acts (act a d) = dv_acts d @ [a]"
  by (simp_all add: act_def phase_of_def awake_def doing_def)

lemma calm_act: "work_of [a] = {#} \<Longrightarrow> calm W d (act a d)"
  by (simp add: calm_def matched_def work_of_append)

lemma matched_act: "work_of [a] = {#} \<Longrightarrow> matched W (act a d) = matched W d"
  by (simp add: matched_def work_of_append)

lemma matched_but_act: "work_of [a] = {#} \<Longrightarrow> matched_but i W (act a d) = matched_but i W d"
  by (simp add: matched_but_def work_of_append)

lemma emit_act: "\<exists>e. emit clk n kind d = act (Send e) d"
  unfolding emit_def by blast

text \<open>A player with nothing in flight is given work: its phase and the action agree.\<close>

definition begins :: "nat \<Rightarrow> work \<Rightarrow> phase \<Rightarrow> 'v action \<Rightarrow> bool" where
  "begins n k q a \<longleftrightarrow> busy q = Some k \<and> work_of [a] = {#(n, k)#}"

lemma calm_begin:
  assumes "n < length (dv_players d)" "busy (ap_phase (dv_players d ! n)) = None" "begins n k q a"
    and "dv_players d' = (dv_players d)[n := p]" "ap_phase p = q" "dv_acts d' = dv_acts d @ as @ [a]" "work_of as = {#}"
    and "dv_playing d' = dv_playing d"
  shows "calm W d d'"
proof -
  have acts: "work_of (dv_acts d') = add_mset (n, k) (work_of (dv_acts d))"
    using assms(3,6,7) by (simp add: work_of_append begins_def)
  have q: "busy q = Some k" "q \<noteq> Awake" using assms(3) by (auto simp: begins_def)
  have doing: "doing i j d' \<longleftrightarrow> (if i = n then j = k else doing i j d)" for i j
    using assms(1,4,5) q(1) by (auto simp: doing_def nth_list_update)
  have "doing n j d = False" for j using assms(2) by (simp add: doing_def)
  then have "matched W d'" if "matched W d" using that by (auto simp: matched_def acts doing)
  moreover have "awake i d" if "awake i d'" for i
    using that q(2) assms(1,4,5) by (auto simp: awake_def phase_of_def nth_list_update split: if_splits)
  ultimately show ?thesis using assms(4,8) by (simp add: calm_def)
qed

text \<open>A computation that returns a state with a property.\<close>

definition yields :: "'a option \<Rightarrow> ('a \<Rightarrow> bool) \<Rightarrow> bool" where
  "yields m P \<longleftrightarrow> (\<exists>x. m = Some x \<and> P x)"

lemma yields_Some [simp]: "yields (Some x) P \<longleftrightarrow> P x"
  by (simp add: yields_def)

lemma yields_bind: "yields m Q \<Longrightarrow> (\<And>x. Q x \<Longrightarrow> yields (f x) P) \<Longrightarrow> yields (m \<bind> f) P"
  by (auto simp: yields_def)

lemma yields_mono: "yields m Q \<Longrightarrow> (\<And>x. Q x \<Longrightarrow> P x) \<Longrightarrow> yields m P"
  by (auto simp: yields_def)

lemma phase_ofD: "phase_of n d = Some q \<Longrightarrow> n < length (dv_players d) \<and> ap_phase (dv_players d ! n) = q"
  by (simp add: phase_of_def split: if_splits)

lemma boot_calm: "phase_of n d = Some q \<Longrightarrow> busy q = None \<Longrightarrow> yields (boot clk n d) (calm W d)"
  by (auto dest!: phase_ofD simp: boot_def set_phase_to_def set_player_def begins_def act_def
      intro!: calm_begin [where k = Boots and q = Booting and as = "[]"] split: option.split)

lemma sleep_after_calm:
  "phase_of n d = Some q \<Longrightarrow> busy q = None \<Longrightarrow> yields (sleep_after clk n stop d) (\<lambda>d'. calm W d d' \<and> \<not> awake n d')"
  by (auto dest!: phase_ofD simp: sleep_after_def set_phase_to_def set_player_def begins_def act_def phase_of_def awake_def
      intro!: calm_begin [where k = Sleeps and q = Sleeping and as = "[]"])

lemma wake_calm: "phase_of n d = Some q \<Longrightarrow> busy q = None \<Longrightarrow> yields (wake clk n d) (calm W d)"
  by (auto dest!: phase_ofD simp: wake_def set_phase_to_def set_player_def begins_def act_def emit_def
      intro!: calm_begin [where k = Wakes and q = Waking_up and as = "[Send _]"])

lemma when_phase_calm:
  assumes "n < length (dv_players d)" "\<And>q. phase_of n d = Some q \<Longrightarrow> q \<in> Q \<Longrightarrow> yields (f n d) (calm W d)"
  shows "yields (when_phase Q f n d) (calm W d)"
  using assms by (auto simp: when_phase_def phase_of_def)

lemma for_players_calm:
  assumes "\<And>n d'. n \<in> set ns \<Longrightarrow> length (dv_players d') = length (dv_players d) \<Longrightarrow> yields (f n d') (calm W d')"
  shows "yields (for_players ns f d) (calm W d)"
  using assms
proof (induction ns arbitrary: d)
  case (Cons n ns)
  have "yields (f n d) (calm W d)" using Cons.prems by simp
  moreover have "yields (for_players ns f d') (calm W d)" if c: "calm W d d'" for d'
  proof -
    have "length (dv_players d') = length (dv_players d)" using c by (simp add: calm_def)
    then have "yields (for_players ns f d') (calm W d')" using Cons.IH [of d'] Cons.prems by simp
    then show ?thesis by (rule yields_mono) (rule calm_trans [OF c])
  qed
  ultimately show ?case unfolding for_players.simps by (rule yields_bind)
qed simp

lemma for_phase_calm:
  assumes "\<forall>n \<in> set ns. n < length (dv_players d)"
    and "\<And>n q d'. phase_of n d' = Some q \<Longrightarrow> q \<in> Q \<Longrightarrow> yields (f n d') (calm W d')"
  shows "yields (for_players ns (when_phase Q f) d) (calm W d)"
  using assms by (intro for_players_calm when_phase_calm) auto

text \<open>Sleeping everyone who is awake leaves nobody awake.\<close>

lemma sleep_each:
  assumes "\<forall>n \<in> set ns. n < length (dv_players d)"
  shows "yields (for_players ns (when_phase {Awake} (\<lambda>n. sleep_after clk n stop)) d)
    (\<lambda>d'. calm W d d' \<and> (\<forall>n \<in> set ns. \<not> awake n d'))"
  using assms
proof (induction ns arbitrary: d)
  case (Cons n ns)
  have n: "n < length (dv_players d)" using Cons.prems by simp
  have "yields (when_phase {Awake} (\<lambda>n. sleep_after clk n stop) n d) (\<lambda>e. calm W d e \<and> \<not> awake n e)"
    using n sleep_after_calm [of n d Awake clk stop W] by (simp add: when_phase_def phase_of_def awake_def)
  moreover have "yields (for_players ns (when_phase {Awake} (\<lambda>n. sleep_after clk n stop)) e)
      (\<lambda>d'. calm W d d' \<and> (\<forall>m \<in> set (n # ns). \<not> awake m d'))" if e: "calm W d e \<and> \<not> awake n e" for e
  proof -
    have len: "length (dv_players e) = length (dv_players d)" and c: "calm W d e" using e by (simp_all add: calm_def)
    have "\<not> awake n d'" if "calm W e d'" for d' using e calm_awake [OF that] by blast
    then show ?thesis using Cons.IH [of e] Cons.prems len calm_trans [OF c] by (auto intro: yields_mono)
  qed
  ultimately show ?case unfolding for_players.simps by (rule yields_bind)
qed simp

lemma sleep_awake_calm: "yields (sleep_awake clk stop d) (\<lambda>d'. calm W d d' \<and> (\<forall>n. \<not> awake n d'))"
proof -
  have "awake n d' \<Longrightarrow> calm W d d' \<Longrightarrow> n < length (dv_players d)" for n d'
    by (simp add: awake_def phase_of_def calm_def split: if_splits)
  then show ?thesis unfolding sleep_awake_def
    by (intro yields_mono [OF sleep_each]) auto
qed

section \<open>The round brought forward\<close>

lemma within_lead_ring:
  assumes "ring_ok d"
  shows "yields (within_lead d) (\<lambda>ns. (\<forall>n \<in> set ns. n < length (dv_players d)) \<and> (\<not> round_on d \<longrightarrow> ns = []))"
proof (cases "dv_playing d")
  case None
  then show ?thesis by (simp add: within_lead_def)
next
  case (Some p)
  define ring where "ring = pr_ring (pg_order p)"
  have "ring \<noteq> []" "\<forall>n \<in> set ring. n < length (dv_players d)" using assms Some by (simp_all add: ring_ok_def ring_def)
  then have "ring ! (k mod length ring) < length (dv_players d)" for k by simp
  then show ?thesis using Some \<open>ring \<noteq> []\<close>
    by (auto simp: within_lead_def round_on_def Let_def simp flip: ring_def)
qed

lemma schedule_wakes_calm: "ring_ok d \<Longrightarrow> yields (schedule_wakes clk d) (calm W d)"
  unfolding schedule_wakes_def
  by (rule yields_bind [OF within_lead_ring], assumption, rule for_phase_calm) (auto intro: wake_calm)

lemma kick_calm: "calm W d (kick d)"
  by (auto simp: kick_def calm_def matched_def work_of_append doing_def awake_def phase_of_def split: option.split)

lemma advance_calm:
  assumes "ring_ok d"
  shows "yields (advance clk d) (calm W d)"
proof (cases "dv_playing d")
  case None
  then show ?thesis by (simp add: advance_def)
next
  case (Some p)
  define ring where "ring = pr_ring (pg_order p)"
  have ring: "ring \<noteq> []" "\<forall>n \<in> set ring. n < length (dv_players d)" using assms Some by (simp_all add: ring_ok_def ring_def)
  then obtain first rest where first: "ring = first # rest" by (cases ring) auto
  have boots: "yields (for_players ring (when_phase {Missing, Gone_wrong} (boot clk)) d) (calm W d)"
    by (rule for_phase_calm [OF ring(2)]) (auto intro: boot_calm)
  have wakes: "yields (schedule_wakes clk e) (calm W d)" if "calm W d e" for e
    using yields_mono [OF schedule_wakes_calm [OF calm_ring [OF that assms]]] calm_trans [OF that] by blast
  show ?thesis
  proof (cases "pg_over p \<or> \<not> dv_gold_ready d")
    case True
    then show ?thesis using Some by (simp add: advance_def)
  next
    case False
    then have "advance clk d = do {
         d \<leftarrow> for_players ring (when_phase {Missing, Gone_wrong} (boot clk)) d;
         d \<leftarrow> schedule_wakes clk d;
         Some (if \<not> pg_kicked p \<and> list_all (\<lambda>n. phase_of n d \<noteq> Some Booting) ring \<and> phase_of first d = Some Awake
               then kick d else d) }"
      using Some first by (simp add: advance_def Let_def flip: ring_def)
    moreover have "yields \<dots> (calm W d)"
      by (rule yields_bind [OF boots], rule yields_bind [OF wakes], assumption)
        (simp add: calm_trans [OF _ kick_calm])
    ultimately show ?thesis by simp
  qed
qed

lemma send_pace_calm:
  assumes "ring_ok d"
  shows "yields (send_pace rnd hold d) (calm W d)"
proof (cases "dv_playing d")
  case None
  then show ?thesis by (simp add: send_pace_def)
next
  case (Some p)
  then have "\<forall>n \<in> set (pr_ring (pg_order p)). n < length (dv_players d)" using assms by (simp add: ring_ok_def)
  then have "yields (for_players (pr_ring (pg_order p))
      (when_phase {Awake} (\<lambda>n d. Some (act (Pace_player n rnd hold) d))) d) (calm W d)"
    by (rule for_phase_calm) (simp add: calm_act)
  then show ?thesis using Some by (simp add: send_pace_def)
qed

section \<open>Handlers keep the invariant\<close>

definition agent_inv :: "(nat \<times> work) multiset \<Rightarrow> 'v driver \<Rightarrow> bool" where
  "agent_inv W d \<longleftrightarrow> ring_ok d \<and> matched W d \<and> rests d"

lemma calm_inv: "calm W d d' \<Longrightarrow> agent_inv W d \<Longrightarrow> agent_inv W d'"
  using calm_ring calm_rests unfolding agent_inv_def by (metis calm_def)

lemma yields_inv: "yields m (calm W d) \<Longrightarrow> agent_inv W d \<Longrightarrow> yields m (agent_inv W)"
  by (auto intro: yields_mono calm_inv)

lemma invD: "agent_inv W d \<Longrightarrow> ring_ok d" "agent_inv W d \<Longrightarrow> matched W d" "agent_inv W d \<Longrightarrow> rests d"
  by (simp_all add: agent_inv_def)

lemma calm_handlers:
  assumes "agent_inv W d"
  shows "yields (send_pace rnd hold d) (agent_inv W)" "yields (advance clk d) (agent_inv W)"
    "yields (schedule_wakes clk d) (agent_inv W)"
  by (rule yields_inv [OF _ assms], rule send_pace_calm advance_calm schedule_wakes_calm, rule invD(1) [OF assms])+

lemma update_frame [simp]:
  "phase_of n (d\<lparr>dv_playing := p\<rparr>) = phase_of n d" "phase_of n (d\<lparr>dv_ended := e\<rparr>) = phase_of n d"
  "phase_of n (d\<lparr>dv_late := l\<rparr>) = phase_of n d" "phase_of n (d\<lparr>dv_wakes := w\<rparr>) = phase_of n d"
  "phase_of n (d\<lparr>dv_gold_ready := b\<rparr>) = phase_of n d"
  "matched W (d\<lparr>dv_playing := p\<rparr>) = matched W d" "matched W (d\<lparr>dv_ended := e\<rparr>) = matched W d"
  "matched W (d\<lparr>dv_late := l\<rparr>) = matched W d" "matched W (d\<lparr>dv_wakes := w\<rparr>) = matched W d"
  "matched W (d\<lparr>dv_gold_ready := b\<rparr>) = matched W d"
  by (simp_all add: phase_of_def matched_def doing_def)

lemma awake_frame [simp]:
  "awake n (d\<lparr>dv_playing := p\<rparr>) = awake n d" "awake n (d\<lparr>dv_ended := e\<rparr>) = awake n d"
  "awake n (d\<lparr>dv_late := l\<rparr>) = awake n d" "awake n (d\<lparr>dv_wakes := w\<rparr>) = awake n d"
  "awake n (d\<lparr>dv_gold_ready := b\<rparr>) = awake n d"
  by (simp_all add: awake_def)

text \<open>A change of the round that leaves its ring and whether it is over.\<close>

lemma inv_replace:
  assumes "agent_inv W d" "dv_playing d = Some p" "pr_ring (pg_order p') = pr_ring (pg_order p)" "pg_over p' = pg_over p"
  shows "agent_inv W (d\<lparr>dv_playing := Some p'\<rparr>)"
  using assms by (auto simp: agent_inv_def ring_ok_def rests_def round_on_def)

lemma inv_act: "work_of [a] = {#} \<Longrightarrow> agent_inv W d \<Longrightarrow> agent_inv W (act a d)"
  using calm_inv calm_act by blast

lemma inv_round: "agent_inv W d \<Longrightarrow> \<not> round_on d \<Longrightarrow> \<not> awake n d"
  by (simp add: agent_inv_def rests_def)

lemma order_inv:
  assumes inv: "agent_inv W d" and ring: "\<And>o'. ord = Some o' \<Longrightarrow> pr_ring o' \<noteq> []"
  shows "yields (order clk ord d) (agent_inv W)"
proof (cases "same_round d ord")
  case True
  then obtain p o' where p: "dv_playing d = Some p" "ord = Some o'" by (auto simp: same_round_def split: option.splits)
  define d1 where "d1 = d\<lparr>dv_playing := Some (p\<lparr>pg_order := (pg_order p)\<lparr>pr_pace_ms := pr_pace_ms o'\<rparr>\<rparr>)\<rparr>"
  have inv1: "agent_inv W d1" unfolding d1_def by (rule inv_replace [OF inv p(1)]) simp_all
  then have "yields (send_pace rnd hold d1) (agent_inv W)" for rnd hold
    by (rule calm_handlers)
  then show ?thesis using True p inv inv1
    by (simp add: order_def order_pace_def Let_def flip: d1_def split: option.split)
next
  case False
  have ended: "yields (end_playing clk d) (\<lambda>e. matched W e \<and> dv_playing e = None \<and> (\<forall>n. \<not> awake n e))"
  proof (cases "dv_playing d")
    case None
    then have "\<not> awake n d" for n by (intro inv_round [OF inv]) (simp add: round_on_def)
    then show ?thesis using None invD(2) [OF inv] by (simp add: end_playing_def)
  next
    case (Some p)
    define d0 where "d0 = d\<lparr>dv_playing := None, dv_ended := Some (pr_round (pg_order p))\<rparr>"
    have "matched W d0" using inv by (simp add: d0_def agent_inv_def)
    then have "yields (sleep_awake clk (Some (pr_round (pg_order p))) d0)
        (\<lambda>e. matched W e \<and> dv_playing e = None \<and> (\<forall>n. \<not> awake n e))"
      by (intro yields_mono [OF sleep_awake_calm [of clk _ d0 W]]) (auto simp: calm_def d0_def)
    then show ?thesis using Some by (simp add: end_playing_def Let_def d0_def)
  qed
  have new: "yields (case ord of None \<Rightarrow> Some e | Some o' \<Rightarrow>
        if list_ex (\<lambda>n. length (dv_players e) \<le> n) (pr_ring o') then Some e
        else advance clk (e\<lparr>dv_playing := Some \<lparr>pg_order = o', pg_seq = 0, pg_caught = False, pg_kicked = False, pg_over = False\<rparr>\<rparr>))
      (agent_inv W)" if e: "matched W e \<and> dv_playing e = None \<and> (\<forall>n. \<not> awake n e)" for e
  proof -
    have "agent_inv W e" using e by (simp add: agent_inv_def ring_ok_def rests_def)
    moreover have "yields (advance clk (e\<lparr>dv_playing := Some p\<rparr>)) (agent_inv W)"
      if "pr_ring (pg_order p) \<noteq> []" "\<forall>n \<in> set (pr_ring (pg_order p)). n < length (dv_players e)" for p
    proof -
      have "agent_inv W (e\<lparr>dv_playing := Some p\<rparr>)" using e that by (simp add: agent_inv_def ring_ok_def rests_def)
      then show ?thesis by (rule calm_handlers)
    qed
    ultimately show ?thesis using ring by (auto simp: list_ex_iff not_le split: option.split)
  qed
  show ?thesis using False yields_bind [OF ended new] by (simp add: order_def)
qed

lemma sleep_after_inv:
  "agent_inv W d \<Longrightarrow> phase_of n d = Some Awake \<Longrightarrow> yields (sleep_after clk n stop d) (agent_inv W)"
  by (rule yields_inv) (auto intro: yields_mono [OF sleep_after_calm])

lemma set_flag_inv:
  assumes "agent_inv W d" "n < length (dv_players d)" "\<And>p. ap_phase (f p) = ap_phase p"
  shows "yields (set_player n f d) (agent_inv W)"
proof -
  have "calm W d (d\<lparr>dv_players := (dv_players d)[n := f (dv_players d ! n)]\<rparr>)"
    using assms(2,3)
    by (auto simp: calm_def matched_def doing_def awake_def phase_of_def nth_list_update split: if_splits)
  then show ?thesis using assms calm_inv by (auto simp: set_player_def)
qed

lemma heard_dropped_inv:
  assumes inv: "agent_inv W d"
  shows "yields (heard_dropped clk n rnd seq recipient d) (agent_inv W)"
proof (cases "dv_playing d")
  case None
  then show ?thesis using inv sleep_after_inv [OF inv, where clk = clk] by (simp add: heard_dropped_def)
next
  case (Some p)
  have ring: "pr_ring (pg_order p) \<noteq> []" using invD(1) [OF inv] Some by (simp add: ring_ok_def)
  show ?thesis
  proof (cases "pr_round (pg_order p) = rnd \<and> \<not> pg_over p")
    case True
    define d0 where "d0 = d\<lparr>dv_playing := Some (p\<lparr>pg_over := True\<rparr>), dv_late := Some (recipient, rnd, seq, fst clk)\<rparr>"
    have d0: "ring_ok d0" "matched W d0" using inv Some by (simp_all add: d0_def agent_inv_def ring_ok_def)
    have "agent_inv W e" if "calm W d0 e \<and> (\<forall>n. \<not> awake n e)" for e
      using that d0 calm_ring [of W d0 e] by (simp add: agent_inv_def rests_def calm_def)
    then have "yields (sleep_awake clk None d0) (agent_inv W)" by (rule yields_mono [OF sleep_awake_calm])
    then show ?thesis using Some True by (simp add: heard_dropped_def d0_def)
  next
    case False
    have "\<exists>keep. needed n d = Some keep"
      using within_lead_ring [OF invD(1) [OF inv]] Some ring by (auto simp: needed_def yields_def Let_def)
    then show ?thesis using Some False inv sleep_after_inv [OF inv, where clk = clk] by (auto simp: heard_dropped_def)
  qed
qed

lemma heard_inv:
  assumes inv: "agent_inv W d"
  shows "yields (heard player_of clk report at d) (agent_inv W)"
proof -
  have r: "agent_inv W (relay at n kind d)" for n kind unfolding relay_def by (rule inv_act [OF _ inv]) simp
  have caught: "yields (heard_caught clk rnd seq e) (agent_inv W)" if e: "agent_inv W e" for rnd seq and e :: "'a driver"
  proof (cases "dv_playing e")
    case (Some p)
    have "agent_inv W (e\<lparr>dv_playing := Some (p\<lparr>pg_seq := s, pg_caught := True\<rparr>)\<rparr>)" for s
      by (rule inv_replace [OF e Some]) simp_all
    then show ?thesis using Some e by (simp add: heard_caught_def calm_handlers(3))
  qed (simp add: heard_caught_def e)
  have threw: "yields (heard_threw clk n e) (agent_inv W)" if e: "agent_inv W e" for n and e :: "'a driver"
    using e sleep_after_inv [OF e, where clk = clk] set_flag_inv [OF e] by (auto simp: heard_threw_def dest: phase_ofD split: option.split phase.split)
  show ?thesis using r inv caught [OF r] threw [OF r] heard_dropped_inv [OF r]
    by (cases report) (simp_all add: heard_def Let_def split: prod.split)
qed

text \<open>The end of a player's work: the player gets a phase with nothing in flight, so the work is matched again.\<close>

lemma finish_player:
  assumes "matched_but n W d" "ring_ok d" "n < length (dv_players d)" "busy q = None"
    and "\<And>p. ap_phase (f p) = ap_phase p"
  shows "yields (set_player n f d \<bind> set_phase_to clk n q)
    (\<lambda>e. matched W e \<and> ring_ok e \<and> length (dv_players e) = length (dv_players d) \<and> phase_of n e = Some q \<and>
         dv_playing e = dv_playing d \<and> dv_acts e = dv_acts d \<and> dv_ended e = dv_ended d \<and> dv_late e = dv_late d \<and>
         (\<forall>m. m \<noteq> n \<longrightarrow> awake m e = awake m d))"
  using assms
  by (auto simp: set_player_def set_phase_to_def matched_def matched_but_def doing_def ring_ok_def phase_of_def awake_def
      nth_list_update)

lemma finish_phase:
  assumes "matched_but n W d" "ring_ok d" "n < length (dv_players d)" "busy q = None"
  shows "yields (set_phase_to clk n q d)
    (\<lambda>e. matched W e \<and> ring_ok e \<and> length (dv_players e) = length (dv_players d) \<and> phase_of n e = Some q \<and>
         dv_playing e = dv_playing d \<and> (\<forall>m. m \<noteq> n \<longrightarrow> awake m e = awake m d))"
  using assms
  by (auto simp: set_player_def set_phase_to_def matched_def matched_but_def doing_def ring_ok_def phase_of_def awake_def
      nth_list_update)

definition finishing :: "nat \<Rightarrow> (nat \<times> work) multiset \<Rightarrow> 'v driver \<Rightarrow> bool" where
  "finishing n W d \<longleftrightarrow> matched_but n W d \<and> ring_ok d \<and> rests d \<and> n < length (dv_players d)"

lemma rests_other:
  assumes "rests d" "dv_playing e = dv_playing d" "\<forall>m. m \<noteq> n \<longrightarrow> awake m e = awake m d" "\<not> awake n e"
  shows "rests e"
proof (cases "round_on d")
  case True
  then show ?thesis using assms(2) by (simp add: rests_def round_on_def)
next
  case False
  then have "\<not> awake m e" for m using assms by (cases "m = n") (simp_all add: rests_def)
  then show ?thesis by (simp add: rests_def)
qed

lemma failed_as_inv:
  fixes d :: "'v driver"
  assumes "finishing n W d" "q = Missing \<or> q = Gone_wrong"
  shows "yields (failed_as clk n q stage err d) (agent_inv W)"
proof -
  have q: "busy q = None" "q \<noteq> Awake" using assms(2) by auto
  have "agent_inv W e" if "matched W e" "ring_ok e" "phase_of n e = Some q" "dv_playing e = dv_playing d"
      "\<forall>m. m \<noteq> n \<longrightarrow> awake m e = awake m d" for e :: "'v driver"
    using that q(2) assms(1) rests_other [OF _ that(4,5)] by (simp add: agent_inv_def finishing_def awake_def)
  then have "yields (set_phase_to clk n q d) (agent_inv W)"
    using assms(1) q(1) unfolding finishing_def by (intro yields_mono [OF finish_phase]) auto
  then show ?thesis unfolding failed_as_def emit_def
    by (rule yields_bind) (simp add: inv_act)
qed

lemma done_slept_inv:
  fixes d :: "'v driver"
  assumes "finishing n W d"
  shows "yields (done_slept clk n stages took d) (agent_inv W)"
proof -
  have "agent_inv W e" if "matched W e" "ring_ok e" "phase_of n e = Some Asleep" "dv_playing e = dv_playing d"
      "\<forall>m. m \<noteq> n \<longrightarrow> awake m e = awake m d" for e :: "'v driver"
    using that assms rests_other [OF _ that(4,5)] by (simp add: agent_inv_def finishing_def awake_def)
  then have "yields (set_phase_to clk n Asleep d) (agent_inv W)"
    using assms unfolding finishing_def by (intro yields_mono [OF finish_phase]) auto
  then show ?thesis unfolding done_slept_def emit_def Let_def
    by (rule yields_bind) (simp add: inv_act calm_handlers(3))
qed

text \<open>A player that just became awake, where nothing else rests awake without a round.\<close>

definition awoken :: "nat \<Rightarrow> (nat \<times> work) multiset \<Rightarrow> 'v driver \<Rightarrow> bool" where
  "awoken n W d \<longleftrightarrow> matched W d \<and> ring_ok d \<and> phase_of n d = Some Awake \<and>
     (round_on d \<or> (\<forall>m. m \<noteq> n \<longrightarrow> \<not> awake m d))"

lemma awoken_sleeps:
  assumes "awoken n W d"
  shows "yields (sleep_after clk n stop d) (agent_inv W)"
proof -
  have "agent_inv W e" if "calm W d e \<and> \<not> awake n e" for e
  proof -
    have "matched W e" "ring_ok e" using that assms calm_ring by (auto simp: awoken_def calm_def)
    moreover have "rests e"
      using that assms calm_round [of W d e] calm_awake [of W d e] unfolding rests_def awoken_def by metis
    ultimately show ?thesis by (simp add: agent_inv_def)
  qed
  then show ?thesis using assms by (intro yields_mono [OF sleep_after_calm]) (auto simp: awoken_def)
qed

lemma awoken_stays: "awoken n W d \<Longrightarrow> round_on d \<Longrightarrow> agent_inv W d"
  by (simp add: awoken_def agent_inv_def rests_def)

lemma finish_awake:
  fixes d :: "'v driver"
  assumes "finishing n W d" "\<And>e :: 'v driver. awoken n W e \<Longrightarrow> yields (g e) P"
  shows "yields (set_player n (\<lambda>p. p\<lparr>ap_vm := vm\<rparr>) d \<bind> (\<lambda>d. set_phase_to clk n Awake d \<bind> g)) P"
proof -
  have awoken: "awoken n W e" if "matched W e" "ring_ok e" "phase_of n e = Some Awake" "dv_playing e = dv_playing d"
      "\<forall>m. m \<noteq> n \<longrightarrow> awake m e = awake m d" for e :: "'v driver"
    using that assms(1) by (auto simp: awoken_def finishing_def rests_def round_on_def)
  have "yields (set_player n (\<lambda>p. p\<lparr>ap_vm := vm\<rparr>) d \<bind> set_phase_to clk n Awake) (awoken n W)"
    using assms(1) unfolding finishing_def by (intro yields_mono [OF finish_player]) (auto intro: awoken)
  from yields_bind [OF this assms(2)] show ?thesis by simp
qed

lemma awoken_flag:
  assumes "awoken n W d" "\<And>p. ap_phase (f p) = ap_phase p"
  shows "yields (set_player n f d) (\<lambda>e. awoken n W e \<and> dv_playing e = dv_playing d)"
proof -
  define e where "e = d\<lparr>dv_players := (dv_players d)[n := f (dv_players d ! n)]\<rparr>"
  have n: "n < length (dv_players d)" using assms(1) by (auto simp: awoken_def dest: phase_ofD)
  have ph: "phase_of m e = phase_of m d" for m using n assms(2) by (auto simp: e_def phase_of_def nth_list_update)
  have dg: "doing m k e = doing m k d" for m k using n assms(2) by (auto simp: e_def doing_def nth_list_update)
  have fr: "dv_acts e = dv_acts d" "dv_playing e = dv_playing d" "length (dv_players e) = length (dv_players d)"
    by (simp_all add: e_def)
  have "awoken n W e"
    using assms(1) unfolding awoken_def matched_def ring_ok_def round_on_def awake_def ph dg fr .
  then show ?thesis using n by (simp add: set_player_def e_def)
qed

lemma awoken_frame:
  "awoken n W d \<Longrightarrow> awoken n W (d\<lparr>dv_wakes := w\<rparr>)" "awoken n W d \<Longrightarrow> awoken n W (d\<lparr>dv_late := l\<rparr>)"
  "awoken n W d \<Longrightarrow> awoken n W (emit clk m kind d)"
  by (auto simp: awoken_def ring_ok_def round_on_def emit_def matched_act)

lemma done_booted_inv:
  fixes d :: "'v driver"
  assumes "finishing n W d"
  shows "yields (done_booted clk n vm d) (agent_inv W)"
  unfolding done_booted_def Let_def
proof (rule finish_awake [OF assms])
  fix e :: "'v driver" assume e: "awoken n W e"
  have "ring_ok e" using e by (simp add: awoken_def)
  then show "yields (within_lead e \<bind> (\<lambda>ns. set_player n (\<lambda>p. p\<lparr>ap_sleep_after_wake := False\<rparr>) e \<bind> (\<lambda>d.
      if ap_sleep_after_wake (dv_players e ! n) \<or> n \<notin> set ns then sleep_after clk n (dv_ended d) d \<bind> advance clk
      else advance clk d))) (agent_inv W)"
  proof (rule yields_bind [OF within_lead_ring])
    fix ns assume ns: "(\<forall>n \<in> set ns. n < length (dv_players e)) \<and> (\<not> round_on e \<longrightarrow> ns = [])"
    have "yields (set_player n (\<lambda>p. p\<lparr>ap_sleep_after_wake := False\<rparr>) e) (\<lambda>f. awoken n W f \<and> dv_playing f = dv_playing e)"
      by (rule awoken_flag [OF e]) simp
    then show "yields (set_player n (\<lambda>p. p\<lparr>ap_sleep_after_wake := False\<rparr>) e \<bind> (\<lambda>d.
        if ap_sleep_after_wake (dv_players e ! n) \<or> n \<notin> set ns then sleep_after clk n (dv_ended d) d \<bind> advance clk
        else advance clk d)) (agent_inv W)"
    proof (rule yields_bind)
      fix f :: "'v driver" assume f: "awoken n W f \<and> dv_playing f = dv_playing e"
      have "yields (sleep_after clk n (dv_ended f) f \<bind> advance clk) (agent_inv W)"
        by (rule yields_bind [OF awoken_sleeps]) (use f in \<open>auto intro: calm_handlers(2)\<close>)
      moreover have "yields (advance clk f) (agent_inv W)" if "n \<in> set ns"
      proof -
        have "round_on f" using ns f that by (auto simp: round_on_def)
        then show ?thesis using f awoken_stays calm_handlers(2) by blast
      qed
      ultimately show "yields (if ap_sleep_after_wake (dv_players e ! n) \<or> n \<notin> set ns
          then sleep_after clk n (dv_ended f) f \<bind> advance clk else advance clk f) (agent_inv W)" by simp
    qed
  qed
qed

lemma woke_next_inv:
  assumes e: "awoken n W e"
  shows "yields (woke_next clk n threw e) (agent_inv W)"
proof (cases "threw \<or> \<not> round_on e")
  case True
  then show ?thesis using awoken_sleeps [OF e]
    by (auto simp: woke_next_def round_on_def split: option.split)
next
  case False
  then obtain p where p: "dv_playing e = Some p" "\<not> pg_over p" by (auto simp: round_on_def)
  have inv: "agent_inv W e" using awoken_stays [OF e] False by simp
  have "yields ((case pr_pace_ms (pg_order p) of Some hold \<Rightarrow> send_pace (pr_round (pg_order p)) hold e | None \<Rightarrow> Some e)
      \<bind> advance clk) (agent_inv W)"
    by (rule yields_bind [where Q = "agent_inv W"]) (auto simp: inv calm_handlers split: option.split)
  then show ?thesis using p False awoken_sleeps [OF e] by (simp add: woke_next_def)
qed

lemma done_woke_inv:
  fixes d :: "'v driver"
  assumes "finishing n W d"
  shows "yields (done_woke clk n vm stages took d) (agent_inv W)"
  unfolding done_woke_def Let_def
proof (rule finish_awake [OF assms])
  fix e :: "'v driver" assume e: "awoken n W e"
  define w where "w = emit clk n (Woke took stages)
    (e\<lparr>dv_wakes := drop (length (dv_wakes e @ [took]) - RECENT_WAKES) (dv_wakes e @ [took])\<rparr>)"
  define f where "f = (case dv_late w of
      Some (k, rnd, seq, since) \<Rightarrow>
        if k = n then emit clk n (Listening rnd seq (of_nat (fst clk - since))) (w\<lparr>dv_late := None\<rparr>) else w
    | None \<Rightarrow> w)"
  have "awoken n W w" unfolding w_def by (intro awoken_frame e)
  then have f: "awoken n W f" unfolding f_def by (auto intro: awoken_frame split: option.split prod.split)
  have "yields (set_player n (\<lambda>p. p\<lparr>ap_sleep_after_wake := False\<rparr>) f \<bind> woke_next clk n (ap_sleep_after_wake (dv_players f ! n)))
      (agent_inv W)"
    by (rule yields_bind [OF awoken_flag [OF f]]) (auto intro: woke_next_inv)
  then show "yields (set_player n (\<lambda>p. p\<lparr>ap_sleep_after_wake := False\<rparr>)
      (case dv_late (emit clk n (Woke took stages)
          (e\<lparr>dv_wakes := drop (length (dv_wakes e @ [took]) - RECENT_WAKES) (dv_wakes e @ [took])\<rparr>)) of
        None \<Rightarrow> emit clk n (Woke took stages)
          (e\<lparr>dv_wakes := drop (length (dv_wakes e @ [took]) - RECENT_WAKES) (dv_wakes e @ [took])\<rparr>)
      | Some (k, rnd, seq, since) \<Rightarrow>
          if k = n then emit clk n (Listening rnd seq (of_nat (fst clk - since)))
            (emit clk n (Woke took stages)
              (e\<lparr>dv_wakes := drop (length (dv_wakes e @ [took]) - RECENT_WAKES) (dv_wakes e @ [took])\<rparr>)\<lparr>dv_late := None\<rparr>)
          else emit clk n (Woke took stages)
            (e\<lparr>dv_wakes := drop (length (dv_wakes e @ [took]) - RECENT_WAKES) (dv_wakes e @ [took])\<rparr>))
      \<bind> woke_next clk n (ap_sleep_after_wake (dv_players f ! n))) (agent_inv W)"
    unfolding w_def [symmetric] f_def [symmetric] .
qed

fun work_finished :: "'v finished \<Rightarrow> (nat \<times> work) option" where
  "work_finished (Booted n _) = Some (n, Boots)"
| "work_finished (Slept_done n _ _) = Some (n, Sleeps)"
| "work_finished (Woke_done n _ _) = Some (n, Wakes)"
| "work_finished _ = None"

definition rest_of :: "'v finished \<Rightarrow> (nat \<times> work) multiset \<Rightarrow> (nat \<times> work) multiset" where
  "rest_of x W = (case work_finished x of Some w \<Rightarrow> W - {#w#} | None \<Rightarrow> W)"

definition in_flight :: "'v finished \<Rightarrow> (nat \<times> work) multiset \<Rightarrow> bool" where
  "in_flight x W \<longleftrightarrow> (case work_finished x of Some w \<Rightarrow> w \<in># W | None \<Rightarrow> True)"

lemma finishing_flight:
  assumes inv: "agent_inv W d" "dv_acts d = []" and w: "(n, k) \<in># W"
  shows "finishing n (W - {#(n, k)#}) d"
proof -
  have cnt: "count W (m, j) = (if doing m j d then 1 else 0)" for m j
    using invD(2) [OF inv(1)] inv(2) by (simp add: matched_def)
  have one: "doing n k d" using cnt [of n k] w by (metis count_eq_zero_iff)
  then have "\<not> doing n j d" if "j \<noteq> k" for j using that by (auto simp: doing_def)
  then have "matched_but n (W - {#(n, k)#}) d"
    using one inv(2) unfolding matched_but_def by (auto simp: cnt)
  then show ?thesis using one inv by (simp add: finishing_def agent_inv_def doing_def)
qed

lemma done_free_inv:
  assumes inv: "agent_inv W d" and "work_finished x = None"
  shows "yields (done_work clk x d) (agent_inv W)"
proof -
  have g: "agent_inv W (d\<lparr>dv_gold_ready := True\<rparr>)"
    by (rule calm_inv [OF _ inv]) (simp add: calm_def matched_def doing_def awake_def phase_of_def)
  have kicked: "agent_inv W (emit clk n kind d)" for n kind
    unfolding emit_def by (rule inv_act [OF _ inv]) simp
  have ring: "pr_ring (pg_order p) \<noteq> []" if "dv_playing d = Some p" for p
    using invD(1) [OF inv] that by (simp add: ring_ok_def)
  show ?thesis
  proof (cases x)
    case (Gold r)
    then show ?thesis using g inv by (auto simp: done_work_def calm_handlers intro: inv_act split: option.split)
  next
    case RetryGold
    then show ?thesis using inv by (simp add: done_work_def inv_act)
  next
    case (Kicked rnd r)
    then show ?thesis using kicked ring inv
      by (auto simp: done_work_def split: option.split list.split)
  qed (use assms(2) in simp_all)
qed

lemma done_work_inv:
  assumes inv: "agent_inv W d" "dv_acts d = []" and x: "in_flight x W"
  shows "yields (done_work clk x d) (agent_inv (rest_of x W))"
proof (cases x)
  case (Booted n r)
  then have "finishing n (rest_of x W) d" using finishing_flight [OF inv] x by (simp add: in_flight_def rest_of_def)
  then show ?thesis using Booted by (auto simp: done_work_def done_booted_inv failed_as_inv split: sum.split)
next
  case (Slept_done n r took)
  then have "finishing n (rest_of x W) d" using finishing_flight [OF inv] x by (simp add: in_flight_def rest_of_def)
  then show ?thesis using Slept_done by (auto simp: done_work_def done_slept_inv failed_as_inv split: sum.split)
next
  case (Woke_done n r took)
  then have "finishing n (rest_of x W) d" using finishing_flight [OF inv] x by (simp add: in_flight_def rest_of_def)
  then show ?thesis using Woke_done by (auto simp: done_work_def done_woke_inv failed_as_inv split: sum.split prod.split)
qed (use done_free_inv [OF inv(1), of x] in \<open>simp_all add: rest_of_def\<close>)

end
