(* ===== verification/Potato_Agent_Run.thy ===== *)
theory Potato_Agent_Run
  imports Potato_Agent_Safety
begin

text \<open>
  The agent's potato loop, src/src/fleet/agent/potato.rs (run): the driver with the tasks it has spawned, every
  interleaving of orders, reports and finished tasks, and what holds in every world the loop reaches.
\<close>

section \<open>The driver and the work it started\<close>

text \<open>
  A world is the driver between two turns of its select loop, with the boots, sleeps and wakes its spawned tasks still
  have in hand. A turn takes one message (an order of the coordinator, a report of a player, or the end of a task, which
  must be one of those in hand), runs its handler, and hands the work the handler asked for to new tasks.
\<close>

type_synonym 'v agent_world = "'v driver \<times> (nat \<times> work) multiset"

datatype 'v message =
    Ordered "potato_round option"
  | Reported report nat
  | Finished "'v finished"

definition agent_turn :: "(bytes \<Rightarrow> nat option) \<Rightarrow> clocks \<Rightarrow> 'v message \<Rightarrow> 'v driver \<Rightarrow> 'v driver option" where
  "agent_turn player_of clk msg d = (case msg of
     Ordered ord \<Rightarrow> order clk ord d
   | Reported report t \<Rightarrow> heard player_of clk report t d
   | Finished x \<Rightarrow> done_work clk x d)"

fun left_of :: "'v message \<Rightarrow> (nat \<times> work) multiset \<Rightarrow> (nat \<times> work) multiset" where
  "left_of (Finished x) W = rest_of x W"
| "left_of _ W = W"

text \<open>
  What may arrive: any report, the end of a task in hand, and an order with at least one player in its ring. The
  driver does not look for an empty ring and panics on one, as \<open>empty_ring_panics\<close> below shows; the coordinator's game
  never orders one, which the root theory proves of every state it reaches.
\<close>

fun may_arrive :: "'v message \<Rightarrow> (nat \<times> work) multiset \<Rightarrow> bool" where
  "may_arrive (Ordered (Some ord)) W = (pr_ring ord \<noteq> [])"
| "may_arrive (Ordered None) W = True"
| "may_arrive (Reported _ _) W = True"
| "may_arrive (Finished x) W = in_flight x W"

inductive agent_step :: "'v agent_world \<Rightarrow> 'v agent_world \<Rightarrow> bool" where
  turn: "may_arrive msg W \<Longrightarrow> agent_turn player_of clk msg d = Some d' \<Longrightarrow>
    agent_step (d, W) (d'\<lparr>dv_acts := []\<rparr>, left_of msg W + work_of (dv_acts d'))"

inductive_cases agent_stepE: "agent_step w w'"

definition agent_start :: "nat \<Rightarrow> nat \<Rightarrow> 'v agent_world" where
  "agent_start players now = ((driver_new players now)\<lparr>dv_acts := []\<rparr>, work_of (dv_acts (driver_new players now :: 'v driver)))"

definition agent_reachable :: "'v agent_world \<Rightarrow> bool" where
  "agent_reachable w \<longleftrightarrow> (\<exists>players now. agent_step\<^sup>*\<^sup>* (agent_start players now) w)"

definition settled_inv :: "'v agent_world \<Rightarrow> bool" where
  "settled_inv w \<longleftrightarrow> agent_inv (snd w) (fst w) \<and> dv_acts (fst w) = []"

lemma agent_settle: "agent_inv W d \<Longrightarrow> settled_inv (d\<lparr>dv_acts := []\<rparr>, W + work_of (dv_acts d))"
proof -
  have "awake n (d\<lparr>dv_acts := []\<rparr>) = awake n d" "doing n k (d\<lparr>dv_acts := []\<rparr>) = doing n k d" for n k
    by (simp_all add: awake_def phase_of_def doing_def)
  then show "agent_inv W d \<Longrightarrow> ?thesis"
    by (simp add: settled_inv_def agent_inv_def ring_ok_def rests_def round_on_def matched_def)
qed

lemma agent_start_inv: "settled_inv (agent_start players now)"
  by (simp add: settled_inv_def agent_start_def driver_new_def agent_inv_def ring_ok_def rests_def round_on_def awake_def
      phase_of_def matched_def doing_def)

lemma agent_turn_inv:
  assumes "settled_inv (d, W)" "may_arrive msg W"
  shows "yields (agent_turn player_of clk msg d) (agent_inv (left_of msg W))"
proof (cases msg)
  case (Ordered ord)
  then show ?thesis using assms by (cases ord) (auto simp: agent_turn_def settled_inv_def intro: order_inv)
next
  case (Reported r t)
  then show ?thesis using assms by (simp add: agent_turn_def settled_inv_def heard_inv)
next
  case (Finished x)
  then show ?thesis using assms by (simp add: agent_turn_def settled_inv_def done_work_inv)
qed

lemma agent_step_inv: "agent_step w w' \<Longrightarrow> settled_inv w \<Longrightarrow> settled_inv w'"
proof (induction rule: agent_step.induct)
  case (turn msg W player_of clk d d')
  then show ?case using agent_turn_inv [OF turn(3,1), of player_of clk] agent_settle by simp
qed

interpretation agent: kept_by_steps agent_step settled_inv
  by unfold_locales (rule agent_step_inv)

lemma agent_reachable_inv: "agent_reachable w \<Longrightarrow> settled_inv w"
  unfolding agent_reachable_def using agent.steps_keep agent_start_inv by blast

text \<open>A run of the loop on a list of messages.\<close>

fun agent_run :: "(bytes \<Rightarrow> nat option) \<Rightarrow> clocks \<Rightarrow> 'v message list \<Rightarrow> 'v agent_world \<Rightarrow> 'v agent_world option" where
  "agent_run player_of clk [] w = Some w"
| "agent_run player_of clk (msg # msgs) (d, W) = (if may_arrive msg W then do {
     d' \<leftarrow> agent_turn player_of clk msg d;
     agent_run player_of clk msgs (d'\<lparr>dv_acts := []\<rparr>, left_of msg W + work_of (dv_acts d')) } else None)"

lemma agent_run_steps: "agent_run player_of clk msgs w = Some w' \<Longrightarrow> agent_step\<^sup>*\<^sup>* w w'"
proof (induction msgs arbitrary: w)
  case (Cons msg msgs)
  then show ?case
    by (cases w) (auto split: if_splits bind_splits intro: converse_rtranclp_into_rtranclp agent_step.turn)
qed simp

lemma agent_run_reachable: "agent_run player_of clk msgs (agent_start players now) = Some w \<Longrightarrow> agent_reachable w"
  unfolding agent_reachable_def using agent_run_steps by blast

definition demo_order :: potato_round where
  "demo_order = \<lparr>pr_round = 1, pr_ring = [0, 1], pr_hold_ms = 2000, pr_shrink_permille = 100, pr_min_hold_ms = 50,
     pr_flight_ms = 100, pr_colours = 12, pr_pace_ms = None\<rparr>"

definition demo_messages :: "unit message list" where
  "demo_messages = [Finished (Gold None), Ordered (Some demo_order), Finished (Booted 0 (Inr None))]"

definition demo_agent :: "unit agent_world" where
  "demo_agent = (\<lparr>dv_players =
       [\<lparr>ap_phase = Awake, ap_since = 5, ap_vm = None, ap_sleep_after_wake = False\<rparr>,
        \<lparr>ap_phase = Booting, ap_since = 5, ap_vm = None, ap_sleep_after_wake = False\<rparr>],
     dv_gold_ready = True, dv_wakes = [],
     dv_playing = Some \<lparr>pg_order = demo_order, pg_seq = 0, pg_caught = False, pg_kicked = False, pg_over = False\<rparr>,
     dv_late = None, dv_ended = None, dv_acts = []\<rparr>, {#(1, Boots)#})"

lemmas agent_defs = agent_turn_def done_work_def advance_def order_def same_round_def end_playing_def schedule_wakes_def
  within_lead_def when_phase_def phase_of_def boot_def set_phase_to_def set_player_def act_def done_booted_def
  in_flight_def rest_of_def kick_def

lemma one_ahead: "max (min k (Suc 0)) (Suc 0) = Suc 0"
  by simp

lemma demo_agent_runs: "agent_run (\<lambda>_. None) (5, 1005) demo_messages (agent_start 2 0) = Some demo_agent"
  by (simp add: demo_messages_def demo_order_def demo_agent_def agent_start_def driver_new_def agent_defs one_ahead Let_def
      numeral_2_eq_2)

lemma demo_agent_reachable: "agent_reachable (fst demo_agent, snd demo_agent)"
  using agent_run_reachable [OF demo_agent_runs] by simp

text \<open>
  Claim C26. In every world the agent's loop reaches, whatever order the orders (of rounds with at least one player), the
  reports and the ends of tasks came in, the tasks in flight are exactly those the players' phases name: a booting player
  has one boot in flight, a sleeping one one sleep, a waking one one wake, and no player has two tasks, so no snapshot is
  written and restored at once.
\<close>

theorem one_task_per_player:
  assumes "agent_reachable (d, W)"
  shows "count W (n, k) = (if n < length (dv_players d) \<and> busy (ap_phase (dv_players d ! n)) = Some k then 1 else 0)"
proof -
  have "matched W d" "dv_acts d = []"
    using agent_reachable_inv [OF assms] by (simp_all add: settled_inv_def agent_inv_def)
  then show ?thesis by (simp add: matched_def doing_def)
qed

theorem one_task_per_player_witness:
  "agent_reachable (fst demo_agent, snd demo_agent) \<and> count (snd demo_agent) (1, Boots) = 1 \<and>
   count (snd demo_agent) (0, Sleeps) = 0"
  using demo_agent_reachable one_task_per_player [OF demo_agent_reachable, of 1 Boots]
    one_task_per_player [OF demo_agent_reachable, of 0 Sleeps]
  by (simp add: demo_agent_def)

text \<open>
  Claim C28. In every world the agent's loop reaches, from orders of rounds with at least one player, any reports and the
  ends of its tasks, a player is in the phase awake only while a round is played: with no round, or with one that has
  ended, every player is asleep or on its way there, not running, or in a boot or wake whose end is still to come.
\<close>

theorem no_player_left_awake:
  assumes "agent_reachable (d, W)" "n < length (dv_players d)" "ap_phase (dv_players d ! n) = Awake"
  shows "\<exists>p. dv_playing d = Some p \<and> \<not> pg_over p"
proof -
  have "awake n d" using assms(2,3) by (simp add: awake_def phase_of_def)
  moreover have "rests d" using agent_reachable_inv [OF assms(1)] by (simp add: settled_inv_def agent_inv_def)
  ultimately show ?thesis by (auto simp: rests_def round_on_def)
qed

theorem no_player_left_awake_witness:
  "agent_reachable (fst demo_agent, snd demo_agent) \<and> ap_phase (dv_players (fst demo_agent) ! 0) = Awake \<and>
   (\<exists>p. dv_playing (fst demo_agent) = Some p \<and> \<not> pg_over p)"
  using demo_agent_reachable no_player_left_awake [OF demo_agent_reachable, of 0] by (simp add: demo_agent_def)

lemma agent_turn_returns: "agent_reachable (d, W) \<Longrightarrow> may_arrive msg W \<Longrightarrow> \<exists>d'. agent_turn player_of clk msg d = Some d'"
  using agent_turn_inv [OF agent_reachable_inv, of d W msg player_of clk] by (auto simp: yields_def)

text \<open>An order with an empty ring, which is left out above, panics as soon as the players' snapshot is ready.\<close>

lemma empty_ring_panics:
  assumes "dv_gold_ready d" "dv_playing d = None" "pr_ring q = []"
  shows "agent_turn player_of clk (Ordered (Some q)) d = None"
  using assms by (simp add: agent_turn_def order_def same_round_def end_playing_def advance_def schedule_wakes_def within_lead_def)

text \<open>
  The hold the agent computes for its lead is the one the coordinator computes for the same catch of the round it
  ordered, during the first thousand laps: there the agent stops shrinking it, the coordinator only at ten thousand.
\<close>

theorem agent_hold_agrees:
  assumes "po_round g = Some r" "order_of g = Some (pg_order p)" "pg_seq p div max (length (rd_ring r)) 1 \<le> 1000"
  shows "playing_hold_ms p = hold_at r (pg_seq p)"
proof -
  define q where "q = pg_order p"
  have "q = \<lparr>pr_round = rd_id r, pr_ring = rd_ring r, pr_hold_ms = rd_start_hold_ms r,
      pr_shrink_permille = rd_shrink_permille r, pr_min_hold_ms = rd_min_hold_ms r,
      pr_flight_ms = rd_flight_ms r, pr_colours = rd_colours r, pr_pace_ms = rd_pace_ms r\<rparr>"
    using assms(1,2) by (simp add: order_of_def q_def)
  then show ?thesis using assms(3)
    by (simp add: playing_hold_ms_def hold_at_def lap_hold_def shrink_def Let_def q_def [symmetric] min_def split: option.split)
qed

end
