(* ===== verification/Fleet_Tiling.thy ===== *)
theory Fleet_Tiling
  imports Fcvm_Prelude "HOL-Library.Countable"
begin

text \<open>
  Cutting the wall's image into one rectangle per tile: \<open>fleet/core/src/tiling.rs\<close>, and the part of
  \<open>retile\<close> in \<open>fleet/core/src/apply.rs\<close> that lays the two sides out.  Coordinates (\<open>f64\<close>) are
  exact rational numbers, so a statement about a shared edge is one about the formulas and not about
  their rounding; the natural logarithm that rates a row count is a parameter.
\<close>

section \<open>Rectangles\<close>

record rect =
  rc_x :: rat
  rc_y :: rat
  rc_w :: rat
  rc_h :: rat

datatype half = Fcvm | Ec2

text \<open>The loop over row counts keeps the first whose error is smallest by more than 1e-12.\<close>

definition rows_try :: "(rat \<Rightarrow> rat) \<Rightarrow> nat \<Rightarrow> rat \<Rightarrow> rat \<Rightarrow> nat \<Rightarrow> nat \<times> rat option \<Rightarrow> nat \<times> rat option" where
  "rows_try ln n half_aspect tile_aspect r = (\<lambda>(best, best_err).
     let aspect = half_aspect * of_nat (r * r) / of_nat n;
         err = \<bar>ln (aspect / tile_aspect)\<bar>
     in if (case best_err of None \<Rightarrow> True | Some b \<Rightarrow> err < b - 1 / 10 ^ 12) then (r, Some err) else (best, best_err))"

definition rows_for :: "(rat \<Rightarrow> rat) \<Rightarrow> nat \<Rightarrow> rat \<Rightarrow> rat \<Rightarrow> nat" where
  "rows_for ln n half_aspect tile_aspect =
     (if n = 0 then 0 else fst (fold (rows_try ln n half_aspect tile_aspect) [1..<n + 1] (1, None)))"

definition row_counts :: "nat \<Rightarrow> nat \<Rightarrow> nat list" where
  "row_counts n rows = (if rows = 0 then []
     else let base = n div rows; extra = n mod rows
          in map (\<lambda>i. if i < rows - extra then base else base + 1) [0..<rows])"

definition sides :: "nat \<Rightarrow> nat \<Rightarrow> rect \<times> rect" where
  "sides fcvm ec2 =
     (let total = fcvm + ec2; w = (if total = 0 then 0 else of_nat fcvm / of_nat total)
      in (\<lparr>rc_x = 0, rc_y = 0, rc_w = w, rc_h = 1\<rparr>,
          \<lparr>rc_x = w, rc_y = 0, rc_w = (if total = 0 then 0 else 1 - w), rc_h = 1\<rparr>))"

text \<open>Piece \<open>k\<close> of \<open>n\<close>, as the loops cut rows and columns.\<close>

definition cell :: "rect \<Rightarrow> nat \<Rightarrow> nat \<Rightarrow> nat \<Rightarrow> nat \<Rightarrow> rect" where
  "cell area rows i cols j =
     (let y0 = of_nat i / of_nat rows; y1 = of_nat (i + 1) / of_nat rows;
          x0 = of_nat j / of_nat cols; x1 = of_nat (j + 1) / of_nat cols
      in \<lparr>rc_x = rc_x area + rc_w area * x0, rc_y = rc_y area + rc_h area * y0,
          rc_w = rc_w area * (x1 - x0), rc_h = rc_h area * (y1 - y0)\<rparr>)"

definition grid_in :: "(rat \<Rightarrow> rat) \<Rightarrow> rect \<Rightarrow> nat \<Rightarrow> rat \<Rightarrow> rat \<Rightarrow> rect list" where
  "grid_in ln area n image_aspect tile_aspect =
     (let rows = rows_for ln n (rc_w area * image_aspect / rc_h area) tile_aspect
      in concat (map (\<lambda>(i, cols). map (cell area rows i cols) [0..<cols]) (List.enumerate 0 (row_counts n rows))))"

text \<open>The bands from the one that starts after \<open>before\<close> tiles of \<open>tiles\<close>.\<close>

fun bands_from :: "(rat \<Rightarrow> rat) \<Rightarrow> rect \<Rightarrow> nat \<Rightarrow> rat \<Rightarrow> rat \<Rightarrow> nat \<Rightarrow> nat list \<Rightarrow> (rect \<times> rect list) list" where
  "bands_from ln side tiles image_aspect tile_aspect before [] = []"
| "bands_from ln side tiles image_aspect tile_aspect before (c # cs) =
     (let y0 = of_nat before / of_nat tiles; y1 = of_nat (before + c) / of_nat tiles;
          band = \<lparr>rc_x = rc_x side, rc_y = rc_y side + rc_h side * y0, rc_w = rc_w side, rc_h = rc_h side * (y1 - y0)\<rparr>
      in (band, grid_in ln band c image_aspect tile_aspect)
         # bands_from ln side tiles image_aspect tile_aspect (before + c) cs)"

definition bands :: "(rat \<Rightarrow> rat) \<Rightarrow> rect \<Rightarrow> nat list \<Rightarrow> rat \<Rightarrow> rat \<Rightarrow> (rect \<times> rect list) list" where
  "bands ln side counts image_aspect tile_aspect =
     bands_from ln side (sum_list counts) image_aspect tile_aspect 0 counts"

text \<open>
  The layout \<open>retile\<close> computes for hosts with \<open>groups\<close> live tiles each: the hosts' bands and, below them,
  the band of the places that have no GPU, then the tiles of the other side.
\<close>

definition wall_layout :: "(rat \<Rightarrow> rat) \<Rightarrow> nat list \<Rightarrow> nat \<Rightarrow> nat \<Rightarrow> rat \<Rightarrow> rat \<Rightarrow> (rect \<times> rect list) list \<times> rect list" where
  "wall_layout ln groups fcvm_places ec2_n image_aspect tile_aspect =
     (let (fcvm_side, ec2_side) = sides fcvm_places ec2_n;
          dark = fcvm_places - sum_list groups;
          counts = (if dark > 0 then groups @ [dark] else groups);
          host_bands = (if fcvm_places = 0 then [] else bands ln fcvm_side counts image_aspect tile_aspect)
      in (host_bands, grid_in ln ec2_side ec2_n image_aspect tile_aspect))"

section \<open>Row counts\<close>

lemma rows_loop_bounds:
  "1 \<le> fst b \<Longrightarrow> fst b \<le> n \<Longrightarrow> \<forall>r \<in> set rs. 1 \<le> r \<and> r \<le> n \<Longrightarrow>
   1 \<le> fst (fold (rows_try ln m ha ta) rs b) \<and> fst (fold (rows_try ln m ha ta) rs b) \<le> n"
  by (induction rs arbitrary: b) (auto simp: rows_try_def Let_def split: prod.splits option.splits)

lemma rows_for_bounds: "0 < n \<Longrightarrow> 1 \<le> rows_for ln n ha ta \<and> rows_for ln n ha ta \<le> n"
  using rows_loop_bounds [of "(1, None)" n "[1..<n + 1]"] by (simp add: rows_for_def)

lemma row_counts_length [simp]: "length (row_counts n rows) = rows"
  by (simp add: row_counts_def Let_def)

lemma sum_two_values:
  fixes a b :: nat
  assumes "k \<le> m"
  shows "(\<Sum>i\<leftarrow>[0..<m]. if i < k then a else b) = k * a + (m - k) * b"
proof -
  have "[0..<m] = [0..<k] @ [k..<m]" using assms by (metis le0 upt_add_eq_append le_add_diff_inverse)
  moreover have "(\<Sum>i\<leftarrow>[0..<k]. if i < k then a else b) = k * a"
    by (subst map_cong [OF refl, where g = "\<lambda>_. a"]) (simp_all add: sum_list_triv)
  moreover have "(\<Sum>i\<leftarrow>[k..<m]. if i < k then a else b) = (m - k) * b"
    by (subst map_cong [OF refl, where g = "\<lambda>_. b"]) (simp_all add: sum_list_triv)
  ultimately show ?thesis by simp
qed

lemma row_counts_sum:
  assumes "0 < rows"
  shows "sum_list (row_counts n rows) = n"
proof -
  define q e where "q = n div rows" and "e = n mod rows"
  have "e < rows" "n = rows * q + e" using assms by (simp_all add: q_def e_def)
  moreover have "sum_list (row_counts n rows) = (rows - e) * q + (rows - (rows - e)) * (q + 1)"
    using assms sum_two_values [of "rows - e" rows q "q + 1"] by (simp add: row_counts_def Let_def flip: q_def e_def)
  ultimately show ?thesis by (simp add: algebra_simps diff_mult_distrib2)
qed

lemma row_counts_pos: "0 < rows \<Longrightarrow> rows \<le> n \<Longrightarrow> c \<in> set (row_counts n rows) \<Longrightarrow> 0 < c"
  by (auto simp: row_counts_def Let_def div_greater_zero_iff)

section \<open>Exact partitions\<close>

text \<open>
  A rectangle covers the points from its left and top edges up to, not including, its right and bottom ones.
  A list of rectangles cuts an area when every point of the area is covered once and no other point is.
\<close>

definition covers_pt :: "rect \<Rightarrow> rat \<times> rat \<Rightarrow> bool" where
  "covers_pt r p \<longleftrightarrow> rc_x r \<le> fst p \<and> fst p < rc_x r + rc_w r \<and> rc_y r \<le> snd p \<and> snd p < rc_y r + rc_h r"

definition times_covered :: "rect list \<Rightarrow> rat \<times> rat \<Rightarrow> int" where
  "times_covered rs p = (\<Sum>r\<leftarrow>rs. of_bool (covers_pt r p))"

definition cuts :: "rect list \<Rightarrow> rect \<Rightarrow> bool" where
  "cuts rs area \<longleftrightarrow> (\<forall>p. times_covered rs p = of_bool (covers_pt area p))"

lemma cutsD: "cuts rs area \<Longrightarrow> times_covered rs p = of_bool (covers_pt area p)"
  unfolding cuts_def by (erule spec)

lemma times_covered_simps [simp]:
  "times_covered [] p = 0" "times_covered (r # rs) p = of_bool (covers_pt r p) + times_covered rs p"
  "times_covered (rs @ ss) p = times_covered rs p + times_covered ss p"
  by (simp_all add: times_covered_def)

lemma times_covered_concat: "times_covered (concat rss) p = (\<Sum>rs\<leftarrow>rss. times_covered rs p)"
  by (induction rss) simp_all

text \<open>Half-open intervals between rising cuts: each point between the first and the last is in one.\<close>

lemma rising_cuts:
  fixes u :: "nat \<Rightarrow> rat"
  assumes "\<And>i. i < n \<Longrightarrow> u i \<le> u (i + 1)"
  shows "(\<Sum>i\<leftarrow>[0..<n]. of_bool (u i \<le> x \<and> x < u (i + 1))) = (of_bool (u 0 \<le> x \<and> x < u n) :: int) \<and> u 0 \<le> u n"
  using assms
proof (induction n)
  case (Suc n)
  have up: "u n \<le> u (Suc n)" using Suc.prems [of n] by simp
  have ih: "(\<Sum>i\<leftarrow>[0..<n]. of_bool (u i \<le> x \<and> x < u (i + 1))) = (of_bool (u 0 \<le> x \<and> x < u n) :: int)" "u 0 \<le> u n"
    using Suc by simp_all
  then have "u 0 \<le> u (Suc n)" using up by linarith
  moreover have "(of_bool (u 0 \<le> x \<and> x < u n) :: int) + of_bool (u n \<le> x \<and> x < u (Suc n)) = of_bool (u 0 \<le> x \<and> x < u (Suc n))"
    using up ih(2) by auto
  ultimately show ?case using ih(1) by simp
qed simp

lemma even_cuts:
  fixes a w x :: rat
  assumes "0 < n" "0 \<le> w"
  shows "(\<Sum>i\<leftarrow>[0..<n]. of_bool (a + w * (of_nat i / of_nat n) \<le> x \<and> x < a + w * (of_nat (i + 1) / of_nat n)))
    = (of_bool (a \<le> x \<and> x < a + w) :: int)"
proof -
  have "a + w * (of_nat i / of_nat n) \<le> a + w * (of_nat (i + 1) / of_nat n)" for i
    using assms by (intro add_left_mono mult_left_mono divide_right_mono) simp_all
  from rising_cuts [where u = "\<lambda>i. a + w * (of_nat i / of_nat n)" and n = n and x = x, OF this]
  show ?thesis using assms(1) by simp
qed

lemma cell_covers:
  "covers_pt (cell area rows i cols j) p \<longleftrightarrow>
     (rc_x area + rc_w area * (of_nat j / of_nat cols) \<le> fst p \<and> fst p < rc_x area + rc_w area * (of_nat (j + 1) / of_nat cols)) \<and>
     (rc_y area + rc_h area * (of_nat i / of_nat rows) \<le> snd p \<and> snd p < rc_y area + rc_h area * (of_nat (i + 1) / of_nat rows))"
  unfolding covers_pt_def cell_def Let_def by (auto simp: right_diff_distrib)

lemma sum_of_bool_conj: "(\<Sum>x\<leftarrow>xs. of_bool (P x \<and> Q)) = (\<Sum>x\<leftarrow>xs. of_bool (P x)) * (of_bool Q :: int)"
  by (cases Q) simp_all

lemma row_covered:
  assumes "0 < cols" "0 \<le> rc_w area"
  shows "times_covered (map (cell area rows i cols) [0..<cols]) p =
    of_bool (rc_x area \<le> fst p \<and> fst p < rc_x area + rc_w area) *
    of_bool (rc_y area + rc_h area * (of_nat i / of_nat rows) \<le> snd p \<and> snd p < rc_y area + rc_h area * (of_nat (i + 1) / of_nat rows))"
  unfolding times_covered_def
  by (simp only: map_map comp_def cell_covers sum_of_bool_conj even_cuts [OF assms])

lemma sum_enumerate_fst: "(\<Sum>(i, c)\<leftarrow>List.enumerate k cs. f i) = (\<Sum>i\<leftarrow>[k..<k + length cs]. f i)"
  by (induction cs arbitrary: k) (simp_all add: upt_conv_Cons del: upt_Suc)

lemma grid_cuts:
  assumes "0 < n" "0 \<le> rc_w area" "0 \<le> rc_h area"
  shows "cuts (grid_in ln area n ia ta) area"
  unfolding cuts_def
proof
  fix p :: "rat \<times> rat"
  define rows where "rows = rows_for ln n (rc_w area * ia / rc_h area) ta"
  have rows: "0 < rows" "rows \<le> n" using rows_for_bounds [OF assms(1)] by (auto simp: rows_def Suc_le_eq)
  define counts where "counts = row_counts n rows"
  define X where "X = (of_bool (rc_x area \<le> fst p \<and> fst p < rc_x area + rc_w area) :: int)"
  let ?row = "\<lambda>i. rc_y area + rc_h area * (of_nat i / of_nat rows) \<le> snd p \<and> snd p < rc_y area + rc_h area * (of_nat (i + 1) / of_nat rows)"
  have "times_covered (grid_in ln area n ia ta) p =
      (\<Sum>(i, cols)\<leftarrow>List.enumerate 0 counts. times_covered (map (cell area rows i cols) [0..<cols]) p)"
    unfolding grid_in_def Let_def times_covered_concat by (simp add: comp_def case_prod_unfold rows_def counts_def)
  also have "\<dots> = (\<Sum>(i, cols)\<leftarrow>List.enumerate 0 counts. X * of_bool (?row i))"
  proof (intro arg_cong [where f = sum_list] map_cong refl)
    fix ic assume mem: "ic \<in> set (List.enumerate 0 counts)"
    obtain i cols where ic: "ic = (i, cols)" by (cases ic)
    have "cols \<in> set counts" using mem by (auto simp: ic in_set_enumerate_eq)
    then have "0 < cols" using row_counts_pos rows by (auto simp: counts_def)
    then show "(case ic of (i, cols) \<Rightarrow> times_covered (map (cell area rows i cols) [0..<cols]) p) =
        (case ic of (i, cols) \<Rightarrow> X * of_bool (?row i))"
      using row_covered [OF _ assms(2)] by (simp add: ic X_def)
  qed
  also have "\<dots> = (\<Sum>i\<leftarrow>[0..<rows]. X * of_bool (?row i))"
    using sum_enumerate_fst [of "\<lambda>i. X * of_bool (?row i)" 0 counts] by (simp add: counts_def del: of_nat_Suc)
  also have "\<dots> = X * of_bool (rc_y area \<le> snd p \<and> snd p < rc_y area + rc_h area)"
    by (simp only: sum_list_const_mult even_cuts [OF rows(1) assms(3)])
  finally show "times_covered (grid_in ln area n ia ta) p = of_bool (covers_pt area p)"
    by (simp add: X_def covers_pt_def)
qed

lemma grid_length: "length (grid_in ln area n ia ta) = n"
proof (cases "n = 0")
  case False
  define rows where "rows = rows_for ln n (rc_w area * ia / rc_h area) ta"
  have rows: "0 < rows" using rows_for_bounds [of n] False by (auto simp: rows_def Suc_le_eq)
  have "length (grid_in ln area n ia ta) = sum_list (map snd (List.enumerate 0 (row_counts n rows)))"
    by (simp add: grid_in_def length_concat comp_def case_prod_unfold flip: rows_def)
  then show ?thesis using row_counts_sum [OF rows] by simp
qed (simp add: grid_in_def rows_for_def row_counts_def)

section \<open>Bands and the wall\<close>

text \<open>The tiles of the bands cut what is left of the side below the bands before them.\<close>

definition below :: "rect \<Rightarrow> nat \<Rightarrow> nat \<Rightarrow> rect" where
  "below side tiles before = side\<lparr>rc_y := rc_y side + rc_h side * (of_nat before / of_nat tiles),
     rc_h := rc_h side * (1 - of_nat before / of_nat tiles)\<rparr>"

lemma bands_from_cut:
  assumes "0 \<le> rc_w side" "0 \<le> rc_h side" "before + sum_list cs = tiles" "0 < tiles"
  shows "cuts (concat (map snd (bands_from ln side tiles ia ta before cs))) (below side tiles before) \<and>
    length (concat (map snd (bands_from ln side tiles ia ta before cs))) = sum_list cs"
  using assms
proof (induction cs arbitrary: before)
  case Nil
  then show ?case by (simp add: cuts_def below_def covers_pt_def)
next
  case (Cons c cs)
  define y0 y1 where "y0 = rat_of_nat before / of_nat tiles" and "y1 = rat_of_nat (before + c) / of_nat tiles"
  have y: "y0 \<le> y1" "y1 \<le> 1" using Cons.prems by (auto simp: y0_def y1_def divide_right_mono divide_le_eq simp flip: of_nat_add)
  define band where "band = \<lparr>rc_x = rc_x side, rc_y = rc_y side + rc_h side * y0, rc_w = rc_w side, rc_h = rc_h side * (y1 - y0)\<rparr>"
  have ih: "cuts (concat (map snd (bands_from ln side tiles ia ta (before + c) cs))) (below side tiles (before + c))"
    "length (concat (map snd (bands_from ln side tiles ia ta (before + c) cs))) = sum_list cs"
    using Cons by simp_all
  have band: "times_covered (grid_in ln band c ia ta) p = of_bool (covers_pt band p)" for p
  proof (cases "c = 0")
    case True
    then have "grid_in ln band c ia ta = []" using grid_length by (metis length_0_conv)
    moreover have "rc_h band = 0" using True by (simp add: band_def y0_def y1_def)
    ultimately show ?thesis by (auto simp: covers_pt_def)
  next
    case False
    then have "cuts (grid_in ln band c ia ta) band" using Cons.prems y by (intro grid_cuts) (simp_all add: band_def)
    then show ?thesis by (rule cutsD)
  qed
  have h: "rc_h side * y0 \<le> rc_h side * y1" "rc_h side * y1 \<le> rc_h side"
    using y Cons.prems(2) by (simp_all add: mult_left_mono mult_left_le)
  have "of_bool (covers_pt band p) + of_bool (covers_pt (below side tiles (before + c)) p) =
      (of_bool (covers_pt (below side tiles before) p) :: int)" for p
    using h unfolding below_def covers_pt_def band_def y0_def [symmetric] y1_def [symmetric]
    by (auto simp: right_diff_distrib)
  then have "cuts (grid_in ln band c ia ta @ concat (map snd (bands_from ln side tiles ia ta (before + c) cs))) (below side tiles before)"
    unfolding cuts_def times_covered_simps cutsD [OF ih(1)] band by simp
  moreover have "concat (map snd (bands_from ln side tiles ia ta before (c # cs))) =
      grid_in ln band c ia ta @ concat (map snd (bands_from ln side tiles ia ta (before + c) cs))"
    by (simp add: Let_def band_def y0_def y1_def)
  ultimately show ?case using ih(2) by (simp add: grid_length)
qed

lemma bands_cut:
  assumes "0 \<le> rc_w side" "0 \<le> rc_h side" "0 < sum_list counts"
  shows "cuts (concat (map snd (bands ln side counts ia ta))) side"
    and "length (concat (map snd (bands ln side counts ia ta))) = sum_list counts"
  using bands_from_cut [OF assms(1,2), of 0 counts "sum_list counts" ln ia ta] assms(3)
  by (simp_all add: bands_def below_def)

lemma sides_cut:
  assumes "0 < fcvm + ec2" "sides fcvm ec2 = (l, r)"
  shows "0 \<le> rc_w l" "0 \<le> rc_w r" "rc_h l = 1" "rc_h r = 1" "fcvm = 0 \<Longrightarrow> rc_w l = 0" "ec2 = 0 \<Longrightarrow> rc_w r = 0"
    "(of_bool (covers_pt l p) :: int) + of_bool (covers_pt r p) = of_bool (covers_pt \<lparr>rc_x = 0, rc_y = 0, rc_w = 1, rc_h = 1\<rparr> p)"
proof -
  define w where "w = rat_of_nat fcvm / of_nat (fcvm + ec2)"
  have w: "0 \<le> w" "w \<le> 1" "fcvm = 0 \<Longrightarrow> w = 0" "ec2 = 0 \<Longrightarrow> w = 1"
    using assms(1) by (simp_all add: w_def divide_le_eq)
  have "l = \<lparr>rc_x = 0, rc_y = 0, rc_w = w, rc_h = 1\<rparr>" "r = \<lparr>rc_x = w, rc_y = 0, rc_w = 1 - w, rc_h = 1\<rparr>"
    using assms by (auto simp: sides_def Let_def w_def)
  then show "0 \<le> rc_w l" "0 \<le> rc_w r" "rc_h l = 1" "rc_h r = 1" "fcvm = 0 \<Longrightarrow> rc_w l = 0" "ec2 = 0 \<Longrightarrow> rc_w r = 0"
    "(of_bool (covers_pt l p) :: int) + of_bool (covers_pt r p) = of_bool (covers_pt \<lparr>rc_x = 0, rc_y = 0, rc_w = 1, rc_h = 1\<rparr> p)"
    using w by (auto simp: covers_pt_def)
qed

text \<open>
  Claim C30. The wall is cut exactly: for any number of tiles on each host and on the other side, with or without places
  that have no GPU, the layout has one rectangle for every place, and every point of the image lies in exactly one of
  them: no gap, no overlap, and nothing outside the image.
\<close>

theorem wall_cut_exactly:
  assumes "sum_list groups \<le> fcvm_places" "0 < fcvm_places + ec2_n"
    and "wall_layout ln groups fcvm_places ec2_n image_aspect tile_aspect = (host_bands, ec2_rects)"
  shows "length (concat (map snd host_bands) @ ec2_rects) = fcvm_places + ec2_n \<and>
    cuts (concat (map snd host_bands) @ ec2_rects) \<lparr>rc_x = 0, rc_y = 0, rc_w = 1, rc_h = 1\<rparr>"
proof -
  obtain l r where lr: "sides fcvm_places ec2_n = (l, r)" by (cases "sides fcvm_places ec2_n")
  note s = sides_cut [OF assms(2) lr]
  define counts where "counts = (if 0 < fcvm_places - sum_list groups then groups @ [fcvm_places - sum_list groups] else groups)"
  have c: "sum_list counts = fcvm_places" using assms(1) by (simp add: counts_def)
  have hb: "host_bands = (if fcvm_places = 0 then [] else bands ln l counts image_aspect tile_aspect)"
    and er: "ec2_rects = grid_in ln r ec2_n image_aspect tile_aspect"
    using assms(3) lr by (simp_all add: wall_layout_def Let_def counts_def split: if_splits)
  have left: "times_covered (concat (map snd host_bands)) p = of_bool (covers_pt l p)" for p
  proof (cases "fcvm_places = 0")
    case True
    then show ?thesis using s(5) by (auto simp: hb covers_pt_def)
  next
    case False
    then show ?thesis using cutsD [OF bands_cut(1) [of l counts]] s c by (simp add: hb)
  qed
  have right: "times_covered ec2_rects p = of_bool (covers_pt r p)" for p
  proof (cases "ec2_n = 0")
    case True
    then have "ec2_rects = []" unfolding er using grid_length by (metis length_0_conv)
    then show ?thesis using s(6) True by (auto simp: covers_pt_def)
  next
    case False
    then show ?thesis using cutsD [OF grid_cuts [of ec2_n r]] s by (simp add: er)
  qed
  have "length (concat (map snd host_bands)) = fcvm_places"
    using bands_cut(2) [of l counts ln image_aspect tile_aspect] s c by (cases "fcvm_places = 0") (auto simp: hb)
  then show ?thesis using grid_length [of ln r ec2_n]
    unfolding cuts_def times_covered_simps left right s(7) by (simp add: er)
qed

theorem wall_cut_exactly_witness:
  "cuts (concat (map snd (fst (wall_layout (\<lambda>x. x - 1) [2, 1] 4 2 (32 / 9) (16 / 9)))) @
         snd (wall_layout (\<lambda>x. x - 1) [2, 1] 4 2 (32 / 9) (16 / 9))) \<lparr>rc_x = 0, rc_y = 0, rc_w = 1, rc_h = 1\<rparr>"
  using wall_cut_exactly [of "[2, 1]" 4 2 "\<lambda>x. x - 1" "32 / 9" "16 / 9"] by simp

end
