(* ===== verification/Fleet_History.thy ===== *)
theory Fleet_History
  imports Fcvm_Prelude "HOL-Library.Multiset"
begin

unbundle bit_operations_syntax

text \<open>
  The words the wall writes by itself: \<open>fleet/core/src/history.rs\<close>.  The line shown is a function of the
  seed and of how many words were placed before; the lines of the data file are a parameter.  The generator
  works on 64-bit words with wrap-around; an index outside a vector and the assertion are the value \<open>None\<close>.
\<close>

datatype text_style = Lockup | Skywriting | Landmark

definition STYLES :: "text_style list" where "STYLES = [Lockup, Skywriting, Landmark]"

definition history_hold_ms :: "text_style \<Rightarrow> nat" where
  "history_hold_ms style = (case style of Skywriting \<Rightarrow> 45000 | _ \<Rightarrow> 90000)"

definition splitmix :: "u64 \<Rightarrow> u64 \<times> u64" where
  "splitmix state =
     (let state = state + 0x9E3779B97F4A7C15;
          z = state;
          z = (z XOR drop_bit 30 z) * 0xBF58476D1CE4E5B9;
          z = (z XOR drop_bit 27 z) * 0x94D049BB133111EB
      in (state, z XOR drop_bit 31 z))"

text \<open>The slice method \<open>swap\<close>.\<close>

definition swap :: "nat \<Rightarrow> nat \<Rightarrow> 'a list \<Rightarrow> 'a list option" where
  "swap i j xs = (if i < length xs \<and> j < length xs then Some (xs[i := xs ! j, j := xs ! i]) else None)"

text \<open>The shuffle, from the last place down: place \<open>k\<close> next, then those below it.\<close>

fun shuffle :: "nat \<Rightarrow> u64 \<Rightarrow> nat list \<Rightarrow> nat list option" where
  "shuffle 0 rng order = Some order"
| "shuffle (Suc k) rng order =
     (let (rng, z) = splitmix rng; j = unat z mod (Suc k + 1)
      in case swap (Suc k) j order of None \<Rightarrow> None | Some order \<Rightarrow> shuffle k rng order)"

definition raw_order :: "u64 \<Rightarrow> nat \<Rightarrow> nat \<Rightarrow> nat list option" where
  "raw_order seed pass n = shuffle (n - 1) (seed XOR (word_of_nat pass * 0xD1B54A32D192ED03)) [0..<n]"

definition index :: "u64 \<Rightarrow> nat \<Rightarrow> nat \<Rightarrow> nat option" where
  "index seed placed n =
     (if n = 0 then None
      else let pass = placed div n; at = placed mod n
           in case raw_order seed pass n of
                None \<Rightarrow> None
              | Some order \<Rightarrow>
                  (case (if 0 < pass \<and> 2 < n
                         then case raw_order seed (pass - 1) n of
                                None \<Rightarrow> None
                              | Some before \<Rightarrow> if order ! 0 = before ! (n - 1) then swap 0 1 order else Some order
                         else Some order) of
                     None \<Rightarrow> None
                   | Some order \<Rightarrow> if at < length order then Some (order ! at) else None))"

definition pick :: "'l list \<Rightarrow> u64 \<Rightarrow> nat \<Rightarrow> ('l \<times> text_style) option" where
  "pick lines seed placed = (case index seed placed (length lines) of
     None \<Rightarrow> None
   | Some i \<Rightarrow> if i < length lines then Some (lines ! i, STYLES ! (placed mod length STYLES)) else None)"

section \<open>A pass is a permutation\<close>

lemma swap_mset: "swap i j xs = Some ys \<Longrightarrow> mset ys = mset xs"
  by (auto simp: swap_def mset_swap split: if_splits)

lemma swap_Some: "i < length xs \<Longrightarrow> j < length xs \<Longrightarrow> swap i j xs = Some (xs[i := xs ! j, j := xs ! i])"
  by (simp add: swap_def)

lemma shuffle_permutes: "k < length xs \<Longrightarrow> \<exists>ys. shuffle k rng xs = Some ys \<and> mset ys = mset xs"
proof (induction k arbitrary: rng xs)
  case (Suc k)
  obtain rng' z where z: "splitmix rng = (rng', z)" by (cases "splitmix rng")
  define j where "j = unat z mod Suc (Suc k)"
  have "j < Suc (Suc k)" by (simp add: j_def)
  then have s: "swap (Suc k) j xs = Some (xs[Suc k := xs ! j, j := xs ! Suc k])"
    using Suc.prems by (intro swap_Some) simp_all
  then have "mset (xs[Suc k := xs ! j, j := xs ! Suc k]) = mset xs" by (rule swap_mset)
  moreover have "k < length (xs[Suc k := xs ! j, j := xs ! Suc k])" using Suc.prems by simp
  ultimately obtain ys where "shuffle k rng' (xs[Suc k := xs ! j, j := xs ! Suc k]) = Some ys" "mset ys = mset xs"
    using Suc.IH [of "xs[Suc k := xs ! j, j := xs ! Suc k]" rng'] by auto
  moreover have "shuffle (Suc k) rng xs = shuffle k rng' (xs[Suc k := xs ! j, j := xs ! Suc k])"
    using s by (simp add: z Let_def flip: j_def)
  ultimately show ?case by simp
qed simp

lemma raw_order_permutes:
  assumes "0 < n"
  obtains ys where "raw_order seed pass n = Some ys" "mset ys = mset [0..<n]" "length ys = n" "distinct ys"
proof -
  obtain ys where ys: "raw_order seed pass n = Some ys" "mset ys = mset [0..<n]"
    using shuffle_permutes [of "n - 1" "[0..<n]"] assms by (auto simp: raw_order_def)
  then show ?thesis using that mset_eq_length [OF ys(2)] mset_eq_imp_distinct_iff [OF ys(2)] by simp
qed

text \<open>The order of a pass as it is shown.\<close>

definition shown :: "u64 \<Rightarrow> nat \<Rightarrow> nat \<Rightarrow> nat list" where
  "shown seed pass n =
     (let order = the (raw_order seed pass n)
      in if 0 < pass \<and> 2 < n \<and> order ! 0 = the (raw_order seed (pass - 1) n) ! (n - 1)
         then order[0 := order ! 1, 1 := order ! 0] else order)"

lemma shown_permutes:
  assumes "0 < n"
  shows "mset (shown seed pass n) = mset [0..<n]" "length (shown seed pass n) = n" "distinct (shown seed pass n)"
proof -
  obtain ys where ys: "raw_order seed pass n = Some ys" "mset ys = mset [0..<n]" "length ys = n" "distinct ys"
    by (rule raw_order_permutes [OF assms])
  have "mset (ys[0 := ys ! 1, 1 := ys ! 0]) = mset ys" if "2 < n" using that ys(3) by (simp add: mset_swap)
  moreover define again where "again \<longleftrightarrow> 0 < pass \<and> 2 < n \<and> ys ! 0 = the (raw_order seed (pass - 1) n) ! (n - 1)"
  moreover have "shown seed pass n = (if again then ys[0 := ys ! 1, 1 := ys ! 0] else ys)"
    unfolding shown_def Let_def ys(1) option.sel again_def ..
  ultimately show m: "mset (shown seed pass n) = mset [0..<n]" using ys(2) by (cases again) simp_all
  show "length (shown seed pass n) = n" "distinct (shown seed pass n)"
    using mset_eq_length [OF m] mset_eq_imp_distinct_iff [OF m] by simp_all
qed

lemma index_shown:
  assumes "0 < n"
  shows "index seed placed n = Some (shown seed (placed div n) n ! (placed mod n))"
proof -
  obtain ys where ys: "raw_order seed (placed div n) n = Some ys" "length ys = n" by (rule raw_order_permutes [OF assms])
  obtain zs where zs: "raw_order seed (placed div n - 1) n = Some zs" by (rule raw_order_permutes [OF assms])
  have "placed mod n < n" using assms by simp
  then show ?thesis using ys zs assms by (auto simp: index_def shown_def Let_def swap_def)
qed

lemma shown_first:
  assumes "2 < n"
  shows "shown seed (pass + 1) n ! 0 \<noteq> shown seed pass n ! (n - 1)"
proof -
  obtain ys where ys: "raw_order seed (pass + 1) n = Some ys" "length ys = n" "distinct ys"
    using assms by (rule_tac raw_order_permutes [of n]) auto
  obtain zs where zs: "raw_order seed pass n = Some zs" "length zs = n"
    using assms by (rule_tac raw_order_permutes [of n]) auto
  have "shown seed pass n ! (n - 1) = zs ! (n - 1)" using zs assms by (simp add: shown_def Let_def)
  moreover have "ys ! 1 \<noteq> ys ! 0" using ys assms by (simp add: nth_eq_iff_index_eq)
  ultimately show ?thesis using ys zs assms by (auto simp: shown_def Let_def)
qed

text \<open>
  Claim C33. Every line of the wall's history gets its turn: whatever the seed, each pass shows every line once, and with
  more than two lines no line is ever shown twice in a row, also from one pass to the next; the index is always that of a
  line.
\<close>

theorem history_fair:
  assumes "0 < n"
  shows "mset (map (\<lambda>k. index seed (pass * n + k) n) [0..<n]) = mset (map Some [0..<n]) \<and>
    (2 < n \<longrightarrow> index seed (placed + 1) n \<noteq> index seed placed n)"
proof (intro conjI impI)
  have "map (\<lambda>k. index seed (pass * n + k) n) [0..<n] = map Some (shown seed pass n)"
    using assms by (intro nth_equalityI) (simp_all add: index_shown shown_permutes)
  then show "mset (map (\<lambda>k. index seed (pass * n + k) n) [0..<n]) = mset (map Some [0..<n])"
    using shown_permutes(1) [OF assms] by simp
  assume n: "2 < n"
  show "index seed (placed + 1) n \<noteq> index seed placed n"
  proof (cases "placed mod n = n - 1")
    case True
    then have "(placed + 1) mod n = 0" "(placed + 1) div n = placed div n + 1" using n by (simp_all add: mod_Suc div_Suc)
    then show ?thesis using shown_first [OF n] True n by (simp add: index_shown)
  next
    case False
    have "placed mod n < n" using assms by simp
    then have lt: "placed mod n + 1 < n" using False by linarith
    then have "(placed + 1) mod n = placed mod n + 1" "(placed + 1) div n = placed div n"
      by (auto simp: mod_Suc div_Suc)
    moreover note lt
    ultimately show ?thesis using shown_permutes(2,3) [OF assms, of seed "placed div n"]
      by (simp add: index_shown nth_eq_iff_index_eq assms)
  qed
qed

theorem history_fair_witness:
  "index 7 3 3 \<noteq> index 7 2 3 \<and> mset (map (\<lambda>k. index 7 (4 * 3 + k) 3) [0..<3]) = mset (map Some [0..<3])"
  using history_fair [of 3 7 4 2] by simp

end
