(* ===== verification/Fleet_Budget.thy ===== *)
theory Fleet_Budget
  imports Decimal "HOL-Library.Countable" "HOL-Library.RBT" "HOL-Library.List_Lexorder"
begin

text \<open>
  The render budget all tiles of the wall share: \<open>fleet/core/src/budget.rs\<close>.  A reading a renderer sends is
  an exact rational number, or is not finite; the rungs \<open>2f64.powf\<close> gives are a parameter \<open>pow2\<close>.  Tiles and
  renderer processes are named by strings; the map of grants is a red-black tree.
\<close>

section \<open>The ladder\<close>

datatype reading = Finite rat | Not_finite

definition LEAD_SECS :: rat where "LEAD_SECS = 1"

definition rung_at :: "(rat \<Rightarrow> rat) \<Rightarrow> int \<Rightarrow> rat" where
  "rung_at pow2 n = 250000 * pow2 (of_int n / 4)"

definition f64_round :: "rat \<Rightarrow> nat" where
  "f64_round x = nat \<lfloor>x + 1 / 2\<rfloor>"

definition ladder_floor :: "(rat \<Rightarrow> rat) \<Rightarrow> rat \<Rightarrow> nat" where
  "ladder_floor pow2 fit =
     f64_round (fold (\<lambda>n best. let r = rung_at pow2 n in if r \<le> fit * (1 + 1 / 10 ^ 9) then r else best) [-8..40]
       (250000 * pow2 (- 8 / 4)))"

section \<open>State\<close>

record tile_grant =
  tg_on :: bool
  tg_t :: rat
  tg_up_rounds :: nat
  tg_owner :: bytes

definition tile_grant_default :: tile_grant where
  "tile_grant_default = \<lparr>tg_on = False, tg_t = 0, tg_up_rounds = 0, tg_owner = []\<rparr>"

record budget =
  bu_current :: "nat option"
  bu_from_t :: "rat option"
  bu_smoothed :: "rat option"
  bu_up_rounds :: nat
  bu_next_round_at :: nat
  bu_every_pixel :: "(bytes, tile_grant) rbt"

definition budget_default :: budget where
  "budget_default = \<lparr>bu_current = None, bu_from_t = None, bu_smoothed = None, bu_up_rounds = 0, bu_next_round_at = 0,
     bu_every_pixel = RBT.empty\<rparr>"

record tile_fit =
  tf_id :: bytes
  tf_owner :: bytes
  tf_fit :: "reading option"
  tf_every_pixel_budget :: "rat option"
  tf_overloaded :: bool

definition start_frame :: "rat \<Rightarrow> rat" where
  "start_frame newest_t = of_int \<lceil>(newest_t + LEAD_SECS) * 30\<rceil> / 30"

text \<open>What renderers are posted: the budget, its start, and every tile's grant.\<close>

definition budget_body :: "budget \<Rightarrow> (nat \<times> rat \<times> (bytes \<times> bool \<times> rat \<times> bytes) list) option" where
  "budget_body b = (case (bu_current b, bu_from_t b) of
     (Some cur, Some t) \<Rightarrow> Some (cur, t, map (\<lambda>(i, g). (i, tg_on g, tg_t g, tg_owner g)) (RBT.entries (bu_every_pixel b)))
   | _ \<Rightarrow> None)"

section \<open>Grants\<close>

definition affords :: "tile_fit \<Rightarrow> bool option" where
  "affords t = (case (tf_fit t, tf_every_pixel_budget t) of
     (Some (Finite f), Some e) \<Rightarrow> Some (e \<le> f)
   | (Some Not_finite, Some e) \<Rightarrow> Some False
   | _ \<Rightarrow> None)"

text \<open>One tile's grant after a round, and whether it changed.\<close>

definition stride :: "nat \<Rightarrow> rat \<Rightarrow> tile_fit \<Rightarrow> tile_grant \<Rightarrow> tile_grant \<times> bool" where
  "stride cur start t g =
     (let same = tg_owner g = tf_owner t;
          g = (if same then g else g\<lparr>tg_owner := tf_owner t, tg_up_rounds := 0\<rparr>)
      in if tg_on g then
           if \<not> same \<or> tf_overloaded t \<or> affords t \<noteq> Some True
           then (g\<lparr>tg_on := False, tg_t := start, tg_up_rounds := 0\<rparr>, True)
           else (g, False)
         else
           let needed = (case tf_every_pixel_budget t of Some e \<Rightarrow> of_nat cur < e | None \<Rightarrow> False)
           in if needed \<and> affords t = Some True \<and> \<not> tf_overloaded t \<and> tf_owner t \<noteq> [] then
                let g = g\<lparr>tg_up_rounds := tg_up_rounds g + 1\<rparr>
                in if 3 \<le> tg_up_rounds g then (g\<lparr>tg_on := True, tg_t := start, tg_up_rounds := 0\<rparr>, True) else (g, False)
              else (g\<lparr>tg_up_rounds := 0\<rparr>, False))"

fun strides_loop :: "nat \<Rightarrow> rat \<Rightarrow> tile_fit list \<Rightarrow> (bytes, tile_grant) rbt \<Rightarrow> (bytes, tile_grant) rbt \<times> bool" where
  "strides_loop cur start [] m = (m, False)"
| "strides_loop cur start (t # ts) m =
     (let g = (case RBT.lookup m (tf_id t) of Some g \<Rightarrow> g | None \<Rightarrow> tile_grant_default);
          (g, c) = stride cur start t g;
          (m, c') = strides_loop cur start ts (RBT.insert (tf_id t) g m)
      in (m, c \<or> c'))"

text \<open>The map method \<open>retain\<close>, on keys.\<close>

definition retain_keys :: "('k :: linorder \<Rightarrow> bool) \<Rightarrow> ('k, 'v) rbt \<Rightarrow> ('k, 'v) rbt" where
  "retain_keys P m = fold (\<lambda>k m. if P k then m else RBT.delete k m) (RBT.keys m) m"

definition strides :: "tile_fit list \<Rightarrow> rat \<Rightarrow> budget \<Rightarrow> bool \<times> budget" where
  "strides tiles newest_t b = (case bu_current b of
     None \<Rightarrow> (False, b)
   | Some cur \<Rightarrow>
       let m = retain_keys (\<lambda>i. list_ex (\<lambda>t. tf_id t = i) tiles) (bu_every_pixel b);
           (m, changed) = strides_loop cur (start_frame newest_t) tiles m
       in (changed, b\<lparr>bu_every_pixel := m\<rparr>))"

section \<open>The round\<close>

definition set_budget :: "bool \<Rightarrow> nat \<Rightarrow> rat \<Rightarrow> budget \<Rightarrow> bool \<times> budget" where
  "set_budget change v newest_t b =
     (change, if change then b\<lparr>bu_current := Some v, bu_from_t := Some (start_frame newest_t)\<rparr> else b)"

definition known_fits :: "reading option list \<Rightarrow> rat list" where
  "known_fits fits = List.map_filter (\<lambda>r. case r of Some (Finite v) \<Rightarrow> if 0 < v then Some v else None | _ \<Rightarrow> None) fits"

definition least :: "rat list \<Rightarrow> rat option" where
  "least xs = (case xs of [] \<Rightarrow> None | x # xs \<Rightarrow> Some (fold min xs x))"

text \<open>A round in which a tile has no fit only steps down.\<close>

definition round_partly :: "(rat \<Rightarrow> rat) \<Rightarrow> rat list \<Rightarrow> bool \<Rightarrow> rat \<Rightarrow> nat \<Rightarrow> budget \<Rightarrow> bool \<times> budget" where
  "round_partly pow2 known overloaded newest_t cur b =
     (let v = cur;
          v = (case least known of
                 Some m \<Rightarrow> if m < 95 / 100 * of_nat cur then min v (ladder_floor pow2 m) else v
               | None \<Rightarrow> v);
          v = (if overloaded then min v (ladder_floor pow2 (of_nat cur * (999 / 1000))) else v);
          b = (if v < cur then b\<lparr>bu_up_rounds := 0\<rparr> else b)
      in set_budget (v < cur) v newest_t b)"

definition round_next :: "(rat \<Rightarrow> rat) \<Rightarrow> rat \<Rightarrow> rat \<Rightarrow> bool \<Rightarrow> budget \<Rightarrow> nat option \<times> budget" where
  "round_next pow2 f m overloaded b = (case bu_current b of
     None \<Rightarrow> (Some (ladder_floor pow2 (f / (115 / 100))), b)
   | Some cur \<Rightarrow>
       if overloaded \<or> f < 95 / 100 * of_nat cur then
         let v = ladder_floor pow2 (min f m);
             v = (if overloaded then min v (ladder_floor pow2 (of_nat cur * (999 / 1000))) else v)
         in (if v < cur then Some v else None, b\<lparr>bu_up_rounds := 0\<rparr>)
       else
         let up = ladder_floor pow2 (f / (115 / 100))
         in if cur < up then
              if 3 \<le> bu_up_rounds b + 1 then (Some up, b\<lparr>bu_up_rounds := 0\<rparr>)
              else (None, b\<lparr>bu_up_rounds := bu_up_rounds b + 1\<rparr>)
            else (None, b\<lparr>bu_up_rounds := 0\<rparr>))"

definition smooth :: "rat \<Rightarrow> budget \<Rightarrow> rat" where
  "smooth m b = (case bu_smoothed b of None \<Rightarrow> m | Some f \<Rightarrow> f + (m - f) * (1 / 2))"

definition budget_round :: "(rat \<Rightarrow> rat) \<Rightarrow> reading option list \<Rightarrow> bool \<Rightarrow> rat \<Rightarrow> budget \<Rightarrow> bool \<times> budget" where
  "budget_round pow2 fits overloaded newest_t b =
     (if fits = [] then (False, b)
      else let known = known_fits fits
           in if length known < length fits then
                (case bu_current b of
                   None \<Rightarrow> (False, b)
                 | Some cur \<Rightarrow> round_partly pow2 known overloaded newest_t cur b)
              else case least known of
                None \<Rightarrow> (False, b)
              | Some m \<Rightarrow>
                  let f = smooth m b; (v, b) = round_next pow2 f m overloaded (b\<lparr>bu_smoothed := Some f\<rparr>)
                  in (case v of Some v \<Rightarrow> set_budget True v newest_t b | None \<Rightarrow> (False, b)))"

section \<open>The round of the fleet\<close>

text \<open>What the coordinator knows of a tile on the wall, and the round it makes of it every two seconds.\<close>

record wall_tile =
  wt_id :: bytes
  wt_boot_id :: "bytes option"
  wt_fit :: "reading option"
  wt_every_pixel :: "rat option"
  wt_render_ms_max :: "rat option"
  wt_frame_t :: "rat option"

definition ROUND_MS :: nat where "ROUND_MS = 2000"
definition OVERLOAD_MS :: rat where "OVERLOAD_MS = 9 / 10 * 1000 / 30"

definition tile_over :: "wall_tile \<Rightarrow> bool" where
  "tile_over s = (case wt_render_ms_max s of Some v \<Rightarrow> OVERLOAD_MS < v | None \<Rightarrow> False)"

definition tile_fit_of :: "wall_tile \<Rightarrow> tile_fit" where
  "tile_fit_of s = \<lparr>tf_id = wt_id s, tf_owner = (case wt_boot_id s of Some o' \<Rightarrow> o' | None \<Rightarrow> []), tf_fit = wt_fit s,
     tf_every_pixel_budget = wt_every_pixel s, tf_overloaded = tile_over s\<rparr>"

definition fleet_round :: "(rat \<Rightarrow> rat) \<Rightarrow> nat \<Rightarrow> wall_tile list \<Rightarrow> budget \<Rightarrow> budget" where
  "fleet_round pow2 at tiles b =
     (if at < bu_next_round_at b then b
      else let b = b\<lparr>bu_next_round_at := at + ROUND_MS\<rparr>;
               newest = fold (\<lambda>s t. case wt_frame_t s of Some v \<Rightarrow> max t v | None \<Rightarrow> t) tiles 0;
               b = snd (budget_round pow2 (map wt_fit tiles) (list_ex tile_over tiles) newest b)
           in snd (strides (map tile_fit_of tiles) newest b))"

section \<open>The budget\<close>

definition rungs :: "(rat \<Rightarrow> rat) \<Rightarrow> nat set" where
  "rungs pow2 = (\<lambda>n. f64_round (rung_at pow2 n)) ` {-8..40}"

lemma ladder_loop:
  "b \<in> S \<Longrightarrow> \<forall>n \<in> set ns. rung_at pow2 n \<in> S \<Longrightarrow>
   fold (\<lambda>n best. let r = rung_at pow2 n in if r \<le> x then r else best) ns b \<in> S"
  by (induction ns arbitrary: b) (simp_all add: Let_def)

lemma ladder_floor_rung: "ladder_floor pow2 fit \<in> rungs pow2"
proof -
  have "250000 * pow2 (- 8 / 4) = rung_at pow2 (- 8)" by (simp add: rung_at_def)
  then have "fold (\<lambda>n best. let r = rung_at pow2 n in if r \<le> fit * (1 + 1 / 10 ^ 9) then r else best) [-8..40]
      (250000 * pow2 (- 8 / 4)) \<in> rung_at pow2 ` {-8..40}"
    by (intro ladder_loop) auto
  then show ?thesis unfolding ladder_floor_def rungs_def by auto
qed

lemma start_frame_bounds: "t + 1 \<le> start_frame t" "start_frame t < t + 1 + 1 / 30"
proof -
  have "(t + 1) * 30 \<le> of_int \<lceil>(t + 1) * 30\<rceil>" "of_int \<lceil>(t + 1) * 30\<rceil> < (t + 1) * 30 + 1"
    using ceiling_correct [of "(t + 1) * 30"] by linarith+
  then show "t + 1 \<le> start_frame t" "start_frame t < t + 1 + 1 / 30"
    by (simp_all add: start_frame_def LEAD_SECS_def)
qed

lemma least_Min: "least xs = (if xs = [] then None else Some (Min (set xs)))"
  by (cases xs) (simp_all add: least_def Min.set_eq_fold del: list.set)

lemma least_known: "least xs = Some m \<Longrightarrow> x \<in> set xs \<Longrightarrow> m \<le> x"
  by (auto simp: least_Min split: if_splits)

text \<open>Every tile has reported a fit the round can use.\<close>

definition all_known :: "reading option list \<Rightarrow> bool" where
  "all_known fits \<longleftrightarrow> fits \<noteq> [] \<and> (\<forall>r \<in> set fits. \<exists>v. r = Some (Finite v) \<and> 0 < v)"

lemma known_fits_length:
  "length (known_fits fits) \<le> length fits \<and> (length (known_fits fits) = length fits \<longrightarrow> (\<forall>r \<in> set fits. \<exists>v. r = Some (Finite v) \<and> 0 < v))"
proof (induction fits)
  case (Cons r fits)
  then show ?case
    by (cases r) (auto simp: known_fits_def List.map_filter_simps split: reading.split)
qed (simp add: known_fits_def List.map_filter_simps)

lemma set_budget_simps [simp]:
  "fst (set_budget change v newest_t b) = change"
  "bu_current (snd (set_budget change v newest_t b)) = (if change then Some v else bu_current b)"
  "bu_from_t (snd (set_budget change v newest_t b)) = (if change then Some (start_frame newest_t) else bu_from_t b)"
  "bu_smoothed (snd (set_budget change v newest_t b)) = bu_smoothed b"
  "bu_up_rounds (snd (set_budget change v newest_t b)) = bu_up_rounds b"
  "bu_every_pixel (snd (set_budget change v newest_t b)) = bu_every_pixel b"
  by (simp_all add: set_budget_def)

text \<open>A round in which some fit is not known never raises the budget.\<close>

lemma round_partly_current:
  assumes "round_partly pow2 known overloaded newest_t c b = (changed, b')" "bu_current b = Some c"
  obtains v where "v \<le> c" "v = c \<or> v \<in> rungs pow2" "overloaded \<longrightarrow> v \<le> ladder_floor pow2 (of_nat c * (999 / 1000))"
    "\<forall>m. least known = Some m \<and> m < 95 / 100 * of_nat c \<longrightarrow> v \<le> ladder_floor pow2 m"
    "bu_current b' = Some v" "changed \<longleftrightarrow> v < c" "bu_from_t b' = (if changed then Some (start_frame newest_t) else bu_from_t b)"
    "bu_every_pixel b' = bu_every_pixel b" "bu_up_rounds b' \<le> bu_up_rounds b"
proof -
  define w where "w = (case least known of Some m \<Rightarrow> if m < 95 / 100 * of_nat c then min c (ladder_floor pow2 m) else c | None \<Rightarrow> c)"
  define v where "v = (if overloaded then min w (ladder_floor pow2 (of_nat c * (999 / 1000))) else w)"
  have w: "w \<le> c" "w = c \<or> w \<in> rungs pow2" "\<forall>m. least known = Some m \<and> m < 95 / 100 * of_nat c \<longrightarrow> w \<le> ladder_floor pow2 m"
    using ladder_floor_rung [of pow2] by (auto simp: w_def min_def split: option.split)
  have r: "(changed, b') = set_budget (v < c) v newest_t (if v < c then b\<lparr>bu_up_rounds := 0\<rparr> else b)"
    using assms(1) unfolding round_partly_def Let_def w_def [symmetric] v_def [symmetric] by simp
  have e: "b' = snd (set_budget (v < c) v newest_t (if v < c then b\<lparr>bu_up_rounds := 0\<rparr> else b))" "changed = (v < c)"
    using arg_cong [OF r, of snd] arg_cong [OF r, of fst] by simp_all
  have v: "v \<le> c" "v = c \<or> v \<in> rungs pow2" using w ladder_floor_rung [of pow2] by (auto simp: v_def min_def)
  have "v \<le> w" by (simp add: v_def)
  then have least: "\<forall>m. least known = Some m \<and> m < 95 / 100 * of_nat c \<longrightarrow> v \<le> ladder_floor pow2 m"
    using w(3) order_trans by blast
  have over: "overloaded \<longrightarrow> v \<le> ladder_floor pow2 (of_nat c * (999 / 1000))" by (simp add: v_def)
  show ?thesis by (rule that [OF v over least]) (use e assms(2) v in simp_all)
qed

text \<open>A round with every fit known, from a budget in force.\<close>

lemma round_next_current:
  assumes "round_next pow2 f m overloaded b = (v, b1)" "bu_current b = Some c"
  shows "bu_current b1 = Some c" "bu_from_t b1 = bu_from_t b" "bu_every_pixel b1 = bu_every_pixel b" "bu_smoothed b1 = bu_smoothed b"
    "\<forall>w. v = Some w \<longrightarrow> w \<in> rungs pow2 \<and> w \<noteq> c \<and> (overloaded \<longrightarrow> w < c) \<and>
       (c < w \<longrightarrow> bu_up_rounds b = 2 \<or> 2 < bu_up_rounds b) \<and> (c < w \<longrightarrow> w = ladder_floor pow2 (f / (115 / 100)))"
    "overloaded \<longrightarrow> (case v of Some w \<Rightarrow> w | None \<Rightarrow> c) \<le> ladder_floor pow2 (of_nat c * (999 / 1000))"
    "f < 95 / 100 * of_nat c \<longrightarrow> (case v of Some w \<Rightarrow> w | None \<Rightarrow> c) \<le> ladder_floor pow2 (min f m)"
    "bu_up_rounds b \<le> 2 \<longrightarrow> bu_up_rounds b1 \<le> 2"
  using assms ladder_floor_rung [of pow2]
  by (auto simp: round_next_def Let_def min_def split: if_splits)

lemma budget_round_cases:
  assumes "budget_round pow2 fits overloaded newest_t b = (changed, b')"
  obtains (idle) "\<not> changed" "b' = b" "fits = [] \<or> bu_current b = None"
  | (partly) c where "bu_current b = Some c" "fits \<noteq> []" "round_partly pow2 (known_fits fits) overloaded newest_t c b = (changed, b')"
  | (first) f v where "bu_current b = None" "all_known fits" "v = ladder_floor pow2 (f / (115 / 100))" "changed"
      "b' = b\<lparr>bu_smoothed := Some f, bu_current := Some v, bu_from_t := Some (start_frame newest_t)\<rparr>"
  | (full) c f m v b1 where "bu_current b = Some c" "all_known fits"
      "round_next pow2 f m overloaded (b\<lparr>bu_smoothed := Some f\<rparr>) = (v, b1)"
      "changed \<longleftrightarrow> v \<noteq> None" "b' = (case v of Some w \<Rightarrow> snd (set_budget True w newest_t b1) | None \<Rightarrow> b1)"
proof (cases "fits = []")
  case False
  show ?thesis
  proof (cases "length (known_fits fits) < length fits")
    case True
    then show ?thesis using assms False by (cases "bu_current b") (auto simp: budget_round_def intro: idle partly)
  next
    case less: False
    then have known: "all_known fits" using known_fits_length [of fits] False by (auto simp: all_known_def)
    have "known_fits fits \<noteq> []" using less False by auto
    then obtain m where m: "least (known_fits fits) = Some m" by (auto simp: least_Min)
    define f where "f = smooth m b"
    obtain v b1 where vb: "round_next pow2 f m overloaded (b\<lparr>bu_smoothed := Some f\<rparr>) = (v, b1)" by fastforce
    have r: "(changed, b') = (case v of Some v \<Rightarrow> set_budget True v newest_t b1 | None \<Rightarrow> (False, b1))"
      using assms False less m vb by (simp add: budget_round_def Let_def flip: f_def)
    show ?thesis
    proof (cases "bu_current b")
      case None
      then have "v = Some (ladder_floor pow2 (f / (115 / 100)))" "b1 = b\<lparr>bu_smoothed := Some f\<rparr>"
        using vb by (simp_all add: round_next_def)
      then show ?thesis using first [OF None known refl, of f] r by (simp add: set_budget_def)
    next
      case (Some c)
      have "changed \<longleftrightarrow> v \<noteq> None" "b' = (case v of Some w \<Rightarrow> snd (set_budget True w newest_t b1) | None \<Rightarrow> b1)"
        using r by (auto simp: set_budget_def split: option.splits)
      then show ?thesis by (rule full [OF Some known vb])
    qed
  qed
next
  case True
  then have "\<not> changed" "b' = b" using assms by (simp_all add: budget_round_def)
  then show ?thesis using True by (intro idle) simp_all
qed

text \<open>A ladder whose rungs are all the same, for examples.\<close>

lemma one_rung: "ladder_floor (\<lambda>_. 1) x = 250000"
proof -
  have "\<lfloor>500001 / 2 :: rat\<rfloor> = 250000" by (simp add: floor_eq_iff)
  then show ?thesis using ladder_floor_rung [of "\<lambda>_. 1" x] by (auto simp: rungs_def rung_at_def f64_round_def)
qed

text \<open>
  Claim C32. A round of the budget controller does what the wall relies on: it reports a change exactly when the budget
  changed; a change starts for every tile at one time, between a second and a second and a frame past the newest frame
  drawn; an overloaded frame is answered at once with a budget no higher than the rung below the one in force; and the first
  budget and every raise need a usable fit of every tile, no overloaded frame, and, for a raise, a count of
  two earlier rounds that allowed it, and go to the rung under the smoothed fit with its margin.
\<close>

theorem budget_round_sound:
  assumes r: "budget_round pow2 fits overloaded newest_t b = (changed, b')"
  shows "(changed \<longleftrightarrow> bu_current b' \<noteq> bu_current b) \<and>
    (if changed then \<exists>t. bu_from_t b' = Some t \<and> newest_t + 1 \<le> t \<and> t < newest_t + 1 + 1 / 30 else bu_from_t b' = bu_from_t b) \<and>
    (\<forall>c. bu_current b = Some c \<longrightarrow> (\<exists>c'. bu_current b' = Some c' \<and>
       (overloaded \<and> fits \<noteq> [] \<longrightarrow> c' \<le> c \<and> c' \<le> ladder_floor pow2 (of_nat c * (999 / 1000))) \<and>
       (c < c' \<longrightarrow> all_known fits \<and> \<not> overloaded \<and> 2 \<le> bu_up_rounds b \<and>
          (\<exists>f. bu_smoothed b' = Some f \<and> c' = ladder_floor pow2 (f / (115 / 100)))))) \<and>
    (\<forall>v. bu_current b = None \<and> bu_current b' = Some v \<longrightarrow> all_known fits \<and>
       (\<exists>f. bu_smoothed b' = Some f \<and> v = ladder_floor pow2 (f / (115 / 100))))"
  using r
proof (cases rule: budget_round_cases)
  case (partly c)
  from partly(3,1) obtain v where v: "v \<le> c" "overloaded \<longrightarrow> v \<le> ladder_floor pow2 (of_nat c * (999 / 1000))" "bu_current b' = Some v"
    "changed \<longleftrightarrow> v < c" "bu_from_t b' = (if changed then Some (start_frame newest_t) else bu_from_t b)"
    by (rule round_partly_current)
  then show ?thesis using partly(1) start_frame_bounds [of newest_t] by auto
next
  case (first f v)
  then show ?thesis using start_frame_bounds [of newest_t] by auto
next
  case (full c f m v b1)
  have c: "bu_current (b\<lparr>bu_smoothed := Some f\<rparr>) = Some c" using full(1) by simp
  note n = round_next_current [OF full(3) c]
  show ?thesis
  proof (cases v)
    case None
    then show ?thesis using n full by simp
  next
    case (Some w)
    then have w: "w \<noteq> c" "overloaded \<longrightarrow> w < c" "c < w \<longrightarrow> 2 \<le> bu_up_rounds b" "c < w \<longrightarrow> w = ladder_floor pow2 (f / (115 / 100))"
      "overloaded \<longrightarrow> w \<le> ladder_floor pow2 (of_nat c * (999 / 1000))" using n(5,6) by auto
    have b': "bu_current b' = Some w" "bu_from_t b' = Some (start_frame newest_t)" "bu_smoothed b' = Some f" "changed"
      using full(4,5) Some n(4) by simp_all
    show ?thesis using w b' full(1,2) start_frame_bounds [of newest_t] by auto
  qed
qed auto

theorem budget_round_sound_witness:
  "\<exists>t. bu_from_t (snd (budget_round (\<lambda>_. 1) [Some (Finite 500000)] True 3 (budget_default\<lparr>bu_current := Some 300000\<rparr>))) = Some t \<and> 4 \<le> t"
proof -
  define b' where "b' = snd (budget_round (\<lambda>_. 1) [Some (Finite 500000)] True 3 (budget_default\<lparr>bu_current := Some 300000\<rparr>))"
  have r: "budget_round (\<lambda>_. 1) [Some (Finite 500000)] True 3 (budget_default\<lparr>bu_current := Some 300000\<rparr>) = (True, b')"
    by (simp add: b'_def budget_round_def known_fits_def List.map_filter_simps least_def round_next_def one_rung Let_def set_budget_def)
  show ?thesis using budget_round_sound [OF r] unfolding b'_def [symmetric] by auto
qed

section \<open>Grants\<close>

lemma retain_keys_lookup:
  fixes m :: "('k :: linorder, 'v) rbt"
  shows "RBT.lookup (retain_keys P m) k = (if P k then RBT.lookup m k else None)"
proof -
  have "RBT.lookup (fold (\<lambda>k m. if P k then m else RBT.delete k m) ks m) k =
      (if k \<in> set ks \<and> \<not> P k then None else RBT.lookup m k)" for ks and m :: "('k, 'v) rbt"
    by (induction ks arbitrary: m) auto
  moreover have "RBT.lookup m k = None" if "k \<notin> set (RBT.keys m)" using that RBT.lookup_keys [of m] by blast
  ultimately show ?thesis by (auto simp: retain_keys_def)
qed

text \<open>What a grant is good for: the tile's renderer is known, its fit allows every pixel, and no frame overran.\<close>

definition granted :: "tile_fit \<Rightarrow> tile_grant \<Rightarrow> bool" where
  "granted t g \<longleftrightarrow> tg_owner g = tf_owner t \<and> tf_owner t \<noteq> [] \<and> \<not> tf_overloaded t \<and>
     (\<exists>f e. tf_fit t = Some (Finite f) \<and> tf_every_pixel_budget t = Some e \<and> e \<le> f)"

definition grant_ok :: "tile_grant \<Rightarrow> bool" where
  "grant_ok g \<longleftrightarrow> (tg_on g \<longrightarrow> tg_owner g \<noteq> []) \<and> tg_up_rounds g \<le> 2"

lemma affords_True: "affords t = Some True \<longleftrightarrow>
    (\<exists>f e. tf_fit t = Some (Finite f) \<and> tf_every_pixel_budget t = Some e \<and> e \<le> f)"
  by (auto simp: affords_def split: option.splits reading.splits)

lemma stride_grants:
  assumes "grant_ok g" "stride cur start t g = (g', c)"
  shows "grant_ok g'" "tg_on g' \<Longrightarrow> granted t g'" "tg_owner g' = tf_owner t" "c \<longleftrightarrow> tg_on g' \<noteq> tg_on g"
  using assms
  by (auto simp: stride_def grant_ok_def granted_def affords_True Let_def split: if_splits)

lemma strides_loop_lookup:
  assumes "distinct (map tf_id ts)" "strides_loop cur start ts m = (m', c)"
  shows "RBT.lookup m' k = (case find (\<lambda>t. tf_id t = k) ts of
      None \<Rightarrow> RBT.lookup m k
    | Some t \<Rightarrow> Some (fst (stride cur start t (case RBT.lookup m k of Some g \<Rightarrow> g | None \<Rightarrow> tile_grant_default))))"
  using assms
proof (induction ts arbitrary: m m' c)
  case (Cons t ts)
  have nf: "find (\<lambda>u. tf_id u = tf_id t) ts = None" using Cons.prems(1) by (simp add: find_None_iff) (metis imageI)
  obtain g d where g: "stride cur start t (case RBT.lookup m (tf_id t) of Some g \<Rightarrow> g | None \<Rightarrow> tile_grant_default) = (g, d)" by fastforce
  obtain m1 c1 where m1: "strides_loop cur start ts (RBT.insert (tf_id t) g m) = (m1, c1)" by fastforce
  have "m' = m1" using Cons.prems(2) g m1 by simp
  then show ?case using Cons.IH [OF _ m1] Cons.prems(1) nf g by (auto split: option.split)
qed simp

section \<open>Every round of the fleet\<close>

text \<open>
  What every round keeps: the budget is a rung of the ladder, counts stay under three, there is no grant before there is
  a budget, and a grant names the renderer process it was given to.
\<close>

definition budget_inv :: "(rat \<Rightarrow> rat) \<Rightarrow> budget \<Rightarrow> bool" where
  "budget_inv pow2 b \<longleftrightarrow> (\<forall>c. bu_current b = Some c \<longrightarrow> c \<in> rungs pow2) \<and> bu_up_rounds b \<le> 2 \<and>
     (bu_current b = None \<longrightarrow> (\<forall>k. RBT.lookup (bu_every_pixel b) k = None)) \<and>
     (\<forall>k g. RBT.lookup (bu_every_pixel b) k = Some g \<longrightarrow> grant_ok g)"

lemma budget_round_frame:
  assumes "budget_round pow2 fits overloaded newest_t b = (changed, b')" "budget_inv pow2 b"
  shows "budget_inv pow2 b'" "bu_every_pixel b' = bu_every_pixel b" "bu_current b \<noteq> None \<Longrightarrow> bu_current b' \<noteq> None"
proof -
  have "budget_inv pow2 b' \<and> bu_every_pixel b' = bu_every_pixel b \<and> (bu_current b \<noteq> None \<longrightarrow> bu_current b' \<noteq> None)"
    using assms(1)
  proof (cases rule: budget_round_cases)
    case (partly c)
    from partly(3,1) obtain v where "v = c \<or> v \<in> rungs pow2" "bu_current b' = Some v" "bu_every_pixel b' = bu_every_pixel b"
      "bu_up_rounds b' \<le> bu_up_rounds b" by (rule round_partly_current)
    then show ?thesis using assms(2) partly(1) by (auto simp: budget_inv_def)
  next
    case (first f v)
    then show ?thesis using assms(2) ladder_floor_rung by (auto simp: budget_inv_def)
  next
    case (full c f m v b1)
    have c: "bu_current (b\<lparr>bu_smoothed := Some f\<rparr>) = Some c" using full(1) by simp
    note n = round_next_current [OF full(3) c]
    show ?thesis using full(1,5) n assms(2) by (cases v) (auto simp: budget_inv_def)
  qed (use assms(2) in simp_all)
  then show "budget_inv pow2 b'" "bu_every_pixel b' = bu_every_pixel b" "bu_current b \<noteq> None \<Longrightarrow> bu_current b' \<noteq> None" by simp_all
qed

lemma tile_grant_default_ok: "grant_ok tile_grant_default"
  by (simp add: grant_ok_def tile_grant_default_def)

lemma strides_grants:
  assumes "budget_inv pow2 b" "distinct (map tf_id tiles)" "strides tiles newest_t b = (changed, b')"
  shows "budget_inv pow2 b'"
    and "RBT.lookup (bu_every_pixel b') k = Some g \<Longrightarrow> tg_on g \<Longrightarrow> \<exists>t \<in> set tiles. tf_id t = k \<and> granted t g"
    and "RBT.lookup (bu_every_pixel b') k = Some g \<Longrightarrow> \<exists>t \<in> set tiles. tf_id t = k \<and> tg_owner g = tf_owner t"
proof -
  have "budget_inv pow2 b' \<and> (\<forall>k g. RBT.lookup (bu_every_pixel b') k = Some g \<longrightarrow>
      (\<exists>t \<in> set tiles. tf_id t = k \<and> tg_owner g = tf_owner t \<and> (tg_on g \<longrightarrow> granted t g)))"
  proof (cases "bu_current b")
    case None
    then show ?thesis using assms(1,3) by (auto simp: strides_def budget_inv_def)
  next
    case (Some cur)
    define m where "m = retain_keys (\<lambda>i. list_ex (\<lambda>t. tf_id t = i) tiles) (bu_every_pixel b)"
    obtain m' c where m': "strides_loop cur (start_frame newest_t) tiles m = (m', c)" by fastforce
    have b': "b' = b\<lparr>bu_every_pixel := m'\<rparr>" using assms(3) Some m' by (simp add: strides_def Let_def flip: m_def)
    have old: "grant_ok (case RBT.lookup m k of Some g \<Rightarrow> g | None \<Rightarrow> tile_grant_default)" for k
      using assms(1) tile_grant_default_ok by (auto simp: m_def retain_keys_lookup budget_inv_def split: option.split)
    have "grant_ok g \<and> (\<exists>t \<in> set tiles. tf_id t = k \<and> tg_owner g = tf_owner t \<and> (tg_on g \<longrightarrow> granted t g))"
      if g: "RBT.lookup m' k = Some g" for k g
    proof (cases "find (\<lambda>t. tf_id t = k) tiles")
      case None
      then have "RBT.lookup m k = None" by (auto simp: m_def retain_keys_lookup find_None_iff list_ex_iff)
      then show ?thesis using g strides_loop_lookup [OF assms(2) m', of k] None by simp
    next
      case (Some t)
      obtain g' d where st: "stride cur (start_frame newest_t) t (case RBT.lookup m k of Some g \<Rightarrow> g | None \<Rightarrow> tile_grant_default) = (g', d)"
        by fastforce
      have "g = g'" using g strides_loop_lookup [OF assms(2) m', of k] Some st by simp
      moreover have "t \<in> set tiles" "tf_id t = k" using Some by (auto simp: find_Some_iff)
      ultimately show ?thesis using stride_grants [OF old st] by blast
    qed
    then show ?thesis using assms(1) Some by (simp add: b' budget_inv_def)
  qed
  then show "budget_inv pow2 b'"
    and "RBT.lookup (bu_every_pixel b') k = Some g \<Longrightarrow> tg_on g \<Longrightarrow> \<exists>t \<in> set tiles. tf_id t = k \<and> granted t g"
    and "RBT.lookup (bu_every_pixel b') k = Some g \<Longrightarrow> \<exists>t \<in> set tiles. tf_id t = k \<and> tg_owner g = tf_owner t" by blast+
qed

inductive budget_step :: "(rat \<Rightarrow> rat) \<Rightarrow> budget \<Rightarrow> budget \<Rightarrow> bool" for pow2 where
  due: "distinct (map wt_id tiles) \<Longrightarrow> budget_step pow2 b (fleet_round pow2 at tiles b)"

lemma fleet_round_grants:
  assumes "budget_inv pow2 b" "distinct (map wt_id tiles)"
  shows "budget_inv pow2 (fleet_round pow2 at tiles b)"
    and "bu_next_round_at b \<le> at \<Longrightarrow> RBT.lookup (bu_every_pixel (fleet_round pow2 at tiles b)) k = Some g \<Longrightarrow> tg_on g \<Longrightarrow>
      \<exists>s \<in> set tiles. wt_id s = k \<and> granted (tile_fit_of s) g"
proof -
  define newest where "newest = fold (\<lambda>s t. case wt_frame_t s of Some v \<Rightarrow> max t v | None \<Rightarrow> t) tiles (0 :: rat)"
  obtain c1 b1 where b1: "budget_round pow2 (map wt_fit tiles) (list_ex tile_over tiles) newest (b\<lparr>bu_next_round_at := at + ROUND_MS\<rparr>) = (c1, b1)"
    by fastforce
  obtain c2 b2 where b2: "strides (map tile_fit_of tiles) newest b1 = (c2, b2)" by fastforce
  have r: "fleet_round pow2 at tiles b = (if at < bu_next_round_at b then b else b2)"
    using b1 b2 by (simp add: fleet_round_def Let_def flip: newest_def)
  have "budget_inv pow2 (b\<lparr>bu_next_round_at := at + ROUND_MS\<rparr>)" using assms(1) by (simp add: budget_inv_def)
  then have "budget_inv pow2 b1" using budget_round_frame(1) [OF b1] by blast
  moreover have "map tf_id (map tile_fit_of tiles) = map wt_id tiles" by (simp add: tile_fit_of_def)
  then have "distinct (map tf_id (map tile_fit_of tiles))" using assms(2) by (simp only:)
  ultimately have s: "budget_inv pow2 b2"
    "\<And>k g. RBT.lookup (bu_every_pixel b2) k = Some g \<Longrightarrow> tg_on g \<Longrightarrow> \<exists>t \<in> set (map tile_fit_of tiles). tf_id t = k \<and> granted t g"
    using strides_grants(1,2) [OF _ _ b2] by blast+
  then show "budget_inv pow2 (fleet_round pow2 at tiles b)" using assms(1) r by simp
  show "\<exists>s \<in> set tiles. wt_id s = k \<and> granted (tile_fit_of s) g"
    if "bu_next_round_at b \<le> at" "RBT.lookup (bu_every_pixel (fleet_round pow2 at tiles b)) k = Some g" "tg_on g"
  proof -
    have "RBT.lookup (bu_every_pixel b2) k = Some g" using that(1,2) r by simp
    then have "\<exists>t \<in> set (map tile_fit_of tiles). tf_id t = k \<and> granted t g" by (rule s(2)) (rule that(3))
    then show ?thesis by (auto simp: tile_fit_of_def)
  qed
qed

interpretation rounds: kept_by_steps "budget_step pow2" "budget_inv pow2" for pow2
  by unfold_locales (auto elim!: budget_step.cases intro: fleet_round_grants(1))

lemma budget_inv_default: "budget_inv pow2 budget_default"
  by (simp add: budget_inv_def budget_default_def)

text \<open>An example: one tile whose fit allows every pixel, for three rounds.\<close>

definition demo_tile :: wall_tile where
  "demo_tile = \<lparr>wt_id = [1], wt_boot_id = Some [7], wt_fit = Some (Finite 500000), wt_every_pixel = Some 400000,
     wt_render_ms_max = None, wt_frame_t = Some 3\<rparr>"

definition demo_budget :: "nat \<Rightarrow> budget" where
  "demo_budget n = fold (\<lambda>k. fleet_round (\<lambda>_. 1) (2000 * k) [demo_tile]) [0..<n] budget_default"

lemma demo_budget_Suc: "demo_budget (Suc n) = fleet_round (\<lambda>_. 1) (2000 * n) [demo_tile] (demo_budget n)"
  by (simp add: demo_budget_def)

lemma demo_fleet_round:
  assumes "bu_next_round_at b \<le> at" "bu_current b = None \<or> bu_current b = Some 250000"
    "bu_smoothed b = None \<or> bu_smoothed b = Some 500000"
  defines "b' \<equiv> fleet_round (\<lambda>_. 1) at [demo_tile] b"
  shows "bu_next_round_at b' = at + 2000" "bu_current b' = Some 250000" "bu_smoothed b' = Some 500000"
    "RBT.lookup (bu_every_pixel b') [1] = Some (fst (stride 250000 (start_frame 3) (tile_fit_of demo_tile)
       (case RBT.lookup (bu_every_pixel b) [1] of Some g \<Rightarrow> g | None \<Rightarrow> tile_grant_default)))"
proof -
  define b1 where "b1 = snd (budget_round (\<lambda>_. 1) [Some (Finite 500000)] False 3 (b\<lparr>bu_next_round_at := at + 2000\<rparr>))"
  have b1: "bu_next_round_at b1 = at + 2000" "bu_current b1 = Some 250000" "bu_smoothed b1 = Some 500000"
    "bu_every_pixel b1 = bu_every_pixel b"
    using assms(2,3) by (auto simp: b1_def budget_round_def known_fits_def List.map_filter_simps least_def round_next_def
        one_rung Let_def set_budget_def smooth_def)
  have b': "b' = snd (strides [tile_fit_of demo_tile] 3 b1)"
    using assms(1) by (simp add: b'_def fleet_round_def b1_def ROUND_MS_def demo_tile_def tile_over_def)
  define m where "m = retain_keys (\<lambda>i. tf_id (tile_fit_of demo_tile) = i) (bu_every_pixel b)"
  have key: "tf_id (tile_fit_of demo_tile) = [1]" by (simp add: tile_fit_of_def demo_tile_def)
  obtain m' c where m': "strides_loop 250000 (start_frame 3) [tile_fit_of demo_tile] m = (m', c)" by fastforce
  have st: "b' = b1\<lparr>bu_every_pixel := m'\<rparr>" using b1 m' by (simp add: b' strides_def m_def)
  then show "bu_next_round_at b' = at + 2000" "bu_current b' = Some 250000" "bu_smoothed b' = Some 500000" using b1 by simp_all
  show "RBT.lookup (bu_every_pixel b') [1] = Some (fst (stride 250000 (start_frame 3) (tile_fit_of demo_tile)
       (case RBT.lookup (bu_every_pixel b) [1] of Some g \<Rightarrow> g | None \<Rightarrow> tile_grant_default)))"
    using strides_loop_lookup [OF _ m', of "[1]"] by (simp add: st key m_def retain_keys_lookup)
qed

lemma demo_budget_reachable: "(budget_step (\<lambda>_. 1))\<^sup>*\<^sup>* budget_default (demo_budget n)"
proof (induction n)
  case (Suc n)
  have "budget_step (\<lambda>_. 1) (demo_budget n) (demo_budget (Suc n))"
    unfolding demo_budget_Suc by (rule budget_step.due) simp
  then show ?case using Suc by (rule rtranclp.rtrancl_into_rtrancl [rotated])
qed (simp add: demo_budget_def)

lemma demo_budget_state:
  "bu_next_round_at (demo_budget (Suc n)) = 2000 * n + 2000 \<and> bu_current (demo_budget (Suc n)) = Some 250000 \<and>
   bu_smoothed (demo_budget (Suc n)) = Some 500000"
proof (induction n)
  case 0
  then show ?case unfolding demo_budget_Suc
    by (simp add: demo_fleet_round demo_budget_def budget_default_def)
next
  case (Suc n)
  then show ?case unfolding demo_budget_Suc [of "Suc n"] by (simp add: demo_fleet_round)
qed

lemma demo_granted: "\<exists>g. RBT.lookup (bu_every_pixel (demo_budget 3)) [1] = Some g \<and> tg_on g \<and> tg_owner g = [7]"
proof -
  let ?next = "\<lambda>g. fst (stride 250000 (start_frame 3) (tile_fit_of demo_tile) g)"
  have "RBT.lookup (bu_every_pixel (demo_budget 1)) [1] = Some (?next tile_grant_default)"
    using demo_fleet_round(4) [of "demo_budget 0" 0] by (simp add: demo_budget_def budget_default_def)
  then have "RBT.lookup (bu_every_pixel (demo_budget 2)) [1] = Some (?next (?next tile_grant_default))"
    using demo_fleet_round(4) [of "demo_budget 1" 2000] demo_budget_state [of 0] demo_budget_Suc [of 1] by (simp add: numeral_2_eq_2)
  then have "RBT.lookup (bu_every_pixel (demo_budget 3)) [1] = Some (?next (?next (?next tile_grant_default)))"
    using demo_fleet_round(4) [of "demo_budget 2" 4000] demo_budget_state [of 1] demo_budget_Suc [of 2]
    by (simp add: numeral_2_eq_2 numeral_3_eq_3)
  then show ?thesis
    by (simp add: stride_def tile_fit_of_def demo_tile_def tile_grant_default_def affords_def tile_over_def Let_def)
qed

text \<open>
  Claim C31. After any number of rounds, whatever the tiles reported in them, the budget in force is a rung of the ladder,
  and after a round that was due every tile that is told to draw every pixel is on the wall, is told so for exactly the
  renderer process that reported, has a finite fit that reaches the budget it needs for it, and has no frame that overran
  its slot.
\<close>

theorem grants_sound:
  assumes "(budget_step pow2)\<^sup>*\<^sup>* budget_default b" "distinct (map wt_id tiles)" "bu_next_round_at b \<le> at"
    and "b' = fleet_round pow2 at tiles b"
  shows "(\<forall>c. bu_current b' = Some c \<longrightarrow> c \<in> rungs pow2) \<and>
    (\<forall>k g. RBT.lookup (bu_every_pixel b') k = Some g \<and> tg_on g \<longrightarrow>
       (\<exists>s \<in> set tiles. wt_id s = k \<and> wt_boot_id s = Some (tg_owner g) \<and> \<not> tile_over s \<and>
          (\<exists>f e. wt_fit s = Some (Finite f) \<and> wt_every_pixel s = Some e \<and> e \<le> f)))"
proof (intro conjI allI impI)
  have inv: "budget_inv pow2 b" by (rule rounds.steps_keep [OF assms(1) budget_inv_default])
  note r = fleet_round_grants [OF inv assms(2)]
  show "c \<in> rungs pow2" if "bu_current b' = Some c" for c using r(1) that by (simp add: assms(4) budget_inv_def)
  fix k g assume g: "RBT.lookup (bu_every_pixel b') k = Some g \<and> tg_on g"
  then obtain s where s: "s \<in> set tiles" "wt_id s = k" "granted (tile_fit_of s) g" using r(2) [OF assms(3)] assms(4) by blast
  have "wt_boot_id s = Some (tg_owner g)"
    using s(3) by (cases "wt_boot_id s") (auto simp: granted_def tile_fit_of_def)
  then show "\<exists>s \<in> set tiles. wt_id s = k \<and> wt_boot_id s = Some (tg_owner g) \<and> \<not> tile_over s \<and>
      (\<exists>f e. wt_fit s = Some (Finite f) \<and> wt_every_pixel s = Some e \<and> e \<le> f)"
    using s by (intro bexI [of _ s]) (simp_all add: granted_def tile_fit_of_def)
qed

theorem grants_sound_witness:
  "bu_next_round_at (demo_budget 2) \<le> 4000 \<and> wt_boot_id demo_tile = Some [7] \<and> \<not> tile_over demo_tile \<and>
   (\<exists>g. RBT.lookup (bu_every_pixel (fleet_round (\<lambda>_. 1) 4000 [demo_tile] (demo_budget 2))) [1] = Some g \<and> tg_on g)"
proof -
  have due: "bu_next_round_at (demo_budget 2) \<le> 4000" using demo_budget_state [of 1] by (simp add: numeral_2_eq_2)
  have three: "fleet_round (\<lambda>_. 1) 4000 [demo_tile] (demo_budget 2) = demo_budget 3"
    using demo_budget_Suc [of 2] by (simp add: numeral_3_eq_3 numeral_2_eq_2)
  obtain g where g: "RBT.lookup (bu_every_pixel (demo_budget 3)) [1] = Some g" "tg_on g" "tg_owner g = [7]" using demo_granted by blast
  have "wt_boot_id demo_tile = Some (tg_owner g) \<and> \<not> tile_over demo_tile"
    using grants_sound [OF demo_budget_reachable _ due three [symmetric]] g by auto
  then show ?thesis using due three g by auto
qed

end
