(* ===== verification/Spec2Isabelle.thy ===== *)
theory Spec2Isabelle
  imports Uffd_Holes Uffd_Set_Store Uffd_Prefetch Fuse_Wire Fuse_Remap Exec_Proto Coord_Admission Potato_Match Potato_Agent_Run
    Fleet_Tiling Fleet_History Fleet_Budget
begin

text \<open>
  A verification library of fcvm, which runs containers in microVMs, snapshots them and restores them as clones, and of
  the fleet built on it: a coordinator, the agents of its hosts and a wall of rendered tiles.  File names are relative to
  the repository's root.  A \<^emph>\<open>property\<close> is a theorem below a paragraph that names its claim; the other theorems
  are the library.

  \<^bold>\<open>The parts and how they interact.\<close>

  \<^item> \<^emph>\<open>Restoring memory.\<close>  A clone's memory is served page by page from the snapshot's image.  The server keeps a
    map of the image's holes (\<open>src/uffd/holes.rs\<close>), so that a hole is answered with zeros; it records which pages clones
    touch and keeps that working set beside the snapshot (\<open>src/uffd/working_set.rs\<close>); and it replays the recorded set
    into the next clone before that asks (\<open>src/uffd/prefetch.rs\<close>).
  \<^item> \<^emph>\<open>Volumes.\<close>  A guest's file requests travel over a pipe as frames (\<open>fuse-pipe/src/protocol\<close>).  A portable volume
    wraps the host's server so that inode numbers and handles keep their meaning when the VM is restored on another
    host (\<open>fuse-pipe/src/server/remap.rs\<close>).
  \<^item> \<^emph>\<open>Exec.\<close>  Commands run in the guest over typed frames (\<open>exec-proto/src/lib.rs\<close>).
  \<^item> \<^emph>\<open>The fleet.\<close>  Viewers hold seats and tokens (\<open>src/fleet/coord/admission.rs\<close>).  The wall's image is cut into one
    rectangle per tile, all tiles share one render budget, and idle wall space shows lines of history
    (\<open>fleet/core/src/tiling.rs\<close>, \<open>budget.rs\<close>, \<open>history.rs\<close>, called from \<open>apply.rs\<close>).  The hot potato game shows that a
    VM's memory survives its sleep: players pass a ball, sleeping as snapshots in between
    (\<open>fleet/potato/src\<close>); the agent of their host boots, sleeps and wakes them (\<open>src/fleet/agent/potato.rs\<close>); the
    coordinator checks the proofs they report and keeps the records (\<open>fleet/core/src/potato.rs\<close>).

  \<^bold>\<open>The theories.\<close>

  \<^item> \<open>Fcvm_Prelude\<close>, \<open>Byte_Codec\<close>, \<open>Decimal\<close>, \<open>Utf8\<close>, \<open>Base64_Url\<close>: Rust's arithmetic, integer and text encodings;
    the collections \<open>rust_arith\<close>, \<open>codec_simps\<close> and \<open>bitmap_simps\<close>; and the locale \<open>kept_by_steps\<close>, the contract of a
    step relation with an invariant, interpreted for the seats, the player, the game, the agent and the budget.
  \<^item> \<open>Framing\<close>: byte streams and the locale \<open>frame_codec\<close>, interpreted by \<open>Fuse_Wire\<close> and \<open>Exec_Proto\<close>.
  \<^item> \<open>Granule_Bitmap\<close>: bitmaps as sets and the locale \<open>range_marks\<close>, interpreted by \<open>Uffd_Holes\<close> and
    \<open>Uffd_Working_Set\<close>.
  \<^item> \<open>Uffd_Holes\<close>, \<open>Uffd_Working_Set\<close>, \<open>Uffd_Set_Store\<close>, \<open>Uffd_Prefetch\<close>: the operations on both bitmaps are exactly
    the ones on sets they stand for, on every path; a hole map never covers data; the codec is a round trip and
    accepts nothing outside the image; the store and its worker, as a step relation over clones, worker and failures,
    lose nothing that was scheduled; the plan ends, covers what was recorded and stays inside the file.
  \<^item> \<open>Fuse_Protocol\<close>, \<open>Fuse_Wire\<close>, \<open>Fuse_Remap\<close>: the messages; any cut of a stream of frames is read as its whole
    frames; the numbering stays one to one and survives a restore; stale handles are recognised and reopened; renames, and
    exchanges of entries with nothing recorded below them, keep the recorded paths true.
  \<^item> \<open>Exec_Proto\<close>: the same for exec frames, with their limits.
  \<^item> \<open>Coord_Admission\<close>: what a valid token proves; seats are never oversubscribed in any interleaving.
  \<^item> \<open>Potato_Player\<close>, \<open>Potato_Game\<close>, \<open>Potato_Invariant\<close>, \<open>Potato_Properties\<close>, \<open>Potato_Match\<close>: the player's memory is
    the replay of what it caught; every operation of the game returns; records are earned and only improve; a catch
    is verified exactly when the memory is the one the coordinator knows.
  \<^item> \<open>Potato_Agent\<close>, \<open>Potato_Agent_Safety\<close>, \<open>Potato_Agent_Run\<close>: the agent's driver with the tasks it spawned, as a step
    relation over orders, reports and finished tasks: one task per player, nobody left awake, no panic on an order of a
    round with players.
  \<^item> \<open>Fleet_Tiling\<close>, \<open>Fleet_Budget\<close>, \<open>Fleet_History\<close>: the wall is cut exactly; what a round of the budget and its
    grants guarantee; every line of history gets its turn.
  \<^item> This theory: the coordinator's order and the agent that plays it, over the reachable states of both, and
    that the agent never panics.

  \<^bold>\<open>How the code is read.\<close>  A struct is a record and an enum a datatype.  Where widths matter, integers are words;
  otherwise they are natural numbers, with overflow written out in the memory components and left out where the code's
  numbers cannot reach \<open>2 ^ 64\<close> (times, sequence numbers and laps of the game).  A panic (an index out of range, a remainder by
  zero, a failed assertion) is \<open>None\<close>, and theorems show it is not reached; the agent is the exception, which panics on an
  order with an empty ring, so its theorems are about orders with at least one player, as all of the coordinator's are.  An \<open>f64\<close> is an exact rational number, so
  rounding is not covered.  What is outside the sources is a parameter: the kernel's \<open>lseek\<close>, \<open>mincore\<close> and ioctls,
  SHA-256, HMAC, the serializers, random bytes, clocks, \<open>ln\<close> and \<open>powf\<close>.  Where a property needs something of one, that is a
  hypothesis and its witness instantiates it.

  \<^bold>\<open>Bounds and termination.\<close>  Loops are structural recursion or have a termination proof; the loop over verified
  catches is a \<open>partial_function\<close> that is proved to return in every reachable state.  The bounds of the model are
  those of the code: the search of \<open>register_entry\<close> (9,998 numbers), the hold's 10,000 laps in the coordinator and
  1,000 in the agent, message limits and queue lengths.  A hold of at most ten seconds has stopped shrinking by then, so
  the coordinator's bound is none for the default settings.

  \<^bold>\<open>Not modelled.\<close>  The page-fault server's event loops, the commands, hypervisors, networking, storage and setup of
  fcvm, and the guest agent act through system calls, sockets and external programs, and their meaning is mostly that of
  those.  The camera and terrain are floating-point geometry whose rounding matters.  Of the fleet's reducer only the
  potato game, the tiling and the budget are modelled; its races, claims, phones and power states are not.  The async readers repeat the
  synchronous ones.  Interleavings inside one call of the inode remapping, the agent's commands themselves, the
  renderers, the page and the benchmarks are left out.
\<close>

section \<open>The coordinator and the agent\<close>

text \<open>A round of the game has players, the first numbers up to its size.\<close>

lemma ordered_ring:
  assumes "(game_step sha256 cfg)\<^sup>*\<^sup>* potato_default g" "0 \<notin> set (cf_sizes cfg)" "po_round g = Some r"
  shows "rd_ring r = [0..<rd_size r]" "rd_ring r \<noteq> []"
proof -
  have inv: "game_inv cfg g" using reachable_inv [OF assms(1)] by blast
  then have size: "rd_size r \<in> set (cf_sizes cfg)" "rd_ring r = [0..<rd_size r]"
    using game_invD(2) [OF inv assms(3)] by (auto simp: round_inv_def game_inv_def)
  then show "rd_ring r = [0..<rd_size r]" "rd_ring r \<noteq> []" using assms(2) by (metis gr0I upt_eq_Nil_conv not_le)+
qed

lemma end_playing_ends:
  "yields (end_playing clk d) (\<lambda>e. dv_playing e = None \<and> length (dv_players e) = length (dv_players d))"
proof (cases "dv_playing d")
  case None
  then show ?thesis by (simp add: end_playing_def)
next
  case (Some p)
  define e where "e = d\<lparr>dv_playing := None, dv_ended := Some (pr_round (pg_order p))\<rparr>"
  have "dv_playing f = None \<and> length (dv_players f) = length (dv_players d)" if "calm {#} e f" for f
    using calm_playing(1) [OF that] that by (simp add: e_def calm_def)
  then have "yields (sleep_awake clk (Some (pr_round (pg_order p))) e)
      (\<lambda>e. dv_playing e = None \<and> length (dv_players e) = length (dv_players d))"
    by (intro yields_mono [OF sleep_awake_calm]) blast
  then show ?thesis using Some by (simp add: end_playing_def Let_def e_def)
qed

lemma order_played:
  assumes "\<not> same_round d (Some q)" "pr_ring q \<noteq> []" "\<forall>n \<in> set (pr_ring q). n < length (dv_players d)"
  shows "yields (order clk (Some q) d)
    (\<lambda>e. \<exists>p. dv_playing e = Some p \<and> pg_order p = q \<and> pg_seq p = 0 \<and> \<not> pg_over p)"
proof -
  have new: "yields (advance clk (e\<lparr>dv_playing := Some \<lparr>pg_order = q, pg_seq = 0, pg_caught = False, pg_kicked = False,
      pg_over = False\<rparr>\<rparr>)) (\<lambda>e. \<exists>p. dv_playing e = Some p \<and> pg_order p = q \<and> pg_seq p = 0 \<and> \<not> pg_over p)"
    if "length (dv_players e) = length (dv_players d)" for e :: "'a driver"
  proof -
    define f where "f = e\<lparr>dv_playing := Some \<lparr>pg_order = q, pg_seq = 0, pg_caught = False, pg_kicked = False,
      pg_over = False\<rparr>\<rparr>"
    have ok: "ring_ok f" using assms that by (simp add: ring_ok_def f_def)
    have "\<exists>p. dv_playing h = Some p \<and> pg_order p = q \<and> pg_seq p = 0 \<and> \<not> pg_over p" if "calm {#} f h" for h
    proof -
      have "map_option (\<lambda>p. p\<lparr>pg_kicked := True\<rparr>) (dv_playing h) = Some \<lparr>pg_order = q, pg_seq = 0, pg_caught = False,
          pg_kicked = True, pg_over = False\<rparr>" using that by (simp add: calm_def f_def)
      then obtain p where "dv_playing h = Some p" and p: "p\<lparr>pg_kicked := True\<rparr> = \<lparr>pg_order = q, pg_seq = 0,
          pg_caught = False, pg_kicked = True, pg_over = False\<rparr>" by auto
      then show ?thesis by (cases p) simp
    qed
    then have "yields (advance clk f) (\<lambda>e. \<exists>p. dv_playing e = Some p \<and> pg_order p = q \<and> pg_seq p = 0 \<and> \<not> pg_over p)"
      by (rule yields_mono [OF advance_calm [OF ok]])
    then show ?thesis unfolding f_def .
  qed
  have "\<not> list_ex (\<lambda>n. length (dv_players d) \<le> n) (pr_ring q)" using assms(3) by (auto simp: list_ex_iff)
  then show ?thesis using assms(1) unfolding order_def
    by (auto intro!: yields_bind [OF end_playing_ends] new)
qed

text \<open>
  Claim C27. A round the coordinator starts is the round the agent plays: in every state of the game and of the agent, the
  agent takes the order of a round it is not playing yet, on as many players as it runs, without a failure; it then plays
  exactly that round from its first catch, and the hold from which it computes whom to wake is the coordinator's.
\<close>

theorem ordered_round_played:
  assumes "(game_step sha256 cfg)\<^sup>*\<^sup>* potato_default g" "0 \<notin> set (cf_sizes cfg)" "po_round g = Some r"
    and "agent_reachable (d, W)" "rd_size r \<le> length (dv_players d)"
    and "\<forall>p. dv_playing d = Some p \<longrightarrow> pr_round (pg_order p) \<noteq> rd_id r"
  shows "\<exists>d' p. agent_turn player_of clk (Ordered (order_of g)) d = Some d' \<and> dv_playing d' = Some p \<and>
    order_of g = Some (pg_order p) \<and> \<not> pg_over p \<and> playing_hold_ms p = hold_at r (pg_seq p)"
proof -
  obtain q where q: "order_of g = Some q" "pr_ring q = rd_ring r" "pr_round q = rd_id r"
    using assms(3) by (simp add: order_of_def)
  have size: "rd_ring r = [0..<rd_size r]" and ring: "pr_ring q \<noteq> []"
    using ordered_ring [OF assms(1-3)] q(2) by simp_all
  have "\<not> same_round d (Some q)" using assms(6) q(3) by (simp add: same_round_def split: option.split)
  then have "yields (order clk (Some q) d) (\<lambda>e. \<exists>p. dv_playing e = Some p \<and> pg_order p = q \<and> pg_seq p = 0 \<and> \<not> pg_over p)"
    using ring size q(2) assms(5) by (intro order_played) auto
  then obtain d' p where p: "order clk (Some q) d = Some d'" "dv_playing d' = Some p" "pg_order p = q" "pg_seq p = 0"
    "\<not> pg_over p" by (auto simp: yields_def)
  have "playing_hold_ms p = hold_at r (pg_seq p)" by (rule agent_hold_agrees [OF assms(3)]) (use q p in simp_all)
  then show ?thesis using p q(1) by (simp add: agent_turn_def)
qed

theorem ordered_round_played_witness:
  "\<exists>d' p. agent_turn (\<lambda>_. None) (5, 1005) (Ordered (order_of demo_round)) (fst (agent_start 2 0 :: unit agent_world)) = Some d' \<and>
    dv_playing d' = Some p \<and> order_of demo_round = Some (pg_order p) \<and> \<not> pg_over p \<and>
    playing_hold_ms p = hold_at (new_round 1 2 1000 demo_config) (pg_seq p)"
proof (rule ordered_round_played [OF demo_reachable [of demo_sha]])
  show "agent_reachable (fst (agent_start 2 0 :: unit agent_world), snd (agent_start 2 0 :: unit agent_world))"
    by (auto simp: agent_reachable_def)
qed (simp_all add: demo_config_def agent_start_def driver_new_def)

text \<open>
  Claim C29. In every world the agent's loop reaches, the handler returns for every report a player sends, for the end of
  every task in flight, and for every order whose ring is not empty, also one that names players this host does not run:
  no index of a player or of the ring is out of range and no remainder by an empty ring is taken. An order with an
  empty ring is not among those: the agent does not check for one. The coordinator never gives one: whatever happened
  in the game before, as long as its ladder has no size zero, the ring of its order is not empty.
\<close>

theorem agent_never_panics:
  assumes "agent_reachable (d, W)"
    and "\<forall>x. msg = Finished x \<longrightarrow> in_flight x W" and "\<forall>q. msg = Ordered (Some q) \<longrightarrow> pr_ring q \<noteq> []"
  shows "(\<exists>d'. agent_turn player_of clk msg d = Some d') \<and>
    (\<forall>sha256 cfg g q. (game_step sha256 cfg)\<^sup>*\<^sup>* potato_default g \<and> 0 \<notin> set (cf_sizes cfg) \<and> order_of g = Some q \<longrightarrow>
       pr_ring q \<noteq> [])"
proof (intro conjI allI impI)
  have "may_arrive msg W" using assms(2,3) by (cases "(msg, W)" rule: may_arrive.cases) simp_all
  then show "\<exists>d'. agent_turn player_of clk msg d = Some d'" by (rule agent_turn_returns [OF assms(1)])
next
  fix sha256 cfg g q
  assume a: "(game_step sha256 cfg)\<^sup>*\<^sup>* potato_default g \<and> 0 \<notin> set (cf_sizes cfg) \<and> order_of g = Some q"
  then obtain r where "po_round g = Some r" "pr_ring q = rd_ring r" by (auto simp: order_of_def)
  then show "pr_ring q \<noteq> []" using ordered_ring [of sha256 cfg g r] a by simp
qed

theorem agent_never_panics_witness:
  "agent_reachable (fst demo_agent, snd demo_agent) \<and>
   (\<exists>d'. agent_turn (\<lambda>_. None) (9, 1009) (Finished (Booted 1 (Inr None))) (fst demo_agent) = Some d') \<and>
   (\<exists>d'. agent_turn (\<lambda>_. None) (9, 1009) (Ordered (order_of demo_round)) (fst demo_agent) = Some d')"
proof (intro conjI)
  have ring: "order_of demo_round = Some q \<Longrightarrow> pr_ring q \<noteq> []" for q
    by (auto simp: order_of_def new_round_def)
  show "\<exists>d'. agent_turn (\<lambda>_. None) (9, 1009) (Finished (Booted 1 (Inr None))) (fst demo_agent) = Some d'"
    by (rule conjunct1 [OF agent_never_panics [OF demo_agent_reachable]]) (simp_all add: demo_agent_def in_flight_def)
  show "\<exists>d'. agent_turn (\<lambda>_. None) (9, 1009) (Ordered (order_of demo_round)) (fst demo_agent) = Some d'"
    by (rule conjunct1 [OF agent_never_panics [OF demo_agent_reachable]]) (simp_all add: ring)
qed (rule demo_agent_reachable)

end
